(* ===== verification/Prelude.thy ===== *)
theory Prelude
  imports Main "HOL-Library.Word" "HOL-Library.Multiset"
begin

text \<open>
  Shared ground of the development: the machine integers of the C++ code, the collections
  of simplification rules the components feed, reachable states of a step relation with
  the invariant principle as a locale, and generic facts on lists, options and words.
\<close>

unbundle bit_operations_syntax

section \<open>Machine integers and collections\<close>

text \<open>\<^verbatim>\<open>wild::types\<close> names the fixed-width integers; they wrap around.\<close>

type_synonym uint32 = "32 word"
type_synonym uint64 = "64 word"

named_theorems wheel_simps "arithmetic and array facts of the timer wheel"
named_theorems proc_simps "field effects of the process operations"
named_theorems ref_simps "field effects of the reference-count operations"

section \<open>Step relations, reachable states, invariants\<close>

inductive reach :: "('s \<Rightarrow> bool) \<Rightarrow> ('s \<Rightarrow> 's \<Rightarrow> bool) \<Rightarrow> 's \<Rightarrow> bool"
  for I :: "'s \<Rightarrow> bool" and R :: "'s \<Rightarrow> 's \<Rightarrow> bool" where
  reach_init: "I s \<Longrightarrow> reach I R s"
| reach_step: "reach I R s \<Longrightarrow> R s t \<Longrightarrow> reach I R t"

text \<open>The contract of an inductive invariant, and what it buys.\<close>

locale invariant_contract =
  fixes init :: "'s \<Rightarrow> bool"
    and step :: "'s \<Rightarrow> 's \<Rightarrow> bool"
    and inv :: "'s \<Rightarrow> bool"
  assumes inv_init: "init s \<Longrightarrow> inv s"
    and inv_step: "inv s \<Longrightarrow> step s t \<Longrightarrow> inv t"
begin

lemma inv_reach: "reach init step s \<Longrightarrow> inv s"
  by (induction rule: reach.induct) (auto intro: inv_init inv_step)

lemma inv_steps: "step\<^sup>*\<^sup>* s t \<Longrightarrow> inv s \<Longrightarrow> inv t"
  by (induction rule: rtranclp_induct) (auto intro: inv_step)

end

section \<open>Words\<close>

lemma unat_bound: "unat w < 2 ^ LENGTH('a)" for w :: "'a::len word"
  by (rule unsigned_less)

lemma unat_max64: "unat (- 1 :: uint64) = 18446744073709551615"
  by (simp add: unsigned_minus_1_eq_mask mask_eq_exp_minus_1)

lemma unat_AND_mask: "unat (w AND mask n) = unat w mod 2 ^ n" for w :: "'a::len word"
  by (metis take_bit_eq_mask take_bit_eq_mod unsigned_take_bit_eq)

lemma unat_plus_less:
  "unat a + unat b < 2 ^ LENGTH('a) \<Longrightarrow> unat (a + b) = unat a + unat b" for a b :: "'a::len word"
  by (simp add: unat_word_ariths)

lemma unat_plus_wrap:
  fixes a b :: "'a::len word"
  assumes "2 ^ LENGTH('a) \<le> unat a + unat b"
  shows "unat (a + b) = unat a + unat b - 2 ^ LENGTH('a)"
proof -
  have "unat a + unat b - 2 ^ LENGTH('a) < 2 ^ LENGTH('a)"
    using assms unat_bound [of a] unat_bound [of b] by linarith
  then show ?thesis
    using assms by (simp add: unat_word_ariths le_mod_geq)
qed

lemma unat_Suc_less:
  "unat a + 1 < 2 ^ LENGTH('a) \<Longrightarrow> unat (a + 1) = unat a + 1" for a :: "'a::len word"
  by (metis unat_1 unat_plus_less)

lemma unat_Suc_less_word: "a < b \<Longrightarrow> unat (a + 1) = unat a + 1" for a b :: "'a::len word"
proof (rule unat_Suc_less)
  assume "a < b"
  then have "unat a + 1 \<le> unat b" by (simp add: word_less_nat_alt)
  also have "unat b < 2 ^ LENGTH('a)" by (rule unsigned_less)
  finally show "unat a + 1 < 2 ^ LENGTH('a)" .
qed

lemma unat_drop_bit: "unat (drop_bit n w) = unat w div 2 ^ n" for w :: "'a::len word"
  by (metis drop_bit_eq_div unat_drop_bit_eq)

lemma OR_mask_eq_iff:
  "(a OR mask k = b OR mask k) \<longleftrightarrow> unat a div 2 ^ k = unat b div 2 ^ k" for a b :: "'a::len word"
proof -
  have "(a OR mask k = b OR mask k) \<longleftrightarrow> drop_bit k a = drop_bit k b"
  proof
    assume *: "a OR mask k = b OR mask k"
    have "drop_bit k a = drop_bit k (a OR mask k)" for a :: "'a word"
      by (rule bit_word_eqI) (auto simp: bit_or_iff bit_mask_iff bit_drop_bit_eq)
    with * show "drop_bit k a = drop_bit k b" by metis
  next
    assume *: "drop_bit k a = drop_bit k b"
    show "a OR mask k = b OR mask k"
    proof (rule bit_word_eqI)
      fix n assume n: "n < LENGTH('a)"
      show "bit (a OR mask k) n = bit (b OR mask k) n"
      proof (cases "n < k")
        case True
        with n show ?thesis by (simp add: bit_or_iff bit_mask_iff)
      next
        case False
        then have "n = k + (n - k)" by simp
        with * have "bit a n = bit b n" by (metis bit_drop_bit_eq comp_apply)
        then show ?thesis by (simp add: bit_or_iff)
      qed
    qed
  qed
  then show ?thesis
    by (metis unat_drop_bit word_unat_eq_iff)
qed

section \<open>Lists and multisets\<close>

lemma sum_upd_mset:
  "finite A \<Longrightarrow> i \<in> A \<Longrightarrow>
    (\<Sum>j\<in>A. mset ((f(i := xs)) j)) + mset (f i) = (\<Sum>j\<in>A. mset (f j)) + mset xs"
  by (simp add: sum.remove [of A i] ac_simps)

lemma filter_mset_all: "(\<And>x. x \<in># M \<Longrightarrow> P x) \<Longrightarrow> filter_mset P M = M"
  by (induction M) auto

lemma mset_filter_split: "mset xs = mset (filter P xs) + mset (filter (\<lambda>x. \<not> P x) xs)"
  by (induction xs) auto

end
