(* ===== verification/Ids.thy ===== *)
theory Ids
  imports Prelude
begin

text \<open>
  Process and session identifiers (\<^verbatim>\<open>src/types.hpp\<close>) with their comparisons and hashes, and
  the classification of a message by the sign of its session (\<^verbatim>\<open>typeOfMessage\<close> and
  \<^verbatim>\<open>sessionForResponse\<close> of \<^verbatim>\<open>src/process.cpp\<close>).
\<close>

section \<open>Identifiers\<close>

datatype process_t = process_t (pid_value: uint32)

datatype session_t = session_t (sid_value: uint32)

text \<open>\<^verbatim>\<open>explicit operator bool\<close>: an identifier is set when it is not zero.\<close>

definition pid_set :: "process_t \<Rightarrow> bool" where
  "pid_set p \<longleftrightarrow> pid_value p \<noteq> 0"

definition sid_set :: "session_t \<Rightarrow> bool" where
  "sid_set s \<longleftrightarrow> sid_value s \<noteq> 0"

text \<open>\<^verbatim>\<open>operator==\<close> and \<^verbatim>\<open>operator!=\<close> of both.\<close>

definition process_eq :: "process_t \<Rightarrow> process_t \<Rightarrow> bool" where
  "process_eq a b \<longleftrightarrow> pid_value a = pid_value b"

definition process_neq :: "process_t \<Rightarrow> process_t \<Rightarrow> bool" where
  "process_neq a b \<longleftrightarrow> \<not> process_eq a b"

definition session_eq :: "session_t \<Rightarrow> session_t \<Rightarrow> bool" where
  "session_eq a b \<longleftrightarrow> sid_value a = sid_value b"

definition session_neq :: "session_t \<Rightarrow> session_t \<Rightarrow> bool" where
  "session_neq a b \<longleftrightarrow> \<not> session_eq a b"

text \<open>They are the equality of the model, which the maps and sets of the other theories use.\<close>

lemma id_eq [simp]:
  "process_eq a b \<longleftrightarrow> a = b" "process_neq a b \<longleftrightarrow> a \<noteq> b"
  "session_eq c d \<longleftrightarrow> c = d" "session_neq c d \<longleftrightarrow> c \<noteq> d"
  by (cases a; cases b; cases c; cases d;
      simp add: process_eq_def process_neq_def session_eq_def session_neq_def)+

text \<open>Both types are ordered by their value, for the library of sorted containers.\<close>

instantiation process_t :: linorder
begin

definition less_eq_process_t :: "process_t \<Rightarrow> process_t \<Rightarrow> bool" where
  "less_eq_process_t a b \<longleftrightarrow> pid_value a \<le> pid_value b"

definition less_process_t :: "process_t \<Rightarrow> process_t \<Rightarrow> bool" where
  "less_process_t a b \<longleftrightarrow> pid_value a < pid_value b"

instance
  by standard (auto simp: less_eq_process_t_def less_process_t_def process_t.expand)

end

instantiation session_t :: linorder
begin

definition less_eq_session_t :: "session_t \<Rightarrow> session_t \<Rightarrow> bool" where
  "less_eq_session_t a b \<longleftrightarrow> sid_value a \<le> sid_value b"

definition less_session_t :: "session_t \<Rightarrow> session_t \<Rightarrow> bool" where
  "less_session_t a b \<longleftrightarrow> sid_value a < sid_value b"

instance
  by standard (auto simp: less_eq_session_t_def less_session_t_def session_t.expand)

end

section \<open>Hashes\<close>

text \<open>
  The functors that \<^verbatim>\<open>std::unordered_map\<close> and \<^verbatim>\<open>std::unordered_set\<close> use; \<open>h\<close> is the
  implementation's \<^verbatim>\<open>std::hash<uint32>\<close>, and \<^verbatim>\<open>size_t\<close> has 64 bits, so that the sum wraps.
\<close>

definition hash_process :: "(uint32 \<Rightarrow> uint64) \<Rightarrow> process_t \<Rightarrow> uint64" where
  "hash_process h key = h (pid_value key)"

definition hash_session :: "(uint32 \<Rightarrow> uint64) \<Rightarrow> session_t \<Rightarrow> uint64" where
  "hash_session h key = h (sid_value key)"

definition hash_request :: "(uint32 \<Rightarrow> uint64) \<Rightarrow> process_t \<times> session_t \<Rightarrow> uint64" where
  "hash_request h request = hash_process h (fst request) + hash_session h (snd request)"

text \<open>What an unordered container asks for, of each: equal keys have equal hashes. And what it has to
  live with: the two numbers of a request can change places.\<close>

lemma hash_respects_eq:
  "process_eq p q \<Longrightarrow> hash_process h p = hash_process h q"
  "session_eq s t \<Longrightarrow> hash_session h s = hash_session h t"
  "process_eq p q \<Longrightarrow> session_eq s t \<Longrightarrow> hash_request h (p, s) = hash_request h (q, t)"
  by simp_all

lemma hash_request_swap: "hash_request h (process_t a, session_t b) = hash_request h (process_t b, session_t a)"
  by (simp add: hash_request_def hash_process_def hash_session_def add.commute)

section \<open>The kind of a message\<close>

datatype MessageType = kNotify | kRequest | kResponse

text \<open>A response carries the negated session of its request.\<close>

definition sessionForResponse :: "session_t \<Rightarrow> session_t" where
  "sessionForResponse session = session_t (- sid_value session)"

text \<open>\<^verbatim>\<open>static_cast<int32>\<close> reads the session as two's complement.\<close>

definition typeOfSession :: "session_t \<Rightarrow> MessageType" where
  "typeOfSession s =
    (let session = sint (sid_value s)
     in if session > 0 then kRequest
        else if session < 0 then kResponse
        else kNotify)"

lemma sint_range32: "- (2 ^ 31) \<le> sint w" "sint w < 2 ^ 31" for w :: uint32
  using sint_greater_eq [of w] sint_lt [of w] by simp_all

lemma sint_min32: "sint w = - (2 ^ 31) \<longleftrightarrow> w = 0x80000000" for w :: uint32
proof
  assume "sint w = - (2 ^ 31)"
  then have "sint w = sint (0x80000000 :: uint32)" by simp
  then show "w = 0x80000000" by (simp only: signed_word_eqI)
qed simp

lemma sint_uminus32: "w \<noteq> 0x80000000 \<Longrightarrow> sint (- w) = - sint w" for w :: uint32
proof -
  assume "w \<noteq> 0x80000000"
  then have "- (2 ^ 31) < sint w" using sint_range32 [of w] sint_min32 [of w] by linarith
  then have "signed_take_bit 31 (- sint w) = - sint w"
    using sint_range32 [of w] by (intro signed_take_bit_int_eq_self) simp_all
  then show ?thesis by (simp add: sint_word_ariths)
qed

lemma sint_zero_iff32: "sint w = 0 \<longleftrightarrow> w = 0" for w :: uint32
  by (rule signed_eq_0_iff)

text \<open>Negating a session swaps requests and responses and leaves notifications, and doing it twice
  gives the session back; the one exception is the session 0x80000000, whose negation wraps to
  itself, so that it is a response and its own response session.\<close>

theorem session_kinds:
  "sessionForResponse (sessionForResponse s) = s \<and>
   typeOfSession (sessionForResponse s) =
     (if sid_value s = 0x80000000 then kResponse
      else case typeOfSession s of kRequest \<Rightarrow> kResponse | kResponse \<Rightarrow> kRequest | kNotify \<Rightarrow> kNotify)"
proof (cases "sid_value s = 0x80000000")
  case True
  then show ?thesis by (cases s) (simp add: sessionForResponse_def typeOfSession_def)
next
  case False
  then show ?thesis
    by (simp add: sessionForResponse_def typeOfSession_def sint_uminus32 [OF False] Let_def)
qed

lemma request_type: "typeOfSession s = kRequest \<longleftrightarrow> 0 < sint (sid_value s)"
  by (simp add: typeOfSession_def Let_def)

lemma response_type: "0 < sint (sid_value s) \<Longrightarrow> typeOfSession (sessionForResponse s) = kResponse"
proof -
  assume pos: "0 < sint (sid_value s)"
  then have "sid_value s \<noteq> 0x80000000" by auto
  from sint_uminus32 [OF this] pos show ?thesis
    by (simp add: sessionForResponse_def typeOfSession_def Let_def)
qed

lemma sessionForResponse_twice [simp]: "sessionForResponse (sessionForResponse s) = s"
  by (simp add: sessionForResponse_def)

end
