(* ===== verification/Append_List.thy ===== *)
theory Append_List
  imports Ids
begin

text \<open>
  Intrusive append-only lists. The mailbox and the scheduler keep theirs in
  \<^verbatim>\<open>wild::AppendList\<close>, a library outside the repository: its operations are the record
  \<open>append_ops\<close>, a parameter of every definition that uses them, and what its clients rely
  on is the locale \<open>append_list\<close>. The repository has an implementation of the same contract
  of its own, \<^verbatim>\<open>timer_list\<close> of \<^verbatim>\<open>src/time.cpp\<close>, modelled here with its pointers and its
  \<^verbatim>\<open>last\<close> link; it interprets the locale.
\<close>

section \<open>The interface\<close>

text \<open>\<^verbatim>\<open>push\<close> appends a node; \<^verbatim>\<open>clear\<close> detaches the chain of nodes and leaves an empty list.\<close>

record ('l, 'n) append_ops =
  al_empty :: 'l
  al_push :: "'n \<Rightarrow> 'l \<Rightarrow> 'l"
  al_clear :: "'l \<Rightarrow> 'n list \<times> 'l"

locale append_list =
  fixes A :: "('l, 'n) append_ops"
    and fresh :: "'n \<Rightarrow> 'n list \<Rightarrow> bool"
    and rep :: "'l \<Rightarrow> 'n list \<Rightarrow> bool"
  assumes rep_empty: "rep (al_empty A) []"
    and rep_push: "rep l ns \<Longrightarrow> fresh n ns \<Longrightarrow> rep (al_push A n l) (ns @ [n])"
    and fresh_suffix: "fresh n (ns @ ms) \<Longrightarrow> fresh n ms"
    and rep_clear: "rep l ns \<Longrightarrow> \<exists>l'. al_clear A l = (ns, l') \<and> rep l' []"
begin

lemma rep_unique: "rep l ns \<Longrightarrow> rep l ms \<Longrightarrow> ns = ms"
  by (metis prod.inject rep_clear)

lemma clearE:
  assumes "rep l ns"
  obtains l' where "al_clear A l = (ns, l')" "rep l' []"
  using rep_clear [OF assms] by blast

text \<open>Nodes come back in the order in which they were appended.\<close>

lemma rep_pushes:
  assumes "rep l ns" "\<And>ms x ms'. xs = ms @ x # ms' \<Longrightarrow> fresh x (ns @ ms)"
  shows "rep (fold (al_push A) xs l) (ns @ xs)"
  using assms
proof (induction xs rule: rev_induct)
  case (snoc x xs)
  then have "rep (fold (al_push A) xs l) (ns @ xs)" by (metis append_Cons append_assoc)
  moreover have "fresh x (ns @ xs)" using snoc.prems(2) [of xs x "[]"] by simp
  ultimately have "rep (al_push A x (fold (al_push A) xs l)) ((ns @ xs) @ [x])" by (rule rep_push)
  then show ?case by simp
qed simp

end

text \<open>Plain lists satisfy the contract; the witnesses use them.\<close>

abbreviation queue_ops :: "('m list, 'm) append_ops" where
  "queue_ops \<equiv> \<lparr>al_empty = [], al_push = (\<lambda>m ms. ms @ [m]), al_clear = (\<lambda>ms. (ms, []))\<rparr>"

lemma queue_append_list: "append_list queue_ops (\<lambda>_ _. True) (\<lambda>l ms. l = ms)"
  by unfold_locales simp_all

section \<open>The timer's list, with its pointers\<close>

text \<open>
  A node is an address; the heap maps it to its \<^verbatim>\<open>next\<close> field (\<open>None\<close> is \<^verbatim>\<open>nullptr\<close>). The
  field \<^verbatim>\<open>last\<close> points to the field to write next: the list's own \<^verbatim>\<open>first\<close>, or the \<^verbatim>\<open>next\<close>
  of a node. \<^verbatim>\<open>first\<close> of an empty list and \<^verbatim>\<open>next\<close> of the last node hold arbitrary values
  until \<^verbatim>\<open>_list_clear\<close> writes them.
\<close>

type_synonym node_heap = "nat \<Rightarrow> nat option"

datatype link = FirstOf | NextOf nat

record timer_list =
  tl_first :: "nat option"
  tl_last :: link

definition store_link :: "link \<Rightarrow> nat option \<Rightarrow> timer_list \<times> node_heap \<Rightarrow> timer_list \<times> node_heap" where
  "store_link lk p = (\<lambda>(l, h).
     case lk of FirstOf \<Rightarrow> (l\<lparr>tl_first := p\<rparr>, h) | NextOf n \<Rightarrow> (l, h(n := p)))"

definition list_init :: "timer_list \<Rightarrow> timer_list" where
  "list_init l = l\<lparr>tl_last := FirstOf\<rparr>"

definition list_append :: "nat \<Rightarrow> timer_list \<times> node_heap \<Rightarrow> timer_list \<times> node_heap" where
  "list_append n s =
     (let (l, h) = store_link (tl_last (fst s)) (Some n) s
      in (l\<lparr>tl_last := NextOf n\<rparr>, h))"

definition list_clear :: "timer_list \<times> node_heap \<Rightarrow> nat option \<times> timer_list \<times> node_heap" where
  "list_clear s =
     (let (l, h) = store_link (tl_last (fst s)) None s;
          list = tl_first l
      in (list, list_init l, h))"

text \<open>The traversal loops of \<^verbatim>\<open>_send_list\<close> and \<^verbatim>\<open>_queue_list\<close>: at most \<open>fuel\<close> nodes.\<close>

fun list_walk :: "nat \<Rightarrow> node_heap \<Rightarrow> nat option \<Rightarrow> nat list option" where
  "list_walk fuel h None = Some []"
| "list_walk 0 h (Some n) = None"
| "list_walk (Suc fuel) h (Some n) = map_option ((#) n) (list_walk fuel h (h n))"

text \<open>Consecutive nodes are linked; nothing is said of the last node's link.\<close>

fun linked :: "node_heap \<Rightarrow> nat option \<Rightarrow> nat list \<Rightarrow> bool" where
  "linked h p [] = True"
| "linked h p [n] = (p = Some n)"
| "linked h p (n # m # ns) = (p = Some n \<and> linked h (h n) (m # ns))"

fun chain :: "node_heap \<Rightarrow> nat option \<Rightarrow> nat list \<Rightarrow> bool" where
  "chain h p [] = (p = None)"
| "chain h p (n # ns) = (p = Some n \<and> chain h (h n) ns)"

definition list_rep :: "timer_list \<times> node_heap \<Rightarrow> nat list \<Rightarrow> bool" where
  "list_rep s ns \<longleftrightarrow>
     distinct ns \<and> linked (snd s) (tl_first (fst s)) ns \<and>
     tl_last (fst s) = (if ns = [] then FirstOf else NextOf (last ns))"

lemma linked_upd: "n \<notin> set (butlast ns) \<Longrightarrow> linked (h(n := q)) p ns = linked h p ns"
  by (induction h p ns rule: linked.induct) auto

lemma linked_append:
  "ns \<noteq> [] \<Longrightarrow> distinct ns \<Longrightarrow> linked h p ns \<Longrightarrow> linked (h(last ns := Some n)) p (ns @ [n])"
  by (induction h p ns rule: linked.induct) auto

lemma linked_close: "ns \<noteq> [] \<Longrightarrow> distinct ns \<Longrightarrow> linked h p ns \<Longrightarrow> chain (h(last ns := None)) p ns"
  by (induction h p ns rule: linked.induct) auto

lemma walk_chain: "chain h p ns \<Longrightarrow> length ns \<le> fuel \<Longrightarrow> list_walk fuel h p = Some ns"
proof (induction ns arbitrary: p fuel)
  case (Cons n ns)
  then show ?case by (cases fuel) auto
qed simp

lemma list_rep_init: "list_rep (list_init l, h) []"
  by (simp add: list_rep_def list_init_def)

lemma list_rep_append:
  assumes "list_rep s ns" "n \<notin> set ns"
  shows "list_rep (list_append n s) (ns @ [n])"
proof (cases s)
  case (Pair l h)
  with assms show ?thesis
    using linked_append [of ns h "tl_first l" n]
    by (auto simp: list_rep_def list_append_def store_link_def)
qed

lemma list_rep_clear:
  assumes "list_rep s ns" "list_clear s = (p, l', h')"
  shows "chain h' p ns \<and> list_rep (l', h') [] \<and> (\<forall>a. a \<notin> set ns \<longrightarrow> h' a = snd s a)"
proof (cases s)
  case (Pair l h)
  with assms show ?thesis
    using linked_close [of ns h "tl_first l"]
    by (auto simp: list_rep_def list_clear_def store_link_def list_init_def split: if_splits)
qed

text \<open>
  The list behind the interface: \<^verbatim>\<open>clear\<close> followed by the traversal its callers make. A fuel
  of \<open>bound\<close> is enough for lists of nodes with addresses below \<open>bound\<close>.
\<close>

definition timer_list_ops :: "nat \<Rightarrow> (timer_list \<times> node_heap, nat) append_ops" where
  "timer_list_ops bound =
     \<lparr>al_empty = (list_init \<lparr>tl_first = None, tl_last = FirstOf\<rparr>, \<lambda>_. None),
      al_push = list_append,
      al_clear = (\<lambda>s. case list_clear s of (p, l, h) \<Rightarrow> ((case list_walk bound h p of Some ns \<Rightarrow> ns | None \<Rightarrow> []), (l, h)))\<rparr>"

definition bounded_rep :: "nat \<Rightarrow> timer_list \<times> node_heap \<Rightarrow> nat list \<Rightarrow> bool" where
  "bounded_rep bound s ns \<longleftrightarrow> list_rep s ns \<and> (\<forall>n\<in>set ns. n < bound)"

lemma bounded_length: "distinct ns \<Longrightarrow> \<forall>n\<in>set ns. n < bound \<Longrightarrow> length ns \<le> bound"
  using card_mono [of "{..<bound}" "set ns"] by (auto simp: distinct_card)

interpretation intrusive: append_list "timer_list_ops bound" "\<lambda>n ns. n \<notin> set ns \<and> n < bound" "bounded_rep bound"
  for bound
proof
  show "bounded_rep bound (al_empty (timer_list_ops bound)) []"
    by (simp add: timer_list_ops_def bounded_rep_def list_rep_init)
next
  fix l ns n
  assume "bounded_rep bound l ns" "n \<notin> set ns \<and> n < bound"
  then show "bounded_rep bound (al_push (timer_list_ops bound) n l) (ns @ [n])"
    by (simp add: timer_list_ops_def bounded_rep_def list_rep_append)
next
  show "n \<notin> set ms \<and> n < bound" if "n \<notin> set (ns @ ms) \<and> n < bound" for n :: nat and ns ms
    using that by simp
next
  fix s ns
  assume rep: "bounded_rep bound s ns"
  obtain p l h where c: "list_clear s = (p, l, h)" by (cases "list_clear s")
  from rep c have "chain h p ns" "list_rep (l, h) []"
    by (auto simp: bounded_rep_def dest: list_rep_clear)
  moreover have "length ns \<le> bound"
    using rep bounded_length by (auto simp: bounded_rep_def list_rep_def)
  ultimately show "\<exists>l'. al_clear (timer_list_ops bound) s = (ns, l') \<and> bounded_rep bound l' []"
    using c walk_chain [of h p ns bound] by (simp add: timer_list_ops_def bounded_rep_def)
qed

lemma list_append_frame:
  "list_rep s ns \<Longrightarrow> a \<notin> set ns \<Longrightarrow> snd (list_append n s) a = snd s a"
  by (cases s) (auto simp: list_rep_def list_append_def store_link_def)

lemma fold_append_rep:
  "distinct ns \<Longrightarrow>
    list_rep (fold list_append ns (list_init l, h)) ns \<and>
    (\<forall>a. a \<notin> set ns \<longrightarrow> snd (fold list_append ns (list_init l, h)) a = h a)"
proof (induction ns rule: rev_induct)
  case (snoc n ns)
  then show ?case by (auto simp: list_rep_append list_append_frame)
qed (simp add: list_rep_init)

text \<open>The timer's intrusive list is a queue: nodes appended one after the other, none of them
  twice, come back from \<^verbatim>\<open>_list_clear\<close> and the traversal in the order of the appends,
  whatever the links held before; the list is empty afterwards and no link of a foreign
  node has changed.\<close>

theorem timer_list_fifo:
  assumes "distinct ns"
    and "fold list_append ns (list_init l, h) = s"
    and "list_clear s = (p, l', h')"
  shows "list_walk (length ns) h' p = Some ns \<and> list_clear (l', h') = (None, list_init (l'\<lparr>tl_first := None\<rparr>), h') \<and>
    (\<forall>a. a \<notin> set ns \<longrightarrow> h' a = h a)"
proof -
  obtain l1 h1 where s: "s = (l1, h1)" by (cases s)
  have rep: "list_rep s ns" "\<forall>a. a \<notin> set ns \<longrightarrow> snd s a = h a"
    using fold_append_rep [OF assms(1), of l h] assms(2) by simp_all
  then have c: "chain h' p ns" "list_rep (l', h') []" "\<forall>a. a \<notin> set ns \<longrightarrow> h' a = h a"
    using list_rep_clear [OF rep(1) assms(3)] by auto
  then show ?thesis
    by (auto simp: walk_chain list_rep_def list_clear_def store_link_def)
qed

theorem timer_list_fifo_witness:
  "fold list_append [7, 2, 5] (list_init \<lparr>tl_first = Some 9, tl_last = NextOf 1\<rparr>, \<lambda>_. Some 4)
     = (\<lparr>tl_first = Some 7, tl_last = NextOf 5\<rparr>, (\<lambda>_. Some 4)(7 := Some 2, 2 := Some 5)) \<and>
   list_walk 3 ((\<lambda>_. Some 4)(7 := Some 2, 2 := Some 5, 5 := None)) (Some 7) = Some [7, 2, 5]"
proof -
  let ?s = "(\<lparr>tl_first = Some 7, tl_last = NextOf 5\<rparr>, (\<lambda>_. Some 4)(7 := Some 2, 2 := Some (5::nat)))"
  have "fold list_append [7, 2, 5] (list_init \<lparr>tl_first = Some 9, tl_last = NextOf 1\<rparr>, \<lambda>_. Some 4) = ?s"
    by (simp add: list_append_def store_link_def list_init_def)
  moreover have "list_clear ?s = (Some 7, \<lparr>tl_first = Some 7, tl_last = FirstOf\<rparr>, (snd ?s)(5 := None))"
    by (simp add: list_clear_def store_link_def list_init_def)
  ultimately show ?thesis
    using timer_list_fifo [of "[7, 2, 5]", OF _ refl, of "\<lparr>tl_first = Some 9, tl_last = NextOf 1\<rparr>"]
    by (simp add: numeral_3_eq_3)
qed

end
