(* ===== verification/Mailbox.thy ===== *)
theory Mailbox
  imports Append_List
begin

text \<open>
  The mailbox of a process (\<^verbatim>\<open>class Mailbox\<close> of \<^verbatim>\<open>src/process.cpp\<close>): one reader, many
  writers. The reader drains a private chain and, when that is empty, detaches the chain
  the writers append to; finding that empty too it sets the flag \<^verbatim>\<open>_wait\<close>. The writer whose
  compare-exchange takes the flag down schedules the process.

  The first part is the class as sequential operations. The second is the protocol: the
  steps of any number of writers (appending and notifying are two steps), of the scheduler
  and of the reader, in any interleaving (the accesses are taken to be sequentially
  consistent). Its invariant is that the process is scheduled or run by at most one worker,
  and that no message is stranded.
\<close>

section \<open>The class\<close>

record ('l, 'm) mailbox =
  mb_wait :: bool
  mb_read :: "'m list"
  mb_write :: 'l

definition mailbox_new :: "('l, 'm) append_ops \<Rightarrow> ('l, 'm) mailbox" where
  "mailbox_new A = \<lparr>mb_wait = False, mb_read = [], mb_write = al_empty A\<rparr>"

text \<open>\<^verbatim>\<open>push\<close>: the append under the lock, then the compare-exchange.\<close>

definition push_append :: "('l, 'm) append_ops \<Rightarrow> 'm \<Rightarrow> ('l, 'm) mailbox \<Rightarrow> ('l, 'm) mailbox" where
  "push_append A msg mb = mb\<lparr>mb_write := al_push A msg (mb_write mb)\<rparr>"

definition push_notify :: "('l, 'm) mailbox \<Rightarrow> bool \<times> ('l, 'm) mailbox" where
  "push_notify mb = (if mb_wait mb then (True, mb\<lparr>mb_wait := False\<rparr>) else (False, mb))"

definition mailbox_push :: "('l, 'm) append_ops \<Rightarrow> 'm \<Rightarrow> ('l, 'm) mailbox \<Rightarrow> bool \<times> ('l, 'm) mailbox" where
  "mailbox_push A msg mb = push_notify (push_append A msg mb)"

definition mailbox_take :: "('l, 'm) append_ops \<Rightarrow> ('l, 'm) mailbox \<Rightarrow> 'm option \<times> ('l, 'm) mailbox" where
  "mailbox_take A mb =
     (case mb_read mb of
        [] \<Rightarrow> (case al_clear A (mb_write mb) of
                 ([], w) \<Rightarrow> (None, mb\<lparr>mb_write := w, mb_wait := True\<rparr>)
               | (msg # next, w) \<Rightarrow> (Some msg, mb\<lparr>mb_read := next, mb_write := w\<rparr>))
      | msg # next \<Rightarrow> (Some msg, mb\<lparr>mb_read := next\<rparr>))"

section \<open>The protocol\<close>

text \<open>
  \<open>sys_inflight\<close> counts the writers between their two steps, \<open>sys_tokens\<close> the entries of the
  process in the scheduler's queues, \<open>sys_active\<close> the workers inside \<^verbatim>\<open>Process::resume\<close>
  before its decision; \<open>sys_down\<close> is set when that decision is \<^verbatim>\<open>kDown\<close>. \<open>sys_pushed\<close> and
  \<open>sys_taken\<close> record the messages in the order of their appends and takes.
\<close>

record ('l, 'm) mbox_sys =
  sys_box :: "('l, 'm) mailbox"
  sys_inflight :: nat
  sys_tokens :: nat
  sys_active :: nat
  sys_down :: bool
  sys_pushed :: "'m list"
  sys_taken :: "'m list"

text \<open>\<^verbatim>\<open>process::spawn\<close>: a new mailbox, and the process in the queue of the scheduler.\<close>

definition mbox_start :: "('l, 'm) append_ops \<Rightarrow> ('l, 'm) mbox_sys" where
  "mbox_start A =
     \<lparr>sys_box = mailbox_new A, sys_inflight = 0, sys_tokens = 1, sys_active = 0,
      sys_down = False, sys_pushed = [], sys_taken = []\<rparr>"

inductive mbox_step :: "('l, 'm) append_ops \<Rightarrow> ('m \<Rightarrow> 'm list \<Rightarrow> bool) \<Rightarrow>
    ('l, 'm) mbox_sys \<Rightarrow> ('l, 'm) mbox_sys \<Rightarrow> bool"
  for A :: "('l, 'm) append_ops" and fresh :: "'m \<Rightarrow> 'm list \<Rightarrow> bool" where
  append: "fresh msg (sys_pushed s) \<Longrightarrow>
    mbox_step A fresh s (s\<lparr>sys_box := push_append A msg (sys_box s),
      sys_inflight := Suc (sys_inflight s), sys_pushed := sys_pushed s @ [msg]\<rparr>)"
| notify: "0 < sys_inflight s \<Longrightarrow> push_notify (sys_box s) = (wake, mb) \<Longrightarrow>
    mbox_step A fresh s (s\<lparr>sys_box := mb, sys_inflight := sys_inflight s - 1,
      sys_tokens := (if wake then Suc (sys_tokens s) else sys_tokens s)\<rparr>)"
| dequeue: "0 < sys_tokens s \<Longrightarrow>
    mbox_step A fresh s (s\<lparr>sys_tokens := sys_tokens s - 1, sys_active := Suc (sys_active s)\<rparr>)"
| take_message: "0 < sys_active s \<Longrightarrow> mailbox_take A (sys_box s) = (Some msg, mb) \<Longrightarrow>
    mbox_step A fresh s (s\<lparr>sys_box := mb, sys_active := sys_active s - 1,
      sys_tokens := Suc (sys_tokens s), sys_taken := sys_taken s @ [msg]\<rparr>)"
| take_kill: "0 < sys_active s \<Longrightarrow> mailbox_take A (sys_box s) = (Some msg, mb) \<Longrightarrow>
    mbox_step A fresh s (s\<lparr>sys_box := mb, sys_active := sys_active s - 1,
      sys_down := True, sys_taken := sys_taken s @ [msg]\<rparr>)"
| take_nothing: "0 < sys_active s \<Longrightarrow> mailbox_take A (sys_box s) = (None, mb) \<Longrightarrow>
    mbox_step A fresh s (s\<lparr>sys_box := mb, sys_active := sys_active s - 1\<rparr>)"
| stop: "0 < sys_active s \<Longrightarrow>
    mbox_step A fresh s (s\<lparr>sys_active := sys_active s - 1, sys_down := True\<rparr>)"

inductive_cases mbox_stepE: "mbox_step A fresh s t"

text \<open>
  The process has one token: it is queued, or run, or its \<^verbatim>\<open>_wait\<close> flag is up, or it is down.
  While the flag is up, a message in the mailbox has a writer about to notify.
\<close>

definition mbox_inv :: "('l \<Rightarrow> 'm list \<Rightarrow> bool) \<Rightarrow> ('l, 'm) mbox_sys \<Rightarrow> bool" where
  "mbox_inv rep s \<longleftrightarrow>
     sys_tokens s + sys_active s + of_bool (mb_wait (sys_box s)) + of_bool (sys_down s) = 1 \<and>
     (\<exists>ws. rep (mb_write (sys_box s)) ws \<and> sys_pushed s = sys_taken s @ mb_read (sys_box s) @ ws \<and>
       (mb_wait (sys_box s) \<longrightarrow> mb_read (sys_box s) = [] \<and> (ws = [] \<or> 0 < sys_inflight s)))"

context append_list
begin

lemma take_some:
  assumes "rep (mb_write mb) ws" "mailbox_take A mb = (Some m, mb')"
  shows "mb_wait mb' = mb_wait mb \<and>
    (\<exists>ws'. rep (mb_write mb') ws' \<and> mb_read mb @ ws = m # mb_read mb' @ ws')"
proof -
  obtain l' where "al_clear A (mb_write mb) = (ws, l')" "rep l' []"
    using assms(1) by (rule clearE)
  with assms show ?thesis
    by (auto simp: mailbox_take_def split: list.splits)
qed

lemma take_none:
  assumes "rep (mb_write mb) ws" "mailbox_take A mb = (None, mb')"
  shows "ws = [] \<and> mb_read mb = [] \<and> mb_read mb' = [] \<and> mb_wait mb' \<and> rep (mb_write mb') []"
proof -
  obtain l' where "al_clear A (mb_write mb) = (ws, l')" "rep l' []"
    using assms(1) by (rule clearE)
  with assms show ?thesis
    by (auto simp: mailbox_take_def split: list.splits)
qed

lemma mbox_inv_start: "mbox_inv rep (mbox_start A)"
  using rep_empty by (auto simp: mbox_inv_def mbox_start_def mailbox_new_def)

lemma mbox_inv_step:
  assumes step: "mbox_step A fresh s t" and inv: "mbox_inv rep s"
  shows "mbox_inv rep t"
proof -
  let ?b = "sys_box s"
  obtain ws where ws: "rep (mb_write ?b) ws" "sys_pushed s = sys_taken s @ mb_read ?b @ ws"
      "mb_wait ?b \<longrightarrow> mb_read ?b = [] \<and> (ws = [] \<or> 0 < sys_inflight s)"
    and one: "sys_tokens s + sys_active s + of_bool (mb_wait ?b) + of_bool (sys_down s) = 1"
    using inv by (auto simp: mbox_inv_def)
  from step show ?thesis
  proof cases
    case (append msg)
    have "rep (al_push A msg (mb_write ?b)) (ws @ [msg])"
      using append ws by (intro rep_push) (auto intro: fresh_suffix [of _ "sys_taken s @ mb_read ?b"])
    with append ws one show ?thesis
      by (auto simp: mbox_inv_def push_append_def intro!: exI [of _ "ws @ [msg]"])
  next
    case (notify wake mb)
    with ws one show ?thesis
      by (auto simp: mbox_inv_def push_notify_def split: if_splits intro!: exI [of _ ws])
  next
    case dequeue
    with ws one show ?thesis by (auto simp: mbox_inv_def)
  next
    case (take_message msg mb)
    with take_some [OF ws(1) take_message(3)] ws one show ?thesis
      by (auto simp: mbox_inv_def)
  next
    case (take_kill msg mb)
    with take_some [OF ws(1) take_kill(3)] ws one show ?thesis
      by (auto simp: mbox_inv_def)
  next
    case (take_nothing mb)
    with take_none [OF ws(1) take_nothing(3)] ws one show ?thesis
      by (auto simp: mbox_inv_def)
  next
    case stop
    with ws one show ?thesis by (auto simp: mbox_inv_def)
  qed
qed

end

sublocale append_list \<subseteq> mbox: invariant_contract "\<lambda>s. s = mbox_start A" "mbox_step A fresh" "mbox_inv rep"
  by unfold_locales (auto intro: mbox_inv_start mbox_inv_step)

context append_list
begin

lemma mbox_reach: "reach (\<lambda>s. s = mbox_start A) (mbox_step A fresh) s \<Longrightarrow> mbox_inv rep s"
  by (rule mbox.inv_reach)

end

section \<open>What the protocol guarantees\<close>

text \<open>A run over the pointer-level list, for the witnesses: one message appended and notified.\<close>

abbreviation ten_ops :: "(timer_list \<times> node_heap, nat) append_ops" where
  "ten_ops \<equiv> timer_list_ops 10"

abbreviation ten_fresh :: "nat \<Rightarrow> nat list \<Rightarrow> bool" where
  "ten_fresh \<equiv> \<lambda>n ns. n \<notin> set ns \<and> n < 10"

lemmas ten_list = intrusive.append_list_axioms [of 10]

lemma mbox_run:
  "\<exists>s. reach (\<lambda>s. s = mbox_start ten_ops) (mbox_step ten_ops ten_fresh) s \<and>
    sys_pushed s = [3] \<and> sys_taken s = [] \<and> sys_inflight s = 0 \<and> \<not> sys_down s"
proof -
  let ?s = "mbox_start ten_ops"
  let ?s1 = "?s\<lparr>sys_box := push_append ten_ops 3 (sys_box ?s),
      sys_inflight := Suc (sys_inflight ?s), sys_pushed := sys_pushed ?s @ [3]\<rparr>"
  let ?s2 = "?s1\<lparr>sys_box := sys_box ?s1, sys_inflight := sys_inflight ?s1 - 1,
      sys_tokens := (if False then Suc (sys_tokens ?s1) else sys_tokens ?s1)\<rparr>"
  have "reach (\<lambda>s. s = ?s) (mbox_step ten_ops ten_fresh) ?s" by (rule reach_init) simp
  moreover have "mbox_step ten_ops ten_fresh ?s ?s1"
    by (rule mbox_step.append) (simp add: mbox_start_def)
  moreover have "mbox_step ten_ops ten_fresh ?s1 ?s2"
    by (rule mbox_step.notify) (simp_all add: mbox_start_def push_notify_def push_append_def mailbox_new_def)
  ultimately have "reach (\<lambda>s. s = ?s) (mbox_step ten_ops ten_fresh) ?s2"
    by (meson reach_step)
  then show ?thesis
    by (intro exI [of _ ?s2]) (simp add: mbox_start_def)
qed

text \<open>C18
  However writers, scheduler and reader interleave, a process is at any time queued at most
  once and inside \<^verbatim>\<open>Process::resume\<close> on at most one worker, never both; once it is down it
  is never scheduled again.\<close>

theorem mailbox_single_runner:
  assumes "append_list A fresh rep"
    and "reach (\<lambda>s. s = mbox_start A) (mbox_step A fresh) s"
  shows "sys_tokens s + sys_active s \<le> 1 \<and> (sys_down s \<longrightarrow> sys_tokens s + sys_active s = 0)"
  using append_list.mbox_reach [OF assms] by (auto simp: mbox_inv_def)

theorem mailbox_single_runner_witness:
  "\<exists>s. reach (\<lambda>s. s = mbox_start ten_ops) (mbox_step ten_ops ten_fresh) s \<and>
    sys_pushed s = [3] \<and> sys_tokens s + sys_active s \<le> 1"
  using mbox_run mailbox_single_runner [OF ten_list] by blast

text \<open>C17
  No wake-up is lost: when no writer is between its append and its notification and some
  message has not been taken yet, a process that is not down is queued or running.\<close>

theorem mailbox_no_lost_wakeup:
  assumes "append_list A fresh rep"
    and "reach (\<lambda>s. s = mbox_start A) (mbox_step A fresh) s"
    and "sys_inflight s = 0" "\<not> sys_down s" "sys_taken s \<noteq> sys_pushed s"
  shows "sys_tokens s + sys_active s = 1"
  using append_list.mbox_reach [OF assms(1,2)] assms(3-5) by (auto simp: mbox_inv_def)

theorem mailbox_no_lost_wakeup_witness:
  "\<exists>s. reach (\<lambda>s. s = mbox_start ten_ops) (mbox_step ten_ops ten_fresh) s \<and>
    sys_taken s \<noteq> sys_pushed s \<and> sys_tokens s + sys_active s = 1"
proof -
  obtain s where s: "reach (\<lambda>s. s = mbox_start ten_ops) (mbox_step ten_ops ten_fresh) s"
      "sys_pushed s = [3]" "sys_taken s = []" "sys_inflight s = 0" "\<not> sys_down s"
    using mbox_run by blast
  then have "sys_tokens s + sys_active s = 1"
    by (intro mailbox_no_lost_wakeup [OF ten_list s(1)]) simp_all
  with s show ?thesis by (intro exI [of _ s]) simp
qed

text \<open>Messages are taken in the order in which they were appended, each once: the messages taken
  so far are a prefix of those pushed, and the rest is what the two chains hold.\<close>

theorem mailbox_fifo:
  assumes "append_list A fresh rep"
    and "reach (\<lambda>s. s = mbox_start A) (mbox_step A fresh) s"
  shows "\<exists>ws. rep (mb_write (sys_box s)) ws \<and>
    sys_pushed s = sys_taken s @ mb_read (sys_box s) @ ws"
  using append_list.mbox_reach [OF assms] by (auto simp: mbox_inv_def)

theorem mailbox_fifo_witness:
  "\<exists>s ws. reach (\<lambda>s. s = mbox_start ten_ops) (mbox_step ten_ops ten_fresh) s \<and>
    sys_pushed s = [3] \<and> bounded_rep 10 (mb_write (sys_box s)) ws \<and>
    sys_pushed s = sys_taken s @ mb_read (sys_box s) @ ws"
  using mbox_run mailbox_fifo [OF ten_list] by blast

end
