(* ===== verification/Coroutine.thy ===== *)
theory Coroutine
  imports Mailbox
begin

text \<open>
  Messages and coroutines of \<^verbatim>\<open>src/process.cpp\<close>: what a message carries, the exceptions the
  runtime throws and stores, the slot \<^verbatim>\<open>Result\<close> through which a coroutine is handed a value or
  an exception, and the end of a coroutine's function.

  \<^verbatim>\<open>wild::SharedAny\<close> is a type-erased value; the datatype \<open>any\<close> has one constructor for each
  type the runtime itself stores in one and one, with a type number, for the application's
  types. A moved-from \<^verbatim>\<open>SharedAny\<close> is taken to be empty.
\<close>

section \<open>Exceptions and contents\<close>

datatype exn =
    CoroutineExit            \<comment> \<open>\<^verbatim>\<open>coroutine::ExitException\<close>\<close>
  | ProcessExit              \<comment> \<open>\<^verbatim>\<open>process::ExitException\<close>\<close>
  | AbortedRequest
  | ProcessNotExist
  | RuntimeError string
  | AppException nat

datatype 'v any =
    EmptyAny
  | KillProcess
  | ExceptionPtr exn
  | AppValue nat 'v

datatype type_index = TypeVoid | TypeKill | TypeException | TypeApp nat

fun any_type :: "'v any \<Rightarrow> type_index" where
  "any_type EmptyAny = TypeVoid"
| "any_type KillProcess = TypeKill"
| "any_type (ExceptionPtr e) = TypeException"
| "any_type (AppValue n v) = TypeApp n"

text \<open>\<^verbatim>\<open>SharedAny::Cast<std::exception_ptr*>\<close>.\<close>

fun cast_exception :: "'v any \<Rightarrow> exn option" where
  "cast_exception (ExceptionPtr e) = Some e"
| "cast_exception _ = None"

record 'v message =
  msg_source :: process_t
  msg_session :: session_t
  msg_content :: "'v any"

definition message_create :: "process_t \<Rightarrow> session_t \<Rightarrow> 'v any \<Rightarrow> 'v message" where
  "message_create source session content =
     \<lparr>msg_source = source, msg_session = session, msg_content = content\<rparr>"

definition typeOfMessage :: "'v message \<Rightarrow> MessageType" where
  "typeOfMessage msg = typeOfSession (msg_session msg)"

section \<open>Result and Coroutine\<close>

record 'v coroutine =
  co_value :: "'v any"
  co_exception :: "exn option"
  co_message_sender :: process_t
  co_message_session :: session_t

definition coroutine_new :: "'v coroutine" where
  "coroutine_new = \<lparr>co_value = EmptyAny, co_exception = None,
     co_message_sender = process_t 0, co_message_session = session_t 0\<rparr>"

definition set_result :: "'v any \<Rightarrow> 'v coroutine \<Rightarrow> 'v coroutine" where
  "set_result value co = co\<lparr>co_value := value\<rparr>"

definition set_exception :: "exn \<Rightarrow> 'v coroutine \<Rightarrow> 'v coroutine" where
  "set_exception e co = co\<lparr>co_exception := Some e\<rparr>"

text \<open>
  \<^verbatim>\<open>Result::get_value\<close>: rethrows the stored exception, which stays stored; otherwise moves the
  value out.
\<close>

definition get_result :: "'v coroutine \<Rightarrow> (exn + 'v any) \<times> 'v coroutine" where
  "get_result co =
     (case co_exception co of
        Some e \<Rightarrow> (Inl e, co)
      | None \<Rightarrow> (Inr (co_value co), co\<lparr>co_value := EmptyAny\<rparr>))"

definition set_message_info :: "process_t \<Rightarrow> session_t \<Rightarrow> 'v coroutine \<Rightarrow> 'v coroutine" where
  "set_message_info sender session co =
     co\<lparr>co_message_sender := sender, co_message_session := session\<rparr>"

text \<open>
  \<^verbatim>\<open>Coroutine::run\<close> after its function: a normal return (\<open>None\<close>) is stored as the coroutine's
  exit, anything thrown as itself.
\<close>

definition run_finish :: "exn option \<Rightarrow> 'v coroutine \<Rightarrow> 'v coroutine" where
  "run_finish thrown co =
     (case thrown of None \<Rightarrow> set_exception CoroutineExit co | Some e \<Rightarrow> set_exception e co)"

lemma run_finish_exception [proc_simps]:
  "co_exception (run_finish thrown co) = Some (case thrown of None \<Rightarrow> CoroutineExit | Some e \<Rightarrow> e)"
  by (simp add: run_finish_def set_exception_def split: option.splits)

end
