(* ===== verification/Process.thy ===== *)
theory Process
  imports Coroutine "HOL-Library.AList"
begin

text \<open>
  \<^verbatim>\<open>class Process\<close> of \<^verbatim>\<open>src/process.cpp\<close>: the deques and tables that hold the coroutines of a
  process, the loop that resumes them, the exit of a process, and the dispatch of a message.

  Coroutines are addresses into the heap \<open>p_cos\<close>; using or destroying one that is not there is
  the outcome \<open>UseAfterFree\<close>. The unordered containers are lists: every statement holds for
  all orders of their elements. What a coroutine does between a resume and the next switch
  back is application code: the parameter \<open>seg\<close>, from a coroutine and the state at the switch
  to the state at the switch back (\<open>None\<close> when it never switches back).
\<close>

section \<open>State\<close>

type_synonym co = nat

datatype HandlerMode = kCallback | kCoroutine

record 'h HandlerInfo =
  hi_mode :: HandlerMode
  hi_func :: 'h
  hi_addstack :: nat

text \<open>\<^verbatim>\<open>wild::IdAllocator<uint32>\<close> is outside the repository.\<close>

record 'i alloc_ops =
  ia_new :: "'i \<Rightarrow> uint32 \<times> 'i"
  ia_erase :: "uint32 \<Rightarrow> 'i \<Rightarrow> 'i"

record ('v, 'l, 'i, 'h) process =
  p_pid :: process_t
  p_mailbox :: "('l, 'v message) mailbox"
  p_inbox :: "'v message list"
  p_sessions :: 'i
  p_inbox_coroutine :: "co option"
  p_spawn :: "co list"
  p_wakeup :: "co list"
  p_zombie :: "co list"
  p_suspend :: "co list"
  p_block :: "(session_t \<times> co) list"
  p_env :: "(nat \<times> 'v any) list"
  p_handlers :: "(type_index \<times> 'h HandlerInfo) list"
  p_requests :: "(process_t \<times> session_t) list"
  p_cos :: "co \<Rightarrow> 'v coroutine option"

datatype 'a outcome = Normal 'a | ExitThrown 'a | UseAfterFree

datatype ResumeResult = kResume | kDown | kBreak

section \<open>Operations on the tables\<close>

text \<open>\<^verbatim>\<open>suspend\<close> and \<^verbatim>\<open>block\<close> up to the switch away from the running coroutine.\<close>

definition proc_suspend :: "co \<Rightarrow> ('v, 'l, 'i, 'h) process \<Rightarrow> ('v, 'l, 'i, 'h) process" where
  "proc_suspend running p = p\<lparr>p_suspend := List.insert running (p_suspend p)\<rparr>"

definition proc_block :: "session_t \<Rightarrow> co \<Rightarrow> ('v, 'l, 'i, 'h) process \<Rightarrow> ('v, 'l, 'i, 'h) process" where
  "proc_block session running p = p\<lparr>p_block := AList.update session running (p_block p)\<rparr>"

definition proc_unblock :: "session_t \<Rightarrow> ('v, 'l, 'i, 'h) process \<Rightarrow> co option \<times> ('v, 'l, 'i, 'h) process" where
  "proc_unblock session p =
     (case map_of (p_block p) session of
        None \<Rightarrow> (None, p)
      | Some co \<Rightarrow> (Some co, p\<lparr>p_block := AList.delete session (p_block p)\<rparr>))"

definition proc_wakeup :: "co \<Rightarrow> ('v, 'l, 'i, 'h) process \<Rightarrow> ('v, 'l, 'i, 'h) process" where
  "proc_wakeup co p =
     (if co \<in> set (p_suspend p)
      then p\<lparr>p_suspend := removeAll co (p_suspend p), p_wakeup := p_wakeup p @ [co]\<rparr>
      else p)"

text \<open>\<^verbatim>\<open>spawn\<close>: \<open>co\<close> is the address of the new coroutine.\<close>

definition proc_spawn :: "co \<Rightarrow> ('v, 'l, 'i, 'h) process \<Rightarrow> ('v, 'l, 'i, 'h) process" where
  "proc_spawn co p = p\<lparr>p_cos := (p_cos p)(co := Some coroutine_new), p_spawn := p_spawn p @ [co]\<rparr>"

text \<open>
  The constructor and \<^verbatim>\<open>Process::create\<close>: empty tables, then the coroutine of the process's
  own function. The identifier comes from the registry.
\<close>

definition proc_new :: "process_t \<Rightarrow> ('l, 'v message) mailbox \<Rightarrow> 'i \<Rightarrow> ('v, 'l, 'i, 'h) process" where
  "proc_new pid mb ids =
     \<lparr>p_pid = pid, p_mailbox = mb, p_inbox = [], p_sessions = ids, p_inbox_coroutine = None,
      p_spawn = [], p_wakeup = [], p_zombie = [], p_suspend = [], p_block = [], p_env = [],
      p_handlers = [], p_requests = [], p_cos = (\<lambda>_. None)\<rparr>"

definition proc_create :: "co \<Rightarrow> process_t \<Rightarrow> ('l, 'v message) mailbox \<Rightarrow> 'i \<Rightarrow> ('v, 'l, 'i, 'h) process" where
  "proc_create co pid mb ids = proc_spawn co (proc_new pid mb ids)"

fun destroy_all :: "co list \<Rightarrow> ('v, 'l, 'i, 'h) process \<Rightarrow> ('v, 'l, 'i, 'h) process outcome" where
  "destroy_all [] p = Normal p"
| "destroy_all (co # cos) p =
     (if p_cos p co = None then UseAfterFree
      else destroy_all cos (p\<lparr>p_cos := (p_cos p)(co := None)\<rparr>))"

definition sweep_zombies :: "('v, 'l, 'i, 'h) process \<Rightarrow> ('v, 'l, 'i, 'h) process outcome" where
  "sweep_zombies p =
     (case destroy_all (p_zombie p) p of
        Normal p' \<Rightarrow> Normal (p'\<lparr>p_zombie := []\<rparr>)
      | r \<Rightarrow> r)"

text \<open>\<^verbatim>\<open>abandon(_spawn_coroutines)\<close>.\<close>

definition abandon_spawn :: "('v, 'l, 'i, 'h) process \<Rightarrow> ('v, 'l, 'i, 'h) process" where
  "abandon_spawn p = p\<lparr>p_zombie := p_zombie p @ p_spawn p, p_spawn := []\<rparr>"

text \<open>The loop shared by the two \<^verbatim>\<open>interrupt\<close> functions: store the exception, queue the coroutine.\<close>

fun interrupt_all :: "exn \<Rightarrow> co list \<Rightarrow> ('v, 'l, 'i, 'h) process \<Rightarrow> ('v, 'l, 'i, 'h) process outcome" where
  "interrupt_all e [] p = Normal p"
| "interrupt_all e (co # cos) p =
     (case p_cos p co of
        None \<Rightarrow> UseAfterFree
      | Some c \<Rightarrow> interrupt_all e cos
          (p\<lparr>p_cos := (p_cos p)(co := Some (set_exception e c)), p_wakeup := p_wakeup p @ [co]\<rparr>))"

definition interrupt_block_coroutines :: "exn \<Rightarrow> ('v, 'l, 'i, 'h) process \<Rightarrow> ('v, 'l, 'i, 'h) process outcome" where
  "interrupt_block_coroutines e p =
     (case interrupt_all e (map snd (p_block p)) p of
        Normal p' \<Rightarrow> Normal (p'\<lparr>p_block := []\<rparr>)
      | r \<Rightarrow> r)"

definition interrupt_suspend_coroutines :: "exn \<Rightarrow> ('v, 'l, 'i, 'h) process \<Rightarrow> ('v, 'l, 'i, 'h) process outcome" where
  "interrupt_suspend_coroutines e p =
     (case interrupt_all e (p_suspend p) p of
        Normal p' \<Rightarrow> Normal (p'\<lparr>p_suspend := []\<rparr>)
      | r \<Rightarrow> r)"

section \<open>Resuming coroutines\<close>

text \<open>
  \<^verbatim>\<open>Process::resume(co, exiting)\<close>: switch to the coroutine; after the switch back, read its
  result. An exception there means it has finished.
\<close>

definition resume_co ::
  "(co \<Rightarrow> ('v, 'l, 'i, 'h) process \<Rightarrow> ('v, 'l, 'i, 'h) process option) \<Rightarrow> bool \<Rightarrow> co \<Rightarrow>
    ('v, 'l, 'i, 'h) process \<Rightarrow> ('v, 'l, 'i, 'h) process outcome option" where
  "resume_co seg exiting co p =
     (if p_cos p co = None then Some UseAfterFree
      else case seg co p of
        None \<Rightarrow> None
      | Some q \<Rightarrow>
          (case p_cos q co of
             None \<Rightarrow> Some UseAfterFree
           | Some c \<Rightarrow>
               (let (r, c') = get_result c;
                    q' = q\<lparr>p_cos := (p_cos q)(co := Some c')\<rparr>;
                    dead = q'\<lparr>p_zombie := p_zombie q' @ [co]\<rparr>
                in case r of
                     Inr _ \<Rightarrow> Some (Normal q')
                   | Inl CoroutineExit \<Rightarrow> Some (Normal dead)
                   | Inl ProcessExit \<Rightarrow> Some (if exiting then Normal dead else ExitThrown dead)
                   | Inl _ \<Rightarrow> Some (Normal dead))))"

text \<open>The two inner loops of \<^verbatim>\<open>run\<close>, and the \<^verbatim>\<open>do ... while\<close> of \<^verbatim>\<open>exit\<close> (with \<open>exiting\<close>).\<close>

partial_function (option) drain_spawn ::
  "(co \<Rightarrow> ('v, 'l, 'i, 'h) process \<Rightarrow> ('v, 'l, 'i, 'h) process option) \<Rightarrow>
    ('v, 'l, 'i, 'h) process \<Rightarrow> ('v, 'l, 'i, 'h) process outcome option" where
  "drain_spawn seg p =
     (case p_spawn p of
        [] \<Rightarrow> Some (Normal p)
      | co # cos \<Rightarrow>
          (case resume_co seg False co (p\<lparr>p_spawn := cos\<rparr>) of
             None \<Rightarrow> None
           | Some r \<Rightarrow>
               (case r of
                  Normal q \<Rightarrow> drain_spawn seg q
                | ExitThrown q \<Rightarrow> Some (ExitThrown q)
                | UseAfterFree \<Rightarrow> Some UseAfterFree)))"

partial_function (option) drain_wakeup ::
  "(co \<Rightarrow> ('v, 'l, 'i, 'h) process \<Rightarrow> ('v, 'l, 'i, 'h) process option) \<Rightarrow> bool \<Rightarrow>
    ('v, 'l, 'i, 'h) process \<Rightarrow> ('v, 'l, 'i, 'h) process outcome option" where
  "drain_wakeup seg exiting p =
     (case p_wakeup p of
        [] \<Rightarrow> Some (Normal p)
      | co # cos \<Rightarrow>
          (case resume_co seg exiting co (p\<lparr>p_wakeup := cos\<rparr>) of
             None \<Rightarrow> None
           | Some r \<Rightarrow>
               (case r of
                  Normal q \<Rightarrow> drain_wakeup seg exiting q
                | ExitThrown q \<Rightarrow> Some (ExitThrown q)
                | UseAfterFree \<Rightarrow> Some UseAfterFree)))"

text \<open>\<^verbatim>\<open>run\<close>: its loop, and the sweep after it.\<close>

definition run_ready :: "('v, 'l, 'i, 'h) process \<Rightarrow> bool" where
  "run_ready p \<longleftrightarrow> p_spawn p \<noteq> [] \<or> p_wakeup p \<noteq> [] \<or> (p_inbox p \<noteq> [] \<and> p_inbox_coroutine p \<noteq> None)"

definition wake_inbox :: "('v, 'l, 'i, 'h) process \<Rightarrow> ('v, 'l, 'i, 'h) process" where
  "wake_inbox p =
     (case p_inbox_coroutine p of
        Some co \<Rightarrow> if p_inbox p \<noteq> [] then (proc_wakeup co p)\<lparr>p_inbox_coroutine := None\<rparr> else p
      | None \<Rightarrow> p)"

partial_function (option) run_loop ::
  "(co \<Rightarrow> ('v, 'l, 'i, 'h) process \<Rightarrow> ('v, 'l, 'i, 'h) process option) \<Rightarrow>
    ('v, 'l, 'i, 'h) process \<Rightarrow> ('v, 'l, 'i, 'h) process outcome option" where
  "run_loop seg p =
     (if \<not> run_ready p then Some (Normal p)
      else case drain_spawn seg p of
        None \<Rightarrow> None
      | Some r1 \<Rightarrow>
          (case r1 of
             Normal p1 \<Rightarrow>
               (case drain_wakeup seg False p1 of
                  None \<Rightarrow> None
                | Some r2 \<Rightarrow>
                    (case r2 of
                       Normal p2 \<Rightarrow> run_loop seg (wake_inbox p2)
                     | ExitThrown p2 \<Rightarrow> Some (ExitThrown p2)
                     | UseAfterFree \<Rightarrow> Some UseAfterFree))
           | ExitThrown p1 \<Rightarrow> Some (ExitThrown p1)
           | UseAfterFree \<Rightarrow> Some UseAfterFree))"

definition proc_run ::
  "(co \<Rightarrow> ('v, 'l, 'i, 'h) process \<Rightarrow> ('v, 'l, 'i, 'h) process option) \<Rightarrow>
    ('v, 'l, 'i, 'h) process \<Rightarrow> ('v, 'l, 'i, 'h) process outcome option" where
  "proc_run seg p =
     (case run_loop seg p of
        None \<Rightarrow> None
      | Some (Normal q) \<Rightarrow> Some (sweep_zombies q)
      | Some r \<Rightarrow> Some r)"

text \<open>\<^verbatim>\<open>exit\<close>: interrupt everything that waits, resume it, and again until nothing waits.\<close>

definition interrupt_waiting :: "('v, 'l, 'i, 'h) process \<Rightarrow> ('v, 'l, 'i, 'h) process outcome" where
  "interrupt_waiting p =
     (case interrupt_block_coroutines CoroutineExit p of
        Normal p1 \<Rightarrow> interrupt_suspend_coroutines CoroutineExit p1
      | r \<Rightarrow> r)"

partial_function (option) exit_loop ::
  "(co \<Rightarrow> ('v, 'l, 'i, 'h) process \<Rightarrow> ('v, 'l, 'i, 'h) process option) \<Rightarrow>
    ('v, 'l, 'i, 'h) process \<Rightarrow> ('v, 'l, 'i, 'h) process outcome option" where
  "exit_loop seg p =
     (case interrupt_waiting p of
        Normal p1 \<Rightarrow>
          (if p_wakeup p1 = [] then Some (Normal p1)
           else case drain_wakeup seg True p1 of
             None \<Rightarrow> None
           | Some r \<Rightarrow>
               (case r of
                  Normal p2 \<Rightarrow> exit_loop seg p2
                | ExitThrown p2 \<Rightarrow> Some (ExitThrown p2)
                | UseAfterFree \<Rightarrow> Some UseAfterFree))
      | ExitThrown p1 \<Rightarrow> Some (ExitThrown p1)
      | UseAfterFree \<Rightarrow> Some UseAfterFree)"

definition proc_exit ::
  "(co \<Rightarrow> ('v, 'l, 'i, 'h) process \<Rightarrow> ('v, 'l, 'i, 'h) process option) \<Rightarrow>
    ('v, 'l, 'i, 'h) process \<Rightarrow> ('v, 'l, 'i, 'h) process outcome option" where
  "proc_exit seg p =
     (case exit_loop seg p of
        None \<Rightarrow> None
      | Some (Normal q) \<Rightarrow> Some (sweep_zombies (abandon_spawn q))
      | Some r \<Rightarrow> Some r)"

end
