(* ===== verification/Registry.thy ===== *)
theory Registry
  imports Process
begin

text \<open>
  Processes as shared objects (\<^verbatim>\<open>src/process.cpp\<close>): the table from identifiers to processes,
  the reference counts, and what a worker does with its reference after a turn.

  A process is an address in a heap; every operation on an address that is not allocated is
  \<open>None\<close> (a use after free). The second part is the system of all threads: who holds which
  reference, with the steps in any interleaving.
\<close>

section \<open>The table and the counts\<close>

type_synonym addr = nat

record pobj =
  o_pid :: process_t
  o_refcnt :: int
  o_wait :: bool

record registry =
  rg_seq :: uint32
  rg_map :: "uint32 \<Rightarrow> addr option"
  rg_heap :: "addr \<Rightarrow> pobj option"

definition registry_start :: registry where
  "registry_start = \<lparr>rg_seq = 0, rg_map = (\<lambda>_. None), rg_heap = (\<lambda>_. None)\<rparr>"

definition reg :: "addr \<Rightarrow> registry \<Rightarrow> process_t \<times> registry" where
  "reg p r = (let id = rg_seq r + 1
     in (process_t id, r\<lparr>rg_seq := id, rg_map := (rg_map r)(id := Some p)\<rparr>))"

definition unreg :: "process_t \<Rightarrow> registry \<Rightarrow> bool \<times> registry" where
  "unreg pid r = (rg_map r (pid_value pid) \<noteq> None, r\<lparr>rg_map := (rg_map r)(pid_value pid := None)\<rparr>)"

definition ref :: "addr \<Rightarrow> registry \<Rightarrow> registry option" where
  "ref p r = (case rg_heap r p of
      None \<Rightarrow> None
    | Some ob \<Rightarrow> Some (r\<lparr>rg_heap := (rg_heap r)(p := Some (ob\<lparr>o_refcnt := o_refcnt ob + 1\<rparr>))\<rparr>))"

text \<open>\<^verbatim>\<open>unref\<close>: the process is destroyed by whoever drops the last reference.\<close>

definition unref :: "addr \<Rightarrow> registry \<Rightarrow> registry option" where
  "unref p r = (case rg_heap r p of
      None \<Rightarrow> None
    | Some ob \<Rightarrow>
        (let refcnt = o_refcnt ob
         in Some (r\<lparr>rg_heap := (rg_heap r)(p :=
              (if refcnt = 1 then None else Some (ob\<lparr>o_refcnt := refcnt - 1\<rparr>)))\<rparr>)))"

definition find :: "process_t \<Rightarrow> registry \<Rightarrow> (addr option \<times> registry) option" where
  "find pid r = (case rg_map r (pid_value pid) of
      None \<Rightarrow> Some (None, r)
    | Some p \<Rightarrow> map_option (\<lambda>r'. (Some p, r')) (ref p r))"

definition retire :: "addr \<Rightarrow> registry \<Rightarrow> registry option" where
  "retire p r = (case rg_heap r p of
      None \<Rightarrow> None
    | Some ob \<Rightarrow> (case unreg (o_pid ob) r of (erased, r1) \<Rightarrow> if erased then unref p r1 else Some r1))"

text \<open>\<^verbatim>\<open>Process::create\<close> at a fresh address: one reference, which the table stands for.\<close>

definition create :: "addr \<Rightarrow> registry \<Rightarrow> process_t \<times> registry" where
  "create p r = (case reg p r of (pid, r1) \<Rightarrow>
     (pid, r1\<lparr>rg_heap := (rg_heap r1)(p := Some \<lparr>o_pid = pid, o_refcnt = 1, o_wait = False\<rparr>)\<rparr>))"

text \<open>\<^verbatim>\<open>process::resume\<close> after the turn, up to its last \<^verbatim>\<open>unref\<close>: the boolean says that the process is queued again.\<close>

definition resume_decide :: "ResumeResult \<Rightarrow> addr \<Rightarrow> registry \<Rightarrow> (bool \<times> registry) option" where
  "resume_decide res p r =
     (case res of
        kResume \<Rightarrow> map_option (Pair True) (ref p r)
      | kDown \<Rightarrow> map_option (Pair False) (retire p r)
      | kBreak \<Rightarrow> Some (False, r))"

section \<open>All threads\<close>

text \<open>
  References are held by the local pointers that \<^verbatim>\<open>find\<close> returned (\<open>rs_holders\<close>), by the queues
  of the scheduler (\<open>rs_queue\<close>), by the workers inside a turn (\<open>rs_active\<close>) and by the workers
  that have decided and are about to drop theirs (\<open>rs_exiting\<close>). \<open>rs_down\<close> and \<open>rs_retired\<close>
  record which turns ended with \<^verbatim>\<open>kDown\<close> and which of those found their table entry.
\<close>

record ref_sys =
  rs_reg :: registry
  rs_holders :: "addr multiset"
  rs_queue :: "addr multiset"
  rs_active :: "addr multiset"
  rs_exiting :: "addr multiset"
  rs_down :: "addr set"
  rs_retired :: "addr set"
  rs_spawned :: nat

definition ref_start :: ref_sys where
  "ref_start = \<lparr>rs_reg = registry_start, rs_holders = {#}, rs_queue = {#}, rs_active = {#},
     rs_exiting = {#}, rs_down = {}, rs_retired = {}, rs_spawned = 0\<rparr>"

datatype action =
    Spawn addr
  | Find process_t
  | Notify addr
  | Release addr
  | Dequeue addr
  | Decide ResumeResult addr
  | Drop addr

fun enabled :: "action \<Rightarrow> ref_sys \<Rightarrow> bool" where
  "enabled (Spawn p) s = (rg_heap (rs_reg s) p = None)"
| "enabled (Find pid) s = True"
| "enabled (Notify p) s = (p \<in># rs_holders s)"
| "enabled (Release p) s = (p \<in># rs_holders s)"
| "enabled (Dequeue p) s = (p \<in># rs_queue s)"
| "enabled (Decide res p) s = (p \<in># rs_active s)"
| "enabled (Drop p) s = (p \<in># rs_exiting s)"

text \<open>
  \<^verbatim>\<open>sched::resume\<close> takes a reference for the queue. The notification of a mailbox whose flag is
  up clears it and queues the process; a turn that ends with \<^verbatim>\<open>kBreak\<close> has put the flag up.
\<close>

definition set_wait :: "bool \<Rightarrow> addr \<Rightarrow> registry \<Rightarrow> registry" where
  "set_wait b p r = r\<lparr>rg_heap := (rg_heap r)(p := map_option (\<lambda>ob. ob\<lparr>o_wait := b\<rparr>) (rg_heap r p))\<rparr>"

definition notify_process :: "addr \<Rightarrow> registry \<Rightarrow> (bool \<times> registry) option" where
  "notify_process p r = (case rg_heap r p of
      None \<Rightarrow> None
    | Some ob \<Rightarrow> if o_wait ob then map_option (Pair True) (ref p (set_wait False p r)) else Some (False, r))"

fun perform :: "action \<Rightarrow> ref_sys \<Rightarrow> ref_sys option" where
  "perform (Spawn p) s =
     map_option (\<lambda>r. s\<lparr>rs_reg := r, rs_queue := add_mset p (rs_queue s), rs_spawned := Suc (rs_spawned s),
         rs_down := rs_down s - {p}, rs_retired := rs_retired s - {p}\<rparr>)
       (ref p (snd (create p (rs_reg s))))"
| "perform (Find pid) s =
     map_option (\<lambda>(found, r). s\<lparr>rs_reg := r,
         rs_holders := (case found of None \<Rightarrow> rs_holders s | Some p \<Rightarrow> add_mset p (rs_holders s))\<rparr>)
       (find pid (rs_reg s))"
| "perform (Notify p) s =
     map_option (\<lambda>(wake, r). s\<lparr>rs_reg := r,
         rs_queue := (if wake then add_mset p (rs_queue s) else rs_queue s)\<rparr>)
       (notify_process p (rs_reg s))"
| "perform (Release p) s =
     map_option (\<lambda>r. s\<lparr>rs_reg := r, rs_holders := rs_holders s - {#p#}\<rparr>) (unref p (rs_reg s))"
| "perform (Dequeue p) s =
     (if rg_heap (rs_reg s) p = None then None
      else Some (s\<lparr>rs_queue := rs_queue s - {#p#}, rs_active := add_mset p (rs_active s)\<rparr>))"
| "perform (Decide res p) s =
     (if rg_heap (rs_reg s) p = None then None
      else map_option (\<lambda>(again, r). s\<lparr>rs_reg := (if res = kBreak then set_wait True p r else r),
          rs_queue := (if again then add_mset p (rs_queue s) else rs_queue s),
          rs_active := rs_active s - {#p#}, rs_exiting := add_mset p (rs_exiting s),
          rs_down := (if res = kDown then insert p (rs_down s) else rs_down s),
          rs_retired := (if res = kDown \<and>
            rg_map (rs_reg s) (pid_value (o_pid (the (rg_heap (rs_reg s) p)))) \<noteq> None
            then insert p (rs_retired s) else rs_retired s)\<rparr>)
        (resume_decide res p (rs_reg s)))"
| "perform (Drop p) s =
     map_option (\<lambda>r. s\<lparr>rs_reg := r, rs_exiting := rs_exiting s - {#p#}\<rparr>) (unref p (rs_reg s))"

inductive ref_step :: "ref_sys \<Rightarrow> ref_sys \<Rightarrow> bool" where
  "enabled act s \<Longrightarrow> perform act s = Some t \<Longrightarrow> ref_step s t"

end
