(* ===== verification/Dispatch.thy ===== *)
theory Dispatch
  imports Process
begin

text \<open>
  The rest of \<^verbatim>\<open>class Process\<close> of \<^verbatim>\<open>src/process.cpp\<close>: one turn of a process (dispatch its
  coroutines, then one message), sessions and requests, the message loop \<^verbatim>\<open>serve\<close>, the
  environment, and the destructor.
\<close>

section \<open>A turn of a process\<close>

definition proc_dispatch ::
  "(co \<Rightarrow> ('v, 'l, 'i, 'h) process \<Rightarrow> ('v, 'l, 'i, 'h) process option) \<Rightarrow>
    ('v, 'l, 'i, 'h) process \<Rightarrow> (bool \<times> ('v, 'l, 'i, 'h) process) outcome option" where
  "proc_dispatch seg p =
     (case proc_run seg p of
        None \<Rightarrow> None
      | Some UseAfterFree \<Rightarrow> Some UseAfterFree
      | Some (ExitThrown q) \<Rightarrow>
          (case proc_exit seg q of
             None \<Rightarrow> None
           | Some UseAfterFree \<Rightarrow> Some UseAfterFree
           | Some (ExitThrown q') \<Rightarrow> Some (ExitThrown (False, q'))
           | Some (Normal q') \<Rightarrow> Some (Normal (False, q')))
      | Some (Normal q) \<Rightarrow> Some (Normal (\<not> (p_block q = [] \<and> p_suspend q = []), q)))"

definition serve_request :: "process_t \<Rightarrow> session_t \<Rightarrow> ('v, 'l, 'i, 'h) process \<Rightarrow> ('v, 'l, 'i, 'h) process" where
  "serve_request source session p = p\<lparr>p_requests := List.insert (source, session) (p_requests p)\<rparr>"

definition close_request :: "process_t \<Rightarrow> session_t \<Rightarrow> ('v, 'l, 'i, 'h) process \<Rightarrow> ('v, 'l, 'i, 'h) process" where
  "close_request source session p = p\<lparr>p_requests := removeAll (source, session) (p_requests p)\<rparr>"

definition inbox_push :: "'v message \<Rightarrow> ('v, 'l, 'i, 'h) process \<Rightarrow> ('v, 'l, 'i, 'h) process" where
  "inbox_push msg p = p\<lparr>p_inbox := p_inbox p @ [msg]\<rparr>"

text \<open>What \<^verbatim>\<open>Process::resume()\<close> does with the message it took.\<close>

definition deliver_response ::
  "'v message \<Rightarrow> ('v, 'l, 'i, 'h) process \<Rightarrow> (ResumeResult \<times> ('v, 'l, 'i, 'h) process) outcome" where
  "deliver_response msg p =
     (case proc_unblock (sessionForResponse (msg_session msg)) p of
        (None, p') \<Rightarrow> Normal (kResume, p')
      | (Some co, p') \<Rightarrow>
          (case p_cos p' co of
             None \<Rightarrow> UseAfterFree
           | Some c \<Rightarrow>
               (let c' = (case cast_exception (msg_content msg) of
                            Some e \<Rightarrow> set_exception e c
                          | None \<Rightarrow> set_result (msg_content msg) c)
                in Normal (kResume,
                     p'\<lparr>p_cos := (p_cos p')(co := Some c'), p_wakeup := p_wakeup p' @ [co]\<rparr>))))"

definition proc_deliver ::
  "(co \<Rightarrow> ('v, 'l, 'i, 'h) process \<Rightarrow> ('v, 'l, 'i, 'h) process option) \<Rightarrow> 'v message \<Rightarrow>
    ('v, 'l, 'i, 'h) process \<Rightarrow> (ResumeResult \<times> ('v, 'l, 'i, 'h) process) outcome option" where
  "proc_deliver seg msg p =
     (case typeOfMessage msg of
        kRequest \<Rightarrow> Some (Normal (kResume, inbox_push msg (serve_request (msg_source msg) (msg_session msg) p)))
      | kResponse \<Rightarrow> Some (deliver_response msg p)
      | kNotify \<Rightarrow>
          (if any_type (msg_content msg) = TypeKill
           then (case proc_exit seg p of
                   None \<Rightarrow> None
                 | Some UseAfterFree \<Rightarrow> Some UseAfterFree
                 | Some (ExitThrown q) \<Rightarrow> Some (ExitThrown (kDown, q))
                 | Some (Normal q) \<Rightarrow> Some (Normal (kDown, q)))
           else Some (Normal (kResume, inbox_push msg p))))"

definition proc_resume ::
  "('l, 'v message) append_ops \<Rightarrow> (co \<Rightarrow> ('v, 'l, 'i, 'h) process \<Rightarrow> ('v, 'l, 'i, 'h) process option) \<Rightarrow>
    ('v, 'l, 'i, 'h) process \<Rightarrow> (ResumeResult \<times> ('v, 'l, 'i, 'h) process) outcome option" where
  "proc_resume A seg p =
     (case proc_dispatch seg p of
        None \<Rightarrow> None
      | Some UseAfterFree \<Rightarrow> Some UseAfterFree
      | Some (ExitThrown (_, q)) \<Rightarrow> Some (ExitThrown (kDown, q))
      | Some (Normal (alive, q)) \<Rightarrow>
          (if \<not> alive then Some (Normal (kDown, q))
           else case mailbox_take A (p_mailbox q) of
             (None, mb) \<Rightarrow> Some (Normal (kBreak, q\<lparr>p_mailbox := mb\<rparr>))
           | (Some msg, mb) \<Rightarrow> proc_deliver seg msg (q\<lparr>p_mailbox := mb\<rparr>)))"

section \<open>Sessions, responses, yield\<close>

definition proc_new_session :: "'i alloc_ops \<Rightarrow> ('v, 'l, 'i, 'h) process \<Rightarrow> session_t \<times> ('v, 'l, 'i, 'h) process" where
  "proc_new_session I p =
     (let (id, i) = ia_new I (p_sessions p) in (session_t id, p\<lparr>p_sessions := i\<rparr>))"

definition proc_release_session :: "'i alloc_ops \<Rightarrow> session_t \<Rightarrow> ('v, 'l, 'i, 'h) process \<Rightarrow> ('v, 'l, 'i, 'h) process" where
  "proc_release_session I session p = p\<lparr>p_sessions := ia_erase I (sid_value session) (p_sessions p)\<rparr>"

text \<open>
  \<^verbatim>\<open>push_message\<close> on the process itself: the boolean says whether it calls \<^verbatim>\<open>sched::resume\<close>.
\<close>

definition proc_push :: "('l, 'v message) append_ops \<Rightarrow> 'v message \<Rightarrow> ('v, 'l, 'i, 'h) process \<Rightarrow>
    bool \<times> ('v, 'l, 'i, 'h) process" where
  "proc_push A msg p =
     (let (wait, mb) = mailbox_push A msg (p_mailbox p) in (wait, p\<lparr>p_mailbox := mb\<rparr>))"

text \<open>\<^verbatim>\<open>yield\<close> up to the switch: a response to a session of its own, then \<^verbatim>\<open>block\<close> on it.\<close>

definition proc_yield :: "('l, 'v message) append_ops \<Rightarrow> 'i alloc_ops \<Rightarrow> co \<Rightarrow> ('v, 'l, 'i, 'h) process \<Rightarrow>
    bool \<times> ('v, 'l, 'i, 'h) process" where
  "proc_yield A I running p =
     (let (session, p1) = proc_new_session I p;
          (wait, p2) = proc_push A (message_create (process_t 0) (sessionForResponse session) EmptyAny) p1
      in (wait, proc_block session running p2))"

text \<open>\<^verbatim>\<open>response\<close>: the message it sends (if its addressee exists), and the closed request.\<close>

definition proc_response :: "process_t \<Rightarrow> session_t \<Rightarrow> 'v any \<Rightarrow> ('v, 'l, 'i, 'h) process \<Rightarrow>
    (process_t \<times> 'v message) \<times> ('v, 'l, 'i, 'h) process" where
  "proc_response source session content p =
     ((source, message_create (p_pid p) (sessionForResponse session) content),
      close_request source session p)"

section \<open>Handlers and the message loop\<close>

definition message_callback :: "type_index \<Rightarrow> 'h \<Rightarrow> ('v, 'l, 'i, 'h) process \<Rightarrow> ('v, 'l, 'i, 'h) process" where
  "message_callback type func p = p\<lparr>p_handlers :=
     AList.update type \<lparr>hi_mode = kCallback, hi_func = func, hi_addstack = 0\<rparr> (p_handlers p)\<rparr>"

definition message_coroutine :: "type_index \<Rightarrow> 'h \<Rightarrow> nat \<Rightarrow> ('v, 'l, 'i, 'h) process \<Rightarrow> ('v, 'l, 'i, 'h) process" where
  "message_coroutine type func addstack p = p\<lparr>p_handlers :=
     AList.update type \<lparr>hi_mode = kCoroutine, hi_func = func, hi_addstack = addstack\<rparr> (p_handlers p)\<rparr>"

text \<open>
  One round of \<^verbatim>\<open>serve\<close>. \<open>serve_enter\<close> is the test before the message is taken (\<open>True\<close> when
  the coroutine suspends itself there); \<open>serve_take\<close> is the rest, after the coroutine has been
  resumed in that case. Taking from an empty deque is undefined behaviour, here
  \<open>UseAfterFree\<close>. \<open>co\<close> is the address of the coroutine a \<^verbatim>\<open>kCoroutine\<close> handler is spawned in.
\<close>

datatype ('v, 'h) serve_action =
    Ignored
  | Called 'h "'v any"
  | Spawned 'h "'v message" nat

definition serve_enter :: "co \<Rightarrow> ('v, 'l, 'i, 'h) process \<Rightarrow> bool \<times> ('v, 'l, 'i, 'h) process" where
  "serve_enter running p =
     (if p_inbox p = [] then (True, proc_suspend running (p\<lparr>p_inbox_coroutine := Some running\<rparr>))
      else (False, p))"

definition serve_take :: "co \<Rightarrow> co \<Rightarrow> ('v, 'l, 'i, 'h) process \<Rightarrow>
    (('v, 'h) serve_action \<times> ('v, 'l, 'i, 'h) process) outcome" where
  "serve_take co running p =
     (case p_inbox p of
        [] \<Rightarrow> UseAfterFree
      | msg # inbox \<Rightarrow>
          (let p1 = p\<lparr>p_inbox := inbox\<rparr>
           in case map_of (p_handlers p) (any_type (msg_content msg)) of
                None \<Rightarrow> Normal (Ignored, p1)
              | Some handler \<Rightarrow>
                  (if hi_mode handler = kCallback
                   then Normal (Called (hi_func handler) (msg_content msg),
                          p1\<lparr>p_cos := (p_cos p1)(running :=
                            map_option (set_message_info (msg_source msg) (msg_session msg)) (p_cos p1 running))\<rparr>)
                   else Normal (Spawned (hi_func handler) msg (hi_addstack handler), proc_spawn co p1))))"

section \<open>Environment\<close>

definition env_get :: "nat \<Rightarrow> ('v, 'l, 'i, 'h) process \<Rightarrow> 'v any" where
  "env_get name p = (case map_of (p_env p) name of None \<Rightarrow> EmptyAny | Some value \<Rightarrow> value)"

definition env_set :: "nat \<Rightarrow> 'v any \<Rightarrow> ('v, 'l, 'i, 'h) process \<Rightarrow> 'v any \<times> ('v, 'l, 'i, 'h) process" where
  "env_set name newValue p =
     ((case map_of (p_env p) name of None \<Rightarrow> EmptyAny | Some oldValue \<Rightarrow> oldValue),
      p\<lparr>p_env := AList.update name newValue (p_env p)\<rparr>)"

section \<open>The destructor\<close>

text \<open>
  \<^verbatim>\<open>~Process\<close> sends an abort for every open request, and one for every request it finds in the
  inbox and in the mailbox; the messages to send, in order. \<open>mailbox_drain\<close> is the loop that
  takes until nothing is left.
\<close>

partial_function (option) mailbox_drain ::
  "('l, 'm) append_ops \<Rightarrow> ('l, 'm) mailbox \<Rightarrow> ('m list \<times> ('l, 'm) mailbox) option" where
  "mailbox_drain A mb =
     (case mailbox_take A mb of (taken, mb') \<Rightarrow>
        (case taken of
           None \<Rightarrow> Some ([], mb')
         | Some msg \<Rightarrow> Option.bind (mailbox_drain A mb') (\<lambda>(msgs, mb''). Some (msg # msgs, mb''))))"

type_synonym abort_send = "process_t \<times> session_t \<times> exn"

definition abort_request :: "process_t \<Rightarrow> session_t \<Rightarrow> abort_send" where
  "abort_request source session = (source, sessionForResponse session, AbortedRequest)"

fun abort_messages :: "'v message list \<Rightarrow> abort_send list" where
  "abort_messages [] = []"
| "abort_messages (msg # msgs) =
     (if typeOfMessage msg = kRequest
      then abort_request (msg_source msg) (msg_session msg) # abort_messages msgs
      else abort_messages msgs)"

definition proc_destructor :: "('l, 'v message) append_ops \<Rightarrow> ('v, 'l, 'i, 'h) process \<Rightarrow> abort_send list option" where
  "proc_destructor A p =
     (case mailbox_drain A (p_mailbox p) of
        None \<Rightarrow> None
      | Some (msgs, _) \<Rightarrow>
          Some (map (\<lambda>(source, session). abort_request source session) (p_requests p) @
                abort_messages (p_inbox p) @ abort_messages msgs))"

end
