(* ===== verification/Runtime.thy ===== *)
theory Runtime
  imports Registry Dispatch
begin

text \<open>
  The processes together: the table of \<^verbatim>\<open>Registry\<close>, the objects of \<^verbatim>\<open>Dispatch\<close> and the queue of
  the scheduler as one state, and on it the functions of \<^verbatim>\<open>namespace process\<close> of
  \<^verbatim>\<open>src/process.cpp\<close> that an application calls. A result \<open>None\<close> is the use of a process that has
  been freed. The two queues of the scheduler are one list, in the order of \<^verbatim>\<open>sched::resume\<close>.
\<close>

section \<open>State\<close>

record ('v, 'l, 'i, 'h) runtime =
  rt_reg :: registry
  rt_procs :: "addr \<Rightarrow> ('v, 'l, 'i, 'h) process option"
  rt_resumed :: "addr list"

text \<open>The process and the coroutine a thread is running, if any.\<close>

type_synonym thread = "(addr \<times> co) option"

definition runtime_start :: "('v, 'l, 'i, 'h) runtime" where
  "runtime_start = \<lparr>rt_reg = registry_start, rt_procs = (\<lambda>_. None), rt_resumed = []\<rparr>"

definition with_proc :: "addr \<Rightarrow> (('v, 'l, 'i, 'h) process \<Rightarrow> ('v, 'l, 'i, 'h) process) \<Rightarrow>
    ('v, 'l, 'i, 'h, 'z) runtime_scheme \<Rightarrow> ('v, 'l, 'i, 'h, 'z) runtime_scheme option" where
  "with_proc p f s = (case rt_procs s p of None \<Rightarrow> None | Some q \<Rightarrow> Some (s\<lparr>rt_procs := (rt_procs s)(p \<mapsto> f q)\<rparr>))"

section \<open>Messages\<close>

text \<open>\<^verbatim>\<open>sched::resume\<close> takes a reference for the queue.\<close>

definition rt_sched_resume :: "addr \<Rightarrow> ('v, 'l, 'i, 'h, 'z) runtime_scheme \<Rightarrow> ('v, 'l, 'i, 'h, 'z) runtime_scheme option" where
  "rt_sched_resume p s =
     (case ref p (rt_reg s) of None \<Rightarrow> None | Some r \<Rightarrow> Some (s\<lparr>rt_reg := r, rt_resumed := rt_resumed s @ [p]\<rparr>))"

text \<open>\<^verbatim>\<open>push_message\<close> in the two atomic steps of the mailbox.\<close>

definition rt_append :: "('l, 'v message) append_ops \<Rightarrow> addr \<Rightarrow> 'v message \<Rightarrow>
    ('v, 'l, 'i, 'h, 'z) runtime_scheme \<Rightarrow> ('v, 'l, 'i, 'h, 'z) runtime_scheme option" where
  "rt_append A p msg s = with_proc p (\<lambda>q. q\<lparr>p_mailbox := push_append A msg (p_mailbox q)\<rparr>) s"

definition rt_notify :: "addr \<Rightarrow> ('v, 'l, 'i, 'h, 'z) runtime_scheme \<Rightarrow> ('v, 'l, 'i, 'h, 'z) runtime_scheme option" where
  "rt_notify p s =
     (case rt_procs s p of
        None \<Rightarrow> None
      | Some q \<Rightarrow>
          (case push_notify (p_mailbox q) of (wait, mb) \<Rightarrow>
            (let s1 = s\<lparr>rt_procs := (rt_procs s)(p \<mapsto> q\<lparr>p_mailbox := mb\<rparr>)\<rparr>
             in if wait then rt_sched_resume p s1 else Some s1)))"

definition rt_push :: "('l, 'v message) append_ops \<Rightarrow> addr \<Rightarrow> 'v message \<Rightarrow>
    ('v, 'l, 'i, 'h, 'z) runtime_scheme \<Rightarrow> ('v, 'l, 'i, 'h, 'z) runtime_scheme option" where
  "rt_push A p msg s = Option.bind (rt_append A p msg s) (rt_notify p)"

definition rt_find :: "process_t \<Rightarrow> ('v, 'l, 'i, 'h, 'z) runtime_scheme \<Rightarrow>
    (addr option \<times> ('v, 'l, 'i, 'h, 'z) runtime_scheme) option" where
  "rt_find pid s = map_option (\<lambda>(found, r). (found, s\<lparr>rt_reg := r\<rparr>)) (find pid (rt_reg s))"

text \<open>
  Sending takes and drops a reference to the addressee, and dropping the last reference runs the
  destructor, which sends again. \<open>rt_tasks\<close> does these calls with an explicit stack; \<open>self\<close> is the
  process of the thread, which \<^verbatim>\<open>send\<close> writes into its messages. The outer \<open>None\<close> is that a call
  does not return, the inner one a use after free.
\<close>

datatype 'v task = SendTask process_t session_t "'v any" | UnrefTask addr

definition abort_task :: "abort_send \<Rightarrow> 'v task" where
  "abort_task a = (case a of (source, session, e) \<Rightarrow> SendTask source session (ExceptionPtr e))"

partial_function (option) rt_tasks :: "('l, 'v message) append_ops \<Rightarrow> process_t \<Rightarrow> 'v task list \<Rightarrow>
    ('v, 'l, 'i, 'h, 'z) runtime_scheme \<Rightarrow> ('v, 'l, 'i, 'h, 'z) runtime_scheme option option" where
  "rt_tasks A self tasks s =
     (case tasks of
        [] \<Rightarrow> Some (Some s)
      | task # rest \<Rightarrow>
          (case task of
             SendTask pid session content \<Rightarrow>
               (case rt_find pid s of
                  None \<Rightarrow> Some None
                | Some (found, s1) \<Rightarrow>
                    (case found of
                       None \<Rightarrow> rt_tasks A self rest s1
                     | Some p \<Rightarrow>
                         (case rt_push A p (message_create self session content) s1 of
                            None \<Rightarrow> Some None
                          | Some s2 \<Rightarrow> rt_tasks A self (UnrefTask p # rest) s2)))
           | UnrefTask p \<Rightarrow>
               (case unref p (rt_reg s) of
                  None \<Rightarrow> Some None
                | Some r \<Rightarrow>
                    if rg_heap r p \<noteq> None then rt_tasks A self rest (s\<lparr>rt_reg := r\<rparr>)
                    else (case rt_procs s p of
                            None \<Rightarrow> Some None
                          | Some q \<Rightarrow>
                              (case proc_destructor A q of
                                 None \<Rightarrow> None
                               | Some aborts \<Rightarrow> rt_tasks A self (map abort_task aborts @ rest)
                                   (s\<lparr>rt_reg := r, rt_procs := (rt_procs s)(p := None)\<rparr>))))))"

section \<open>The functions of the application\<close>

definition rt_self :: "thread \<Rightarrow> ('v, 'l, 'i, 'h, 'z) runtime_scheme \<Rightarrow> process_t" where
  "rt_self cur s =
     (case cur of
        None \<Rightarrow> process_t 0
      | Some (p, _) \<Rightarrow> (case rt_procs s p of None \<Rightarrow> process_t 0 | Some q \<Rightarrow> p_pid q))"

definition rt_send :: "('l, 'v message) append_ops \<Rightarrow> thread \<Rightarrow> process_t \<Rightarrow> session_t \<Rightarrow> 'v any \<Rightarrow>
    ('v, 'l, 'i, 'h, 'z) runtime_scheme \<Rightarrow> ('v, 'l, 'i, 'h, 'z) runtime_scheme option option" where
  "rt_send A cur pid session content s = rt_tasks A (rt_self cur s) [SendTask pid session content] s"

definition rt_kill :: "('l, 'v message) append_ops \<Rightarrow> thread \<Rightarrow> process_t \<Rightarrow>
    ('v, 'l, 'i, 'h, 'z) runtime_scheme \<Rightarrow> ('v, 'l, 'i, 'h, 'z) runtime_scheme option option" where
  "rt_kill A cur pid s =
     (let selfPid = rt_self cur s; pid1 = (if pid = process_t 0 then selfPid else pid)
      in rt_tasks A selfPid [SendTask pid1 (session_t 0) KillProcess] s)"

text \<open>\<^verbatim>\<open>exit\<close> always throws: out of a process another exception than in one.\<close>

definition rt_exit :: "thread \<Rightarrow> exn" where
  "rt_exit cur = (case cur of None \<Rightarrow> RuntimeError ''call exit() out of process'' | Some _ \<Rightarrow> ProcessExit)"

definition rt_spawn :: "('l, 'v message) append_ops \<Rightarrow> addr \<Rightarrow> co \<Rightarrow> 'i \<Rightarrow>
    ('v, 'l, 'i, 'h, 'z) runtime_scheme \<Rightarrow> (process_t \<times> ('v, 'l, 'i, 'h, 'z) runtime_scheme) option" where
  "rt_spawn A p co ids s =
     (case create p (rt_reg s) of (pid, r) \<Rightarrow>
        map_option (Pair pid) (rt_sched_resume p
          (s\<lparr>rt_reg := r, rt_procs := (rt_procs s)(p \<mapsto> proc_create co pid (mailbox_new A) ids)\<rparr>)))"

text \<open>
  \<^verbatim>\<open>request\<close> up to the switch in \<^verbatim>\<open>block\<close>: it keeps the session and the reference to the addressee,
  which the second part, after the coroutine has been resumed, gives back in this order.
\<close>

definition request_begin :: "('l, 'v message) append_ops \<Rightarrow> 'i alloc_ops \<Rightarrow> thread \<Rightarrow> process_t \<Rightarrow> 'v any \<Rightarrow>
    ('v, 'l, 'i, 'h, 'z) runtime_scheme \<Rightarrow> ((exn + session_t \<times> addr) \<times> ('v, 'l, 'i, 'h, 'z) runtime_scheme) option" where
  "request_begin A I cur pid content s =
     (case cur of
        None \<Rightarrow> Some (Inl (RuntimeError ''not in process''), s)
      | Some (running, co) \<Rightarrow>
          (case rt_find pid s of
             None \<Rightarrow> None
           | Some (None, s1) \<Rightarrow> Some (Inl ProcessNotExist, s1)
           | Some (Some p, s1) \<Rightarrow>
               (case rt_procs s1 running of
                  None \<Rightarrow> None
                | Some q \<Rightarrow>
                    (case proc_new_session I q of (session, q1) \<Rightarrow>
                       Option.bind (rt_push A p (message_create (p_pid q1) session content)
                           (s1\<lparr>rt_procs := (rt_procs s1)(running \<mapsto> q1)\<rparr>))
                         (\<lambda>s2. map_option (Pair (Inr (session, p))) (with_proc running (proc_block session co) s2))))))"

definition request_end :: "('l, 'v message) append_ops \<Rightarrow> 'i alloc_ops \<Rightarrow> addr \<Rightarrow> session_t \<Rightarrow> addr \<Rightarrow>
    ('v, 'l, 'i, 'h, 'z) runtime_scheme \<Rightarrow> ('v, 'l, 'i, 'h, 'z) runtime_scheme option option" where
  "request_end A I running session p s =
     (case with_proc running (\<lambda>q. if sid_set session then proc_release_session I session q else q) s of
        None \<Rightarrow> Some None
      | Some s1 \<Rightarrow> rt_tasks A (rt_self (Some (running, 0)) s1) [UnrefTask p] s1)"

text \<open>\<^verbatim>\<open>response\<close>: in a process the request is closed after the message has been sent.\<close>

definition rt_response :: "('l, 'v message) append_ops \<Rightarrow> thread \<Rightarrow> process_t \<Rightarrow> session_t \<Rightarrow> 'v any \<Rightarrow>
    ('v, 'l, 'i, 'h, 'z) runtime_scheme \<Rightarrow> ('v, 'l, 'i, 'h, 'z) runtime_scheme option option" where
  "rt_response A cur source session content s =
     (case rt_tasks A (rt_self cur s) [SendTask source (sessionForResponse session) content] s of
        None \<Rightarrow> None
      | Some None \<Rightarrow> Some None
      | Some (Some s1) \<Rightarrow>
          Some (case cur of None \<Rightarrow> Some s1 | Some (running, _) \<Rightarrow> with_proc running (close_request source session) s1))"

text \<open>\<^verbatim>\<open>sender\<close>, \<^verbatim>\<open>session\<close> and \<^verbatim>\<open>response(content)\<close>, which answers the message the coroutine handles.\<close>

definition rt_message_info :: "addr \<Rightarrow> co \<Rightarrow> ('v, 'l, 'i, 'h, 'z) runtime_scheme \<Rightarrow> (process_t \<times> session_t) option" where
  "rt_message_info running co s =
     Option.bind (rt_procs s running) (\<lambda>q. map_option (\<lambda>c. (co_message_sender c, co_message_session c)) (p_cos q co))"

definition rt_answer :: "('l, 'v message) append_ops \<Rightarrow> addr \<Rightarrow> co \<Rightarrow> 'v any \<Rightarrow>
    ('v, 'l, 'i, 'h, 'z) runtime_scheme \<Rightarrow> ('v, 'l, 'i, 'h, 'z) runtime_scheme option option" where
  "rt_answer A running co content s =
     (case rt_message_info running co s of
        None \<Rightarrow> Some None
      | Some (source, session) \<Rightarrow> rt_response A (Some (running, co)) source session content s)"

section \<open>A turn of a process\<close>

text \<open>
  \<^verbatim>\<open>process::resume\<close>: the turn, by \<open>seg\<close> as in \<open>proc_resume\<close>, what it decides, and the reference of
  the queue. It runs outside of any process. A process exception out of the turn would end the
  program: \<open>Some None\<close>.
\<close>

definition resume_process :: "('l, 'v message) append_ops \<Rightarrow>
    (co \<Rightarrow> ('v, 'l, 'i, 'h) process \<Rightarrow> ('v, 'l, 'i, 'h) process option) \<Rightarrow> addr \<Rightarrow>
    ('v, 'l, 'i, 'h, 'z) runtime_scheme \<Rightarrow> ('v, 'l, 'i, 'h, 'z) runtime_scheme option option" where
  "resume_process A seg p s =
     (case rt_procs s p of
        None \<Rightarrow> Some None
      | Some q \<Rightarrow>
          (case proc_resume A seg q of
             None \<Rightarrow> None
           | Some (Normal (res, q1)) \<Rightarrow>
               (let s1 = s\<lparr>rt_procs := (rt_procs s)(p \<mapsto> q1)\<rparr>
                in case res of
                     kResume \<Rightarrow>
                       (case rt_sched_resume p s1 of
                          None \<Rightarrow> Some None
                        | Some s2 \<Rightarrow> rt_tasks A (process_t 0) [UnrefTask p] s2)
                   | kDown \<Rightarrow>
                       (case unreg (p_pid q1) (rt_reg s1) of (erased, r) \<Rightarrow>
                          rt_tasks A (process_t 0) (if erased then [UnrefTask p, UnrefTask p] else [UnrefTask p]) (s1\<lparr>rt_reg := r\<rparr>))
                   | kBreak \<Rightarrow> rt_tasks A (process_t 0) [UnrefTask p] s1)
           | Some _ \<Rightarrow> Some None))"

end
