(* ===== verification/Registry_Spec.thy ===== *)
theory Registry_Spec
  imports Registry
begin

text \<open>
  Reference counting is right, in every interleaving: the count of a process is the number of
  references that exist, so that no thread ever uses a process after it has been freed, and a
  process that is down is freed as soon as the last reference to it is dropped.
\<close>

section \<open>When the operations fail\<close>

lemma ref_none [ref_simps]: "ref p r = None \<longleftrightarrow> rg_heap r p = None"
  by (simp add: ref_def split: option.splits)

lemma ref_some [ref_simps]: "(\<exists>r'. ref p r = Some r') \<longleftrightarrow> (\<exists>ob. rg_heap r p = Some ob)"
  by (metis not_None_eq ref_none)

lemma unref_none [ref_simps]: "unref p r = None \<longleftrightarrow> rg_heap r p = None"
  by (simp add: unref_def Let_def split: option.splits)

lemma unref_some [ref_simps]: "(\<exists>r'. unref p r = Some r') \<longleftrightarrow> (\<exists>ob. rg_heap r p = Some ob)"
  by (metis not_None_eq unref_none)

lemma retire_none [ref_simps]: "retire p r = None \<longleftrightarrow> rg_heap r p = None"
  by (auto simp: retire_def unreg_def ref_simps split: option.splits)

lemma retire_some [ref_simps]: "(\<exists>r'. retire p r = Some r') \<longleftrightarrow> (\<exists>ob. rg_heap r p = Some ob)"
  by (metis not_None_eq retire_none)

lemma notify_none [ref_simps]: "notify_process p r = None \<longleftrightarrow> rg_heap r p = None"
  by (auto simp: notify_process_def set_wait_def ref_simps split: option.splits)

lemma find_none [ref_simps]: "find pid r = None \<longleftrightarrow> (\<exists>p. rg_map r (pid_value pid) = Some p \<and> rg_heap r p = None)"
  by (simp add: find_def ref_none split: option.splits)

lemma find_found: "find pid r = Some (found, r') \<Longrightarrow> found = rg_map r (pid_value pid)"
  by (auto simp: find_def split: option.splits)

section \<open>The invariant\<close>

definition refs :: "ref_sys \<Rightarrow> addr multiset" where
  "refs s = rs_holders s + rs_queue s + rs_active s + rs_exiting s"

definition addr_ok :: "ref_sys \<Rightarrow> addr \<Rightarrow> bool" where
  "addr_ok s a \<longleftrightarrow> (case rg_heap (rs_reg s) a of
      None \<Rightarrow> a \<notin># refs s
    | Some ob \<Rightarrow>
        o_refcnt ob = of_bool (a \<notin> rs_retired s) + int (count (refs s) a) \<and> 0 < o_refcnt ob \<and>
        count (rs_queue s) a + count (rs_active s) a + of_bool (o_wait ob) + of_bool (a \<in> rs_down s) = 1 \<and>
        (a \<in> rs_retired s \<longrightarrow> a \<in> rs_down s))"

definition map_ok :: "ref_sys \<Rightarrow> bool" where
  "map_ok s \<longleftrightarrow> (\<forall>i a. rg_map (rs_reg s) i = Some a \<longrightarrow>
     a \<notin> rs_retired s \<and> (\<exists>ob. rg_heap (rs_reg s) a = Some ob \<and> pid_value (o_pid ob) = i))"

text \<open>As long as fewer than \<open>2 ^ 32\<close> processes have been created, identifiers are not reused.\<close>

definition ids_ok :: "ref_sys \<Rightarrow> bool" where
  "ids_ok s \<longleftrightarrow> (rs_spawned s < 2 ^ 32 \<longrightarrow> unat (rg_seq (rs_reg s)) = rs_spawned s \<and>
     (\<forall>a ob. rg_heap (rs_reg s) a = Some ob \<longrightarrow>
        0 < unat (pid_value (o_pid ob)) \<and> unat (pid_value (o_pid ob)) \<le> rs_spawned s \<and>
        (if a \<in> rs_down s then a \<in> rs_retired s
         else rg_map (rs_reg s) (pid_value (o_pid ob)) = Some a)))"

definition ref_inv :: "ref_sys \<Rightarrow> bool" where
  "ref_inv s \<longleftrightarrow> (\<forall>a. addr_ok s a) \<and> map_ok s \<and> ids_ok s"

lemma refE:
  assumes "ref p r = Some r'"
  obtains ob where "rg_heap r p = Some ob"
    "r' = r\<lparr>rg_heap := (rg_heap r)(p := Some (ob\<lparr>o_refcnt := o_refcnt ob + 1\<rparr>))\<rparr>"
  using assms by (auto simp: ref_def split: option.splits)

lemma unrefE:
  assumes "unref p r = Some r'"
  obtains ob where "rg_heap r p = Some ob"
    "r' = r\<lparr>rg_heap := (rg_heap r)(p := if o_refcnt ob = 1 then None else Some (ob\<lparr>o_refcnt := o_refcnt ob - 1\<rparr>))\<rparr>"
  using assms by (auto simp: unref_def Let_def split: option.splits)

lemma addr_ok_alive: "addr_ok s a \<Longrightarrow> a \<in># refs s \<Longrightarrow> \<exists>ob. rg_heap (rs_reg s) a = Some ob"
  by (auto simp: addr_ok_def split: option.splits)

lemma addr_okD:
  assumes "addr_ok s a" "rg_heap (rs_reg s) a = Some ob"
  shows "o_refcnt ob = of_bool (a \<notin> rs_retired s) + int (count (refs s) a)" "0 < o_refcnt ob"
    "count (rs_queue s) a + count (rs_active s) a + of_bool (o_wait ob) + of_bool (a \<in> rs_down s) = 1"
    "a \<in> rs_retired s \<Longrightarrow> a \<in> rs_down s"
  using assms by (simp_all add: addr_ok_def)

lemma addr_okI:
  assumes "rg_heap (rs_reg t) a = Some ob"
    "o_refcnt ob = of_bool (a \<notin> rs_retired t) + int (count (refs t) a)" "0 < o_refcnt ob"
    "count (rs_queue t) a + count (rs_active t) a + of_bool (o_wait ob) + of_bool (a \<in> rs_down t) = 1"
    "a \<in> rs_retired t \<longrightarrow> a \<in> rs_down t"
  shows "addr_ok t a"
  using assms by (simp add: addr_ok_def)

lemma addr_ok_cong:
  assumes "addr_ok s a" "rg_heap (rs_reg t) a = rg_heap (rs_reg s) a" "count (refs t) a = count (refs s) a"
    "count (rs_queue t) a = count (rs_queue s) a" "count (rs_active t) a = count (rs_active s) a"
    "a \<in> rs_down t \<longleftrightarrow> a \<in> rs_down s" "a \<in> rs_retired t \<longleftrightarrow> a \<in> rs_retired s"
  shows "addr_ok t a"
proof (cases "rg_heap (rs_reg s) a")
  case None
  with assms(1-3) show ?thesis by (simp add: addr_ok_def count_eq_zero_iff [symmetric])
next
  case (Some ob)
  note D = addr_okD [OF assms(1) Some]
  show ?thesis
  proof (rule addr_okI)
    show "rg_heap (rs_reg t) a = Some ob" by (simp only: assms(2) Some)
    show "o_refcnt ob = of_bool (a \<notin> rs_retired t) + int (count (refs t) a)"
      unfolding assms(3,7) by (rule D(1))
    show "0 < o_refcnt ob" by (rule D(2))
    show "count (rs_queue t) a + count (rs_active t) a + of_bool (o_wait ob) + of_bool (a \<in> rs_down t) = 1"
      unfolding assms(4-6) by (rule D(3))
    show "a \<in> rs_retired t \<longrightarrow> a \<in> rs_down t" unfolding assms(6,7) using D(4) by blast
  qed
qed

lemma map_okD: "map_ok s \<Longrightarrow> rg_map (rs_reg s) i = Some a \<Longrightarrow>
    a \<notin> rs_retired s \<and> (\<exists>ob. rg_heap (rs_reg s) a = Some ob \<and> pid_value (o_pid ob) = i)"
  by (simp add: map_ok_def)

lemma ids_okD: "ids_ok s \<Longrightarrow> rs_spawned s < 2 ^ 32 \<Longrightarrow> rg_heap (rs_reg s) a = Some ob \<Longrightarrow>
    0 < unat (pid_value (o_pid ob)) \<and> unat (pid_value (o_pid ob)) \<le> rs_spawned s \<and>
    (if a \<in> rs_down s then a \<in> rs_retired s else rg_map (rs_reg s) (pid_value (o_pid ob)) = Some a)"
  unfolding ids_ok_def by blast

text \<open>An object that keeps its identifier does not matter to the table.\<close>

lemma keep_ids:
  assumes "map_ok s" "ids_ok s" "rg_heap (rs_reg s) p = Some ob"
    "rs_reg t = rs_reg s\<lparr>rg_heap := (rg_heap (rs_reg s))(p := Some ob')\<rparr>" "o_pid ob' = o_pid ob"
    "rs_down t = rs_down s" "rs_retired t = rs_retired s" "rs_spawned t = rs_spawned s"
  shows "map_ok t" "ids_ok t"
proof -
  show "map_ok t"
    unfolding map_ok_def
  proof (intro allI impI)
    fix i a assume "rg_map (rs_reg t) i = Some a"
    with assms(4) have "rg_map (rs_reg s) i = Some a" by simp
    from map_okD [OF assms(1) this] assms(3-7)
    show "a \<notin> rs_retired t \<and> (\<exists>ob. rg_heap (rs_reg t) a = Some ob \<and> pid_value (o_pid ob) = i)"
      by (cases "a = p") simp_all
  qed
  have old: "\<exists>ob0. rg_heap (rs_reg s) a = Some ob0 \<and> o_pid ob0 = o_pid ob1" if "rg_heap (rs_reg t) a = Some ob1" for a ob1
    using that assms(3-5) by (cases "a = p") simp_all
  show "ids_ok t"
    unfolding ids_ok_def
  proof (intro impI conjI allI)
    assume b: "rs_spawned t < 2 ^ 32"
    then show "unat (rg_seq (rs_reg t)) = rs_spawned t" using assms by (simp add: ids_ok_def)
    fix a ob1 assume "rg_heap (rs_reg t) a = Some ob1"
    with old obtain ob0 where ob0: "rg_heap (rs_reg s) a = Some ob0" "o_pid ob0 = o_pid ob1" by blast
    have "rs_spawned s < 2 ^ 32" using b assms(8) by simp
    from ids_okD [OF assms(2) this ob0(1), unfolded ob0(2)] assms(4,6-8)
    show "0 < unat (pid_value (o_pid ob1))" "unat (pid_value (o_pid ob1)) \<le> rs_spawned t"
      "if a \<in> rs_down t then a \<in> rs_retired t else rg_map (rs_reg t) (pid_value (o_pid ob1)) = Some a"
      by simp_all
  qed
qed

lemma free_ids:
  assumes "map_ok s" "ids_ok s" "p \<in> rs_retired s"
    "rs_reg t = rs_reg s\<lparr>rg_heap := (rg_heap (rs_reg s))(p := None)\<rparr>"
    "rs_down t = rs_down s" "rs_retired t = rs_retired s" "rs_spawned t = rs_spawned s"
  shows "map_ok t" "ids_ok t"
proof -
  show "map_ok t"
    unfolding map_ok_def
  proof (intro allI impI)
    fix i a assume "rg_map (rs_reg t) i = Some a"
    with assms(4) have "rg_map (rs_reg s) i = Some a" by simp
    from map_okD [OF assms(1) this] assms(3-6)
    show "a \<notin> rs_retired t \<and> (\<exists>ob. rg_heap (rs_reg t) a = Some ob \<and> pid_value (o_pid ob) = i)"
      by (cases "a = p") simp_all
  qed
  show "ids_ok t"
    unfolding ids_ok_def
  proof (intro impI conjI allI)
    assume b: "rs_spawned t < 2 ^ 32"
    then show "unat (rg_seq (rs_reg t)) = rs_spawned t" using assms by (simp add: ids_ok_def)
    fix a ob1 assume "rg_heap (rs_reg t) a = Some ob1"
    with assms(4) have ob1: "rg_heap (rs_reg s) a = Some ob1" by (simp split: if_splits)
    have "rs_spawned s < 2 ^ 32" using b assms(7) by simp
    from ids_okD [OF assms(2) this ob1] assms(4-7)
    show "0 < unat (pid_value (o_pid ob1))" "unat (pid_value (o_pid ob1)) \<le> rs_spawned t"
      "if a \<in> rs_down t then a \<in> rs_retired t else rg_map (rs_reg t) (pid_value (o_pid ob1)) = Some a"
      by simp_all
  qed
qed

section \<open>Dropping a reference\<close>

text \<open>The common case of \<open>Release\<close> and \<open>Drop\<close>: the count and the multiset go down together.\<close>

lemma drop_ref_inv:
  assumes inv: "ref_inv s" and u: "unref p (rs_reg s) = Some r"
    and t: "rs_reg t = r" "refs t = refs s - {#p#}" "p \<in># refs s" "rs_queue t = rs_queue s"
      "rs_active t = rs_active s" "rs_down t = rs_down s" "rs_retired t = rs_retired s"
      "rs_spawned t = rs_spawned s"
  shows "ref_inv t"
proof -
  from u obtain ob where ob: "rg_heap (rs_reg s) p = Some ob"
    "r = rs_reg s\<lparr>rg_heap := (rg_heap (rs_reg s))(p := if o_refcnt ob = 1 then None else Some (ob\<lparr>o_refcnt := o_refcnt ob - 1\<rparr>))\<rparr>"
    by (rule unrefE)
  have ok: "addr_ok s p" and all: "\<forall>a. addr_ok s a" and m: "map_ok s" and ids: "ids_ok s"
    using inv by (auto simp: ref_inv_def)
  note D = addr_okD [OF ok ob(1)]
  have cnt: "0 < count (refs s) p" using t(3) by simp
  have gone: "p \<in> rs_retired s \<and> count (refs s) p = 1" if "o_refcnt ob = 1"
    using that D(1) cnt by (cases "p \<in> rs_retired s") (simp_all del: count_greater_zero_iff)
  have left: "o_refcnt ob - 1 = of_bool (p \<notin> rs_retired s) + int (count (refs s) p - 1) \<and> 0 < o_refcnt ob - 1"
    if "o_refcnt ob \<noteq> 1"
    using that D(1,2) cnt by auto
  have addr: "addr_ok t a" for a
  proof (cases "a = p")
    case True
    show ?thesis
    proof (cases "o_refcnt ob = 1")
      case True
      with gone \<open>a = p\<close> t(1,2) ob(2) show ?thesis by (simp add: addr_ok_def count_eq_zero_iff [symmetric])
    next
      case False
      with left D(3,4) \<open>a = p\<close> t ob(2) show ?thesis by (simp add: addr_ok_def)
    qed
  next
    case False
    then show ?thesis by (intro addr_ok_cong [OF all [rule_format]]) (simp_all add: t ob(2))
  qed
  have "map_ok t \<and> ids_ok t"
  proof (cases "o_refcnt ob = 1")
    case True
    with gone free_ids [OF m ids _ _ t(6-8), of p] t(1) ob(2) show ?thesis by simp
  next
    case False
    with keep_ids [OF m ids ob(1) _ _ t(6-8), of "ob\<lparr>o_refcnt := o_refcnt ob - 1\<rparr>"] t(1) ob(2) show ?thesis by simp
  qed
  with addr show ?thesis by (simp add: ref_inv_def)
qed

section \<open>Every step\<close>

lemma spawn_inv:
  assumes inv: "ref_inv s" and e: "enabled (Spawn p) s" and t: "perform (Spawn p) s = Some t"
  shows "ref_inv t"
proof -
  let ?r = "rs_reg s" and ?id = "rg_seq (rs_reg s) + 1"
  have fresh: "rg_heap ?r p = None" using e by simp
  have all: "\<And>a. addr_ok s a" and m: "map_ok s" and ids: "ids_ok s" using inv by (auto simp: ref_inv_def)
  have t': "t = s\<lparr>rs_reg := \<lparr>rg_seq = ?id, rg_map = (rg_map ?r)(?id := Some p),
       rg_heap = (rg_heap ?r)(p := Some \<lparr>o_pid = process_t ?id, o_refcnt = 2, o_wait = False\<rparr>)\<rparr>,
      rs_queue := add_mset p (rs_queue s), rs_spawned := Suc (rs_spawned s),
      rs_down := rs_down s - {p}, rs_retired := rs_retired s - {p}\<rparr>"
    using t by (auto simp: create_def reg_def ref_def Let_def)
  have none: "count (refs s) p = 0" using all [of p] fresh by (simp add: addr_ok_def count_eq_zero_iff)
  have "addr_ok t a" for a
    using all [of a] none by (auto simp: t' addr_ok_def refs_def count_eq_zero_iff [symmetric] split: option.splits)
  moreover have "map_ok t"
    unfolding map_ok_def
  proof (intro allI impI)
    fix i a assume i: "rg_map (rs_reg t) i = Some a"
    show "a \<notin> rs_retired t \<and> (\<exists>ob. rg_heap (rs_reg t) a = Some ob \<and> pid_value (o_pid ob) = i)"
    proof (cases "i = ?id")
      case True
      with i show ?thesis by (simp add: t')
    next
      case False
      with i have "rg_map ?r i = Some a" by (simp add: t')
      from map_okD [OF m this] fresh show ?thesis by (auto simp: t')
    qed
  qed
  moreover have "ids_ok t"
    unfolding ids_ok_def
  proof (intro impI)
    assume "rs_spawned t < 2 ^ 32"
    then have lt: "Suc (rs_spawned s) < 2 ^ 32" by (simp add: t')
    then have seq: "unat (rg_seq ?r) = rs_spawned s" using ids by (simp add: ids_ok_def)
    then have id: "unat ?id = Suc (rs_spawned s)" using unat_Suc_less [of "rg_seq ?r"] lt by simp
    have old: "\<forall>a ob. rg_heap ?r a = Some ob \<longrightarrow> 0 < unat (pid_value (o_pid ob)) \<and>
        unat (pid_value (o_pid ob)) \<le> rs_spawned s \<and> pid_value (o_pid ob) \<noteq> ?id \<and>
        (if a \<in> rs_down s then a \<in> rs_retired s else rg_map ?r (pid_value (o_pid ob)) = Some a)"
    proof (intro allI impI)
      fix a ob assume "rg_heap ?r a = Some ob"
      from ids_okD [OF ids _ this] lt id show "0 < unat (pid_value (o_pid ob)) \<and>
        unat (pid_value (o_pid ob)) \<le> rs_spawned s \<and> pid_value (o_pid ob) \<noteq> ?id \<and>
        (if a \<in> rs_down s then a \<in> rs_retired s else rg_map ?r (pid_value (o_pid ob)) = Some a)"
        by fastforce
    qed
    show "unat (rg_seq (rs_reg t)) = rs_spawned t \<and> (\<forall>a ob. rg_heap (rs_reg t) a = Some ob \<longrightarrow>
        0 < unat (pid_value (o_pid ob)) \<and> unat (pid_value (o_pid ob)) \<le> rs_spawned t \<and>
        (if a \<in> rs_down t then a \<in> rs_retired t else rg_map (rs_reg t) (pid_value (o_pid ob)) = Some a))"
    proof (intro conjI allI impI)
      show "unat (rg_seq (rs_reg t)) = rs_spawned t" using id by (simp add: t')
    next
      fix a ob
      assume "rg_heap (rs_reg t) a = Some ob"
      then consider "a = p" "ob = \<lparr>o_pid = process_t ?id, o_refcnt = 2, o_wait = False\<rparr>"
        | "a \<noteq> p" "rg_heap ?r a = Some ob" by (auto simp: t' split: if_splits)
      then show "0 < unat (pid_value (o_pid ob))" "unat (pid_value (o_pid ob)) \<le> rs_spawned t"
        "if a \<in> rs_down t then a \<in> rs_retired t else rg_map (rs_reg t) (pid_value (o_pid ob)) = Some a"
        using id old [rule_format, of a ob] by (cases; simp add: t')+
    qed
  qed
  ultimately show ?thesis by (simp add: ref_inv_def)
qed

text \<open>A reference added for the local pointer of \<^verbatim>\<open>find\<close>, or for the queue.\<close>

lemma find_inv:
  assumes inv: "ref_inv s" and t: "perform (Find pid) s = Some t"
  shows "ref_inv t"
proof (cases "rg_map (rs_reg s) (pid_value pid)")
  case None
  with t have "t = s\<lparr>rs_reg := rs_reg s, rs_holders := rs_holders s\<rparr>" by (simp add: find_def)
  then have "t = s" by simp
  with inv show ?thesis by simp
next
  case (Some p)
  let ?r = "rs_reg s"
  from Some t obtain r where r: "ref p ?r = Some r" "t = s\<lparr>rs_reg := r, rs_holders := add_mset p (rs_holders s)\<rparr>"
    by (auto simp: find_def)
  from r(1) obtain ob where ob: "rg_heap ?r p = Some ob"
    "r = ?r\<lparr>rg_heap := (rg_heap ?r)(p := Some (ob\<lparr>o_refcnt := o_refcnt ob + 1\<rparr>))\<rparr>" by (rule refE)
  have all: "\<And>a. addr_ok s a" and m: "map_ok s" and ids: "ids_ok s" using inv by (auto simp: ref_inv_def)
  have "addr_ok t a" for a
  proof (cases "a = p")
    case True
    with addr_okD [OF all ob(1)] show ?thesis
      by (intro addr_okI [of _ _ "ob\<lparr>o_refcnt := o_refcnt ob + 1\<rparr>"]) (simp_all add: r(2) ob(2) refs_def)
  next
    case False
    then show ?thesis by (intro addr_ok_cong [OF all]) (simp_all add: r(2) ob(2) refs_def)
  qed
  moreover have "map_ok t" "ids_ok t" using ob(2) by (auto intro!: keep_ids [OF m ids ob(1)] simp: r(2))
  ultimately show ?thesis by (simp add: ref_inv_def)
qed

lemma notify_inv:
  assumes inv: "ref_inv s" and t: "perform (Notify p) s = Some t"
  shows "ref_inv t"
proof -
  let ?r = "rs_reg s"
  obtain ob where ob: "rg_heap ?r p = Some ob"
    using t by (auto simp: notify_process_def split: option.splits)
  have all: "\<And>a. addr_ok s a" and m: "map_ok s" and ids: "ids_ok s" using inv by (auto simp: ref_inv_def)
  show ?thesis
  proof (cases "o_wait ob")
    case False
    with t ob have "t = s\<lparr>rs_reg := rs_reg s, rs_queue := rs_queue s\<rparr>" by (simp add: notify_process_def)
    then have "t = s" by simp
    with inv show ?thesis by simp
  next
    case True
    with t ob have t': "t = s\<lparr>rs_reg := ?r\<lparr>rg_heap := (rg_heap ?r)(p := Some (ob\<lparr>o_wait := False, o_refcnt := o_refcnt ob + 1\<rparr>))\<rparr>,
        rs_queue := add_mset p (rs_queue s)\<rparr>"
      by (auto simp: notify_process_def set_wait_def ref_def)
    have "addr_ok t a" for a
    proof (cases "a = p")
      case True
      with addr_okD [OF all ob] \<open>o_wait ob\<close> show ?thesis
        by (intro addr_okI [of _ _ "ob\<lparr>o_wait := False, o_refcnt := o_refcnt ob + 1\<rparr>"])
          (auto simp: t' refs_def)
    next
      case False
      then show ?thesis by (intro addr_ok_cong [OF all]) (simp_all add: t' refs_def)
    qed
    moreover have "map_ok t" "ids_ok t" by (auto intro!: keep_ids [OF m ids ob] simp: t')
    ultimately show ?thesis by (simp add: ref_inv_def)
  qed
qed

lemma dequeue_inv:
  assumes inv: "ref_inv s" and e: "enabled (Dequeue p) s" and t: "perform (Dequeue p) s = Some t"
  shows "ref_inv t"
proof -
  have t': "t = s\<lparr>rs_queue := rs_queue s - {#p#}, rs_active := add_mset p (rs_active s)\<rparr>"
    using t by (simp split: if_splits)
  have all: "\<And>a. addr_ok s a" and m: "map_ok s" and ids: "ids_ok s" using inv by (auto simp: ref_inv_def)
  have q: "rs_queue s = add_mset p (rs_queue t)" using e by (simp add: t')
  have "refs t = refs s" using q by (simp add: t' refs_def)
  have "addr_ok t a" for a
  proof (cases "a = p")
    case True
    obtain ob where ob: "rg_heap (rs_reg s) p = Some ob" using t by (auto split: if_splits)
    have "count (rs_queue s) p = Suc (count (rs_queue t) p)" unfolding q by simp
    moreover have "count (rs_active t) p = Suc (count (rs_active s) p)" "rs_reg t = rs_reg s"
        "rs_down t = rs_down s" "rs_retired t = rs_retired s" by (simp_all add: t')
    ultimately show ?thesis
      using addr_okD [OF all ob] True \<open>refs t = refs s\<close> ob by (intro addr_okI [of _ _ ob]) auto
  next
    case False
    with \<open>refs t = refs s\<close> show ?thesis by (intro addr_ok_cong [OF all]) (simp_all add: t')
  qed
  moreover have "map_ok t" using m by (simp add: t' map_ok_def)
  moreover have "ids_ok t" using ids by (simp add: t' ids_ok_def)
  ultimately show ?thesis by (simp add: ref_inv_def)
qed

text \<open>
  A turn that ends with \<^verbatim>\<open>kDown\<close>: the table entry goes, and its reference with it when there
  was one.
\<close>

lemma down_inv:
  assumes inv: "ref_inv s" and e: "enabled (Decide kDown p) s" and t: "perform (Decide kDown p) s = Some t"
  shows "ref_inv t"
proof -
  let ?r = "rs_reg s"
  have all: "\<And>a. addr_ok s a" and m: "map_ok s" and ids: "ids_ok s" using inv by (auto simp: ref_inv_def)
  obtain ob where ob: "rg_heap ?r p = Some ob" using t by (auto split: if_splits)
  note D = addr_okD [OF all ob]
  let ?pid = "pid_value (o_pid ob)"
  have act: "0 < count (rs_active s) p" using e by simp
  then have one: "count (rs_active s) p = 1" "count (rs_queue s) p = 0" "\<not> o_wait ob" "p \<notin> rs_down s" "p \<notin> rs_retired s"
    using D(3,4) by (auto simp del: count_greater_zero_iff split: if_splits)
  have pos: "0 < count (refs s) p" using act by (simp add: refs_def del: count_greater_zero_iff)
  then have two: "o_refcnt ob \<noteq> 1" using D(1) one(5) by simp
  let ?had = "rg_map ?r ?pid \<noteq> None"
  let ?ob = "if ?had then ob\<lparr>o_refcnt := o_refcnt ob - 1\<rparr> else ob"
  have t': "t = s\<lparr>rs_reg := ?r\<lparr>rg_map := (rg_map ?r)(?pid := None), rg_heap := (rg_heap ?r)(p := Some ?ob)\<rparr>,
      rs_active := rs_active s - {#p#}, rs_exiting := add_mset p (rs_exiting s), rs_down := insert p (rs_down s),
      rs_retired := (if ?had then insert p (rs_retired s) else rs_retired s)\<rparr>"
    using t ob two
    by (cases "rg_map ?r ?pid") (auto simp: resume_decide_def retire_def unreg_def unref_def Let_def fun_upd_idem)
  have "addr_ok t a" for a
  proof (cases "a = p")
    case True
    with D one pos show ?thesis by (intro addr_okI [of _ _ ?ob]) (simp_all add: t' refs_def)
  next
    case False
    then show ?thesis by (intro addr_ok_cong [OF all]) (simp_all add: t' refs_def)
  qed
  moreover have "map_ok t"
    unfolding map_ok_def
  proof (intro allI impI)
    fix i a assume i: "rg_map (rs_reg t) i = Some a"
    then have old: "rg_map ?r i = Some a" "i \<noteq> ?pid" by (auto simp: t' split: if_splits)
    from map_okD [OF m old(1)] old(2) ob
    show "a \<notin> rs_retired t \<and> (\<exists>ob. rg_heap (rs_reg t) a = Some ob \<and> pid_value (o_pid ob) = i)"
      by (cases "a = p") (simp_all add: t')
  qed
  moreover have "ids_ok t"
    unfolding ids_ok_def
  proof (intro impI conjI allI)
    assume b: "rs_spawned t < 2 ^ 32"
    then have b': "rs_spawned s < 2 ^ 32" by (simp add: t')
    then show "unat (rg_seq (rs_reg t)) = rs_spawned t" using ids by (simp add: ids_ok_def t')
    have had: "rg_map ?r ?pid = Some p" using ids_okD [OF ids b' ob] one(4) by simp
    fix a ob1 assume "rg_heap (rs_reg t) a = Some ob1"
    then obtain ob0 where ob0: "rg_heap ?r a = Some ob0" "o_pid ob1 = o_pid ob0"
      using ob by (cases "a = p") (auto simp: t' split: if_splits)
    note old = ids_okD [OF ids b' ob0(1)]
    show "0 < unat (pid_value (o_pid ob1))" "unat (pid_value (o_pid ob1)) \<le> rs_spawned t"
      using old ob0(2) by (simp_all add: t')
    show "if a \<in> rs_down t then a \<in> rs_retired t else rg_map (rs_reg t) (pid_value (o_pid ob1)) = Some a"
      using old had ob0(2) by (cases "a = p") (auto simp: t' split: if_splits)
  qed
  ultimately show ?thesis by (simp add: ref_inv_def)
qed

text \<open>A turn that ends: the token goes to the queue, to the mailbox flag, or away for good.\<close>

lemma decide_inv:
  assumes inv: "ref_inv s" and e: "enabled (Decide res p) s" and t: "perform (Decide res p) s = Some t"
  shows "ref_inv t"
proof -
  let ?r = "rs_reg s"
  have all: "\<And>a. addr_ok s a" and m: "map_ok s" and ids: "ids_ok s" using inv by (auto simp: ref_inv_def)
  obtain ob where ob: "rg_heap ?r p = Some ob" using t by (auto split: if_splits)
  note D = addr_okD [OF all ob]
  have act: "0 < count (rs_active s) p" using e by simp
  then have one: "count (rs_active s) p = 1" "count (rs_queue s) p = 0" "\<not> o_wait ob" "p \<notin> rs_down s" "p \<notin> rs_retired s"
    using D(3,4) by (auto simp del: count_greater_zero_iff split: if_splits)
  have bal: "count (rs_active s - {#p#}) p = 0" using one(1) by simp
  show ?thesis
  proof (cases res)
    case kBreak
    with t ob have t': "t = s\<lparr>rs_reg := ?r\<lparr>rg_heap := (rg_heap ?r)(p := Some (ob\<lparr>o_wait := True\<rparr>))\<rparr>,
        rs_active := rs_active s - {#p#}, rs_exiting := add_mset p (rs_exiting s)\<rparr>"
      by (simp add: resume_decide_def set_wait_def)
    have "addr_ok t a" for a
    proof (cases "a = p")
      case True
      with D one show ?thesis
        by (intro addr_okI [of _ _ "ob\<lparr>o_wait := True\<rparr>"]) (simp_all add: t' refs_def)
    next
      case False
      then show ?thesis by (intro addr_ok_cong [OF all]) (simp_all add: t' refs_def)
    qed
    moreover have "map_ok t" "ids_ok t" by (auto intro!: keep_ids [OF m ids ob] simp: t')
    ultimately show ?thesis by (simp add: ref_inv_def)
  next
    case kResume
    with t ob have t': "t = s\<lparr>rs_reg := ?r\<lparr>rg_heap := (rg_heap ?r)(p := Some (ob\<lparr>o_refcnt := o_refcnt ob + 1\<rparr>))\<rparr>,
        rs_queue := add_mset p (rs_queue s), rs_active := rs_active s - {#p#}, rs_exiting := add_mset p (rs_exiting s)\<rparr>"
      by (simp add: resume_decide_def ref_def)
    have "addr_ok t a" for a
    proof (cases "a = p")
      case True
      with D one show ?thesis
        by (intro addr_okI [of _ _ "ob\<lparr>o_refcnt := o_refcnt ob + 1\<rparr>"]) (simp_all add: t' refs_def)
    next
      case False
      then show ?thesis by (intro addr_ok_cong [OF all]) (simp_all add: t' refs_def)
    qed
    moreover have "map_ok t" "ids_ok t" by (auto intro!: keep_ids [OF m ids ob] simp: t')
    ultimately show ?thesis by (simp add: ref_inv_def)
  next
    case kDown
    show ?thesis by (rule down_inv [OF inv e [unfolded kDown] t [unfolded kDown]])
  qed
qed

lemma release_inv:
  assumes "ref_inv s" "enabled (Release p) s" "perform (Release p) s = Some t"
  shows "ref_inv t"
proof -
  obtain r where "unref p (rs_reg s) = Some r" "t = s\<lparr>rs_reg := r, rs_holders := rs_holders s - {#p#}\<rparr>"
    using assms(3) by auto
  with assms(2) show ?thesis
    by (intro drop_ref_inv [OF assms(1), of p r]) (auto simp: refs_def)
qed

lemma drop_inv:
  assumes "ref_inv s" "enabled (Drop p) s" "perform (Drop p) s = Some t"
  shows "ref_inv t"
proof -
  obtain r where "unref p (rs_reg s) = Some r" "t = s\<lparr>rs_reg := r, rs_exiting := rs_exiting s - {#p#}\<rparr>"
    using assms(3) by auto
  with assms(2) show ?thesis
    by (intro drop_ref_inv [OF assms(1), of p r]) (auto simp: refs_def)
qed

lemma step_inv: "ref_inv s \<Longrightarrow> ref_step s t \<Longrightarrow> ref_inv t"
proof (erule ref_step.cases)
  fix act s' t' assume "ref_inv s" "s = s'" "t = t'" "enabled act s'" "perform act s' = Some t'"
  then show "ref_inv t"
    by (cases act) (auto simp del: perform.simps enabled.simps intro: spawn_inv find_inv notify_inv
        release_inv dequeue_inv decide_inv drop_inv)
qed

lemma start_inv: "ref_inv ref_start"
  by (simp add: ref_inv_def addr_ok_def map_ok_def ids_ok_def ref_start_def registry_start_def refs_def)

interpretation refcount: invariant_contract "\<lambda>s. s = ref_start" ref_step ref_inv
  by unfold_locales (auto intro: start_inv step_inv)

section \<open>What reference counting guarantees\<close>

text \<open>A run for the witnesses: a process is spawned, looked up, run to its end, and let go.\<close>

abbreviation run_actions :: "action list \<Rightarrow> ref_sys \<Rightarrow> ref_sys option" where
  "run_actions acts s \<equiv> fold (\<lambda>act o'. Option.bind o' (\<lambda>s. if enabled act s then perform act s else None)) acts (Some s)"

lemma run_reach:
  assumes "run_actions acts ref_start = Some s"
  shows "reach (\<lambda>s. s = ref_start) ref_step s"
  using assms
proof (induction acts arbitrary: s rule: rev_induct)
  case Nil
  then show ?case by (auto intro: reach_init)
next
  case (snoc act acts)
  then obtain s' where "run_actions acts ref_start = Some s'" "enabled act s'" "perform act s' = Some s"
    by (auto simp: bind_eq_Some_conv split: if_splits)
  then show ?case using snoc.IH by (meson reach_step ref_step.intros)
qed



text \<open>No process leaks: as long as fewer than \<open>2 ^ 32\<close> processes have been created, a process that
  is down cannot be found, is never queued or run again, and is freed exactly when no local
  pointer and no worker about to let go refers to it.\<close>

theorem refcount_down_is_freed:
  assumes "reach (\<lambda>s. s = ref_start) ref_step s" "rs_spawned s < 2 ^ 32" "a \<in> rs_down s"
  shows "(rg_heap (rs_reg s) a = None \<longleftrightarrow> a \<notin># rs_holders s + rs_exiting s) \<and>
    a \<notin># rs_queue s + rs_active s \<and> (\<forall>i. rg_map (rs_reg s) i \<noteq> Some a)"
proof -
  have inv: "addr_ok s a" "map_ok s" "ids_ok s" using refcount.inv_reach [OF assms(1)] by (auto simp: ref_inv_def)
  show ?thesis
  proof (cases "rg_heap (rs_reg s) a")
    case None
    with inv(1) have "a \<notin># refs s" by (simp add: addr_ok_def)
    with None map_okD [OF inv(2)] show ?thesis by (fastforce simp: refs_def)
  next
    case (Some ob)
    note D = addr_okD [OF inv(1) Some]
    have ret: "a \<in> rs_retired s" using ids_okD [OF inv(3) assms(2) Some] assms(3) by simp
    have "count (rs_queue s) a = 0" "count (rs_active s) a = 0" using D(3) assms(3) by simp_all
    moreover have "0 < int (count (refs s) a)" using D(1,2) ret by simp
    then have "0 < count (refs s) a" by (simp only: of_nat_0_less_iff)
    ultimately show ?thesis
      using Some ret map_okD [OF inv(2)] by (auto simp: count_eq_zero_iff refs_def)
  qed
qed

theorem refcount_down_is_freed_witness:
  "\<exists>s. run_actions [Spawn 3, Find (process_t 1), Dequeue 3, Decide kDown 3, Drop 3, Release 3] ref_start = Some s \<and>
    rs_down s = {3} \<and> rg_heap (rs_reg s) 3 = None"
proof -
  let ?acts = "[Spawn 3, Find (process_t 1), Dequeue 3, Decide kDown 3, Drop 3, Release 3]"
  have "\<exists>s. run_actions ?acts ref_start = Some s \<and> rs_holders s + rs_exiting s = {#} \<and> rs_down s = {3} \<and> rs_spawned s = 1"
    by (simp add: ref_start_def registry_start_def create_def reg_def ref_def find_def resume_decide_def
        retire_def unreg_def unref_def Let_def)
  then obtain s where s: "run_actions ?acts ref_start = Some s"
      "rs_holders s + rs_exiting s = {#}" "rs_down s = {3}" "rs_spawned s = 1" by blast
  from refcount_down_is_freed [OF run_reach [OF s(1)], of 3] s show ?thesis by auto
qed

text \<open>The bound on the number of processes is needed: \<^verbatim>\<open>reg\<close> does not look whether the identifier
  it hands out is taken. If it is, the table forgets the process that had it: no lookup can
  find that process any more, it can never be killed or sent to, and when it ends it removes
  the entry of the other one.\<close>

theorem reg_overwrites:
  assumes "rg_map r (rg_seq r + 1) = Some a" "p \<noteq> a" "\<forall>i. rg_map r i = Some a \<longrightarrow> i = rg_seq r + 1"
    and "reg p r = (pid, r')"
  shows "pid = process_t (rg_seq r + 1) \<and> (\<forall>pid'. find pid' r' \<noteq> None \<longrightarrow> fst (the (find pid' r')) \<noteq> Some a) \<and>
    fst (unreg (process_t (rg_seq r + 1)) r') \<and> rg_map (snd (unreg (process_t (rg_seq r + 1)) r')) (pid_value pid) = None"
proof -
  have r': "pid = process_t (rg_seq r + 1)" "rg_map r' = (rg_map r)(rg_seq r + 1 := Some p)"
    using assms(4) by (auto simp: reg_def Let_def)
  then have no: "rg_map r' i \<noteq> Some a" for i using assms(2,3) by auto
  have "fst (the (find pid' r')) \<noteq> Some a" if "find pid' r' \<noteq> None" for pid'
    using that no find_found [of pid' r'] by fastforce
  with r' show ?thesis by (simp add: unreg_def)
qed

theorem reg_overwrites_witness:
  "find (process_t 0) (snd (reg 4 \<lparr>rg_seq = - 1, rg_map = [0 \<mapsto> 9], rg_heap = (\<lambda>_. Some \<lparr>o_pid = process_t 0, o_refcnt = 1, o_wait = False\<rparr>)\<rparr>))
     \<noteq> None \<and> fst (reg 4 \<lparr>rg_seq = - 1, rg_map = [0 \<mapsto> 9], rg_heap = (\<lambda>_. Some \<lparr>o_pid = process_t 0, o_refcnt = 1, o_wait = False\<rparr>)\<rparr>) = process_t 0"
proof -
  let ?r = "\<lparr>rg_seq = - 1, rg_map = [0 \<mapsto> 9], rg_heap = (\<lambda>_. Some \<lparr>o_pid = process_t 0, o_refcnt = 1, o_wait = False\<rparr>)\<rparr>"
  have "fst (reg 4 ?r) = process_t 0"
    using reg_overwrites [of ?r 9 4 "fst (reg 4 ?r)" "snd (reg 4 ?r)"] by (simp split: if_splits)
  then show ?thesis by (simp add: reg_def find_def ref_def Let_def)
qed

end
