(* ===== verification/Process_Spec.thy ===== *)
theory Process_Spec
  imports Dispatch
begin

text \<open>
  Correctness of the coroutine bookkeeping of a process. The relations \<open>api\<close> and
  \<open>segment\<close> say what application code can do to its process between two switches: call the
  operations of the runtime, then wait, or finish. Coroutine ownership is the invariant: every
  allocated coroutine is in exactly one of the tables. It makes the loop of the process free of
  dangling coroutines, and its exit total.
\<close>

section \<open>What application code can do\<close>

inductive api :: "('l, 'v message) append_ops \<Rightarrow> 'i alloc_ops \<Rightarrow> co \<Rightarrow>
    ('v, 'l, 'i, 'h) process \<Rightarrow> ('v, 'l, 'i, 'h) process \<Rightarrow> bool"
  for A :: "('l, 'v message) append_ops" and I :: "'i alloc_ops" and co :: co where
  api_result: "p_cos p co = Some c \<Longrightarrow>
    api A I co p (p\<lparr>p_cos := (p_cos p)(co := Some (snd (get_result c)))\<rparr>)"
| api_spawn: "p_cos p c = None \<Longrightarrow> api A I co p (proc_spawn c p)"
| api_wakeup: "api A I co p (proc_wakeup c p)"
| api_new_session: "api A I co p (snd (proc_new_session I p))"
| api_release_session: "api A I co p (proc_release_session I session p)"
| api_push: "api A I co p (snd (proc_push A msg p))"
| api_response: "api A I co p (snd (proc_response source session content p))"
| api_callback: "api A I co p (message_callback type func p)"
| api_coroutine: "api A I co p (message_coroutine type func addstack p)"
| api_env: "api A I co p (snd (env_set name value p))"
| api_serve: "p_cos p c = None \<Longrightarrow> serve_take c co p = Normal (a, q) \<Longrightarrow> api A I co p q"

text \<open>
  A coroutine that has been handed an exception does not wait again: it may run its
  destructors, and finishes. A session that is blocked on is not blocked on by another
  coroutine.
\<close>

definition may_wait :: "co \<Rightarrow> ('v, 'l, 'i, 'h) process \<Rightarrow> bool" where
  "may_wait co p \<longleftrightarrow> (\<exists>c. p_cos p co = Some c \<and> co_exception c = None)"

inductive switch_back :: "('l, 'v message) append_ops \<Rightarrow> 'i alloc_ops \<Rightarrow> co \<Rightarrow>
    ('v, 'l, 'i, 'h) process \<Rightarrow> ('v, 'l, 'i, 'h) process \<Rightarrow> bool"
  for A :: "('l, 'v message) append_ops" and I :: "'i alloc_ops" and co :: co where
  by_suspend: "may_wait co p \<Longrightarrow> switch_back A I co p (proc_suspend co p)"
| by_block: "may_wait co p \<Longrightarrow> session \<notin> fst ` set (p_block p) \<Longrightarrow>
    switch_back A I co p (proc_block session co p)"
| by_yield: "may_wait co p \<Longrightarrow> fst (proc_new_session I p) \<notin> fst ` set (p_block p) \<Longrightarrow>
    switch_back A I co p (snd (proc_yield A I co p))"
| by_serve: "may_wait co p \<Longrightarrow> serve_enter co p = (True, q) \<Longrightarrow> switch_back A I co p q"
| by_finish: "p_cos p co = Some c \<Longrightarrow>
    switch_back A I co p (p\<lparr>p_cos := (p_cos p)(co := Some (run_finish thrown c))\<rparr>)"

definition segment :: "('l, 'v message) append_ops \<Rightarrow> 'i alloc_ops \<Rightarrow> co \<Rightarrow>
    ('v, 'l, 'i, 'h) process \<Rightarrow> ('v, 'l, 'i, 'h) process \<Rightarrow> bool" where
  "segment A I co p p' \<longleftrightarrow> (\<exists>q. (api A I co)\<^sup>*\<^sup>* p q \<and> switch_back A I co q p')"

definition honest :: "('l, 'v message) append_ops \<Rightarrow> 'i alloc_ops \<Rightarrow>
    (co \<Rightarrow> ('v, 'l, 'i, 'h) process \<Rightarrow> ('v, 'l, 'i, 'h) process option) \<Rightarrow> bool" where
  "honest A I seg \<longleftrightarrow> (\<forall>co p p'. p_cos p co \<noteq> None \<longrightarrow> seg co p = Some p' \<longrightarrow> segment A I co p p')"

section \<open>Ownership\<close>

definition owned :: "('v, 'l, 'i, 'h) process \<Rightarrow> co multiset" where
  "owned p = mset (p_spawn p) + mset (p_wakeup p) + mset (p_zombie p) +
     mset (p_suspend p) + mset (map snd (p_block p))"

text \<open>\<open>R\<close> holds the running coroutine, if any: it is in no table.\<close>

definition wf_owned :: "co multiset \<Rightarrow> ('v, 'l, 'i, 'h) process \<Rightarrow> bool" where
  "wf_owned R p \<longleftrightarrow>
     (\<forall>c. count (owned p + R) c = of_bool (p_cos p c \<noteq> None)) \<and> distinct (map fst (p_block p))"

lemma wf_owned_count: "wf_owned R p \<Longrightarrow> count (owned p + R) c = of_bool (p_cos p c \<noteq> None)"
  by (simp add: wf_owned_def)

lemma wf_allocated:
  assumes "wf_owned R p" "c \<in># owned p + R"
  shows "p_cos p c \<noteq> None"
proof
  assume "p_cos p c = None"
  then have "count (owned p + R) c = 0" using wf_owned_count [OF assms(1), of c] by simp
  with assms(2) show False by (simp add: count_eq_zero_iff)
qed

lemma wf_cong:
  assumes "wf_owned R p" "owned q + R' = owned p + R" "dom (p_cos q) = dom (p_cos p)"
    "map fst (p_block q) = map fst (p_block p)"
  shows "wf_owned R' q"
proof -
  have "p_cos q c \<noteq> None \<longleftrightarrow> p_cos p c \<noteq> None" for c using assms(3) by (metis domIff)
  with assms show ?thesis by (simp add: wf_owned_def)
qed

text \<open>Operations that leave the coroutine tables alone.\<close>

definition same_tables :: "('v, 'l, 'i, 'h) process \<Rightarrow> ('v, 'l, 'i, 'h) process \<Rightarrow> bool" where
  "same_tables p q \<longleftrightarrow>
     p_spawn q = p_spawn p \<and> p_wakeup q = p_wakeup p \<and> p_zombie q = p_zombie p \<and>
     p_suspend q = p_suspend p \<and> p_block q = p_block p \<and> p_cos q = p_cos p"

lemma same_tables_wf: "same_tables p q \<Longrightarrow> wf_owned R p \<Longrightarrow> wf_owned R q"
  by (rule wf_cong [of R p]) (auto simp: same_tables_def owned_def)

lemma same_tables_ops [proc_simps]:
  "same_tables p (snd (proc_new_session I p))"
  "same_tables p (proc_release_session I session p)"
  "same_tables p (snd (proc_push A msg p))"
  "same_tables p (snd (proc_response source session content p))"
  "same_tables p (message_callback type func p)"
  "same_tables p (message_coroutine type func addstack p)"
  "same_tables p (snd (env_set name value p))"
  "same_tables p (p\<lparr>p_inbox := msgs\<rparr>)"
  "same_tables p (p\<lparr>p_inbox_coroutine := ic\<rparr>)"
  "same_tables p (p\<lparr>p_mailbox := mb\<rparr>)"
  "same_tables p (inbox_push m p)"
  "same_tables p (serve_request source session p)"
  by (simp_all add: same_tables_def proc_new_session_def proc_release_session_def proc_push_def
      proc_response_def close_request_def message_callback_def message_coroutine_def env_set_def
      inbox_push_def serve_request_def split: prod.splits)

lemma same_tables_trans: "same_tables p q \<Longrightarrow> same_tables q r \<Longrightarrow> same_tables p r"
  by (simp add: same_tables_def)

lemma wf_count_le: "wf_owned R p \<Longrightarrow> count (owned p + R) c \<le> 1"
  using wf_owned_count [of R p c] by simp

lemma wf_spawn:
  assumes "wf_owned R p" "p_cos p c = None"
  shows "wf_owned R (proc_spawn c p)"
  using assms by (auto simp: wf_owned_def proc_spawn_def owned_def)

lemma mset_removeAll_single: "count (mset xs) c = 1 \<Longrightarrow> mset (removeAll c xs) = mset xs - {#c#}"
  by (intro multiset_eqI) (auto simp: removeAll_filter_not_eq)

lemma wf_wakeup:
  assumes "wf_owned R p"
  shows "wf_owned R (proc_wakeup c p)"
proof (cases "c \<in> set (p_suspend p)")
  case True
  then have "0 < count (mset (p_suspend p)) c" by simp
  moreover have "count (mset (p_suspend p)) c \<le> 1"
    using wf_count_le [OF assms, of c] by (simp add: owned_def)
  ultimately have "count (mset (p_suspend p)) c = 1" by linarith
  then have "mset (removeAll c (p_suspend p)) + {#c#} = mset (p_suspend p)"
    using True by (simp add: mset_removeAll_single)
  then have "owned (proc_wakeup c p) = owned p"
    using True by (simp add: owned_def proc_wakeup_def ac_simps)
  with assms True show ?thesis by (intro wf_cong [OF assms]) (simp_all add: proc_wakeup_def)
qed (simp add: proc_wakeup_def assms)

lemma wf_running_free:
  assumes "wf_owned {#co#} p"
  shows "co \<notin># owned p"
  using wf_count_le [OF assms, of co] by (simp add: count_eq_zero_iff [symmetric])

lemma wf_suspend:
  assumes "wf_owned {#co#} p"
  shows "wf_owned {#} (proc_suspend co p)"
proof -
  have "co \<notin> set (p_suspend p)" using wf_running_free [OF assms] by (simp add: owned_def)
  then show ?thesis
    by (intro wf_cong [OF assms]) (simp_all add: proc_suspend_def owned_def ac_simps)
qed

lemma update_append: "s \<notin> fst ` set ps \<Longrightarrow> AList.update s x ps = ps @ [(s, x)]"
  by (induction ps) auto

lemma wf_block:
  assumes "wf_owned {#co#} p" "s \<notin> fst ` set (p_block p)"
  shows "wf_owned {#} (proc_block s co p)"
  using assms by (auto simp: wf_owned_def proc_block_def owned_def update_append ac_simps)

lemma wf_heap:
  assumes "wf_owned R p" "p_cos p co \<noteq> None"
  shows "wf_owned R (p\<lparr>p_cos := (p_cos p)(co := Some c)\<rparr>)"
  using assms by (auto simp: wf_owned_def owned_def)

lemma wf_zombie:
  assumes "wf_owned {#co#} p"
  shows "wf_owned {#} (p\<lparr>p_zombie := p_zombie p @ [co]\<rparr>)"
  by (intro wf_cong [OF assms]) (simp_all add: owned_def ac_simps)

section \<open>Segments keep the invariant\<close>

definition exc_of :: "('v, 'l, 'i, 'h) process \<Rightarrow> co \<Rightarrow> exn option" where
  "exc_of p c = Option.bind (p_cos p c) co_exception"

text \<open>One call: the tables stay well formed and no stored exception of an old coroutine changes.\<close>

lemma serve_take_frame:
  assumes "serve_take c co p = Normal (a, q)" "p_cos p c = None" "wf_owned R p" "co \<in># R"
  shows "wf_owned R q \<and> (\<forall>d. p_cos p d \<noteq> None \<longrightarrow> p_cos q d \<noteq> None \<and> exc_of q d = exc_of p d)
    \<and> p_suspend q = p_suspend p \<and> p_block q = p_block p \<and> p_wakeup q = p_wakeup p"
proof -
  obtain msg inbox where inbox: "p_inbox p = msg # inbox"
    using assms(1) by (cases "p_inbox p") (simp_all add: serve_take_def)
  let ?p1 = "p\<lparr>p_inbox := inbox\<rparr>"
  have wf1: "wf_owned R ?p1" using assms(3) same_tables_ops(8) same_tables_wf by blast
  have co: "p_cos p co \<noteq> None" using wf_allocated [OF assms(3)] assms(4) by simp
  let ?p2 = "?p1\<lparr>p_cos := (p_cos ?p1)(co :=
    map_option (set_message_info (msg_source msg) (msg_session msg)) (p_cos ?p1 co))\<rparr>"
  have "q = ?p1 \<or> q = ?p2 \<or> q = proc_spawn c ?p1"
    using assms(1) unfolding serve_take_def inbox list.case Let_def
    by (cases "map_of (p_handlers p) (any_type (msg_content msg))") (simp_all split: if_splits)
  then consider "q = ?p1" | "q = ?p2" | "q = proc_spawn c ?p1" by blast
  then show ?thesis
  proof cases
    case 1
    with wf1 show ?thesis by (simp add: exc_of_def)
  next
    case 2
    with wf_heap [OF wf1] co show ?thesis by (auto simp: exc_of_def set_message_info_def)
  next
    case 3
    with wf_spawn [OF wf1, of c] assms(2) show ?thesis by (auto simp: exc_of_def proc_spawn_def)
  qed
qed

lemma api_frame:
  assumes "api A I co p q" "wf_owned R p" "co \<in># R"
  shows "wf_owned R q \<and> (\<forall>d. p_cos p d \<noteq> None \<longrightarrow> p_cos q d \<noteq> None \<and> exc_of q d = exc_of p d)"
proof (cases "same_tables p q")
  case True
  with same_tables_wf [OF True assms(2)] show ?thesis by (simp add: same_tables_def exc_of_def)
next
  case False
  from assms(1) show ?thesis
  proof cases
    case (api_result c)
    with wf_heap [OF assms(2)] show ?thesis
      by (auto simp: exc_of_def get_result_def split: option.splits)
  next
    case (api_spawn c)
    with wf_spawn [OF assms(2)] show ?thesis by (auto simp: exc_of_def proc_spawn_def)
  next
    case (api_wakeup c)
    with wf_wakeup [OF assms(2)] show ?thesis by (simp add: exc_of_def proc_wakeup_def)
  next
    case (api_serve c a)
    with serve_take_frame assms(2,3) show ?thesis by metis
  qed (use False in \<open>simp_all add: proc_simps\<close>)
qed

lemma api_steps_frame:
  "(api A I co)\<^sup>*\<^sup>* p q \<Longrightarrow> wf_owned R p \<Longrightarrow> co \<in># R \<Longrightarrow>
    wf_owned R q \<and> (\<forall>d. p_cos p d \<noteq> None \<longrightarrow> p_cos q d \<noteq> None \<and> exc_of q d = exc_of p d)"
proof (induction rule: rtranclp_induct)
  case (step q r)
  then show ?case using api_frame [OF step.hyps(2)] by metis
qed simp

lemma serve_enter_suspend:
  "serve_enter co p = (True, q) \<Longrightarrow> q = proc_suspend co (p\<lparr>p_inbox_coroutine := Some co\<rparr>)"
  by (simp add: serve_enter_def split: if_splits)

lemma switch_back_wf:
  assumes "switch_back A I co p q" "wf_owned {#co#} p"
  shows "\<exists>c. p_cos q co = Some c \<and> wf_owned (if co_exception c = None then {#} else {#co#}) q"
  using assms(1)
proof cases
  case by_suspend
  then obtain c where "p_cos p co = Some c" "co_exception c = None" by (auto simp: may_wait_def)
  with by_suspend wf_suspend [OF assms(2)] show ?thesis by (auto simp: proc_suspend_def)
next
  case (by_block session)
  then obtain c where "p_cos p co = Some c" "co_exception c = None" by (auto simp: may_wait_def)
  with by_block wf_block [OF assms(2)] show ?thesis by (auto simp: proc_block_def)
next
  case by_yield
  then obtain c where c: "p_cos p co = Some c" "co_exception c = None" by (auto simp: may_wait_def)
  obtain s p1 where p1: "proc_new_session I p = (s, p1)" by fastforce
  obtain w p2 where p2: "proc_push A (message_create (process_t 0) (sessionForResponse s) EmptyAny) p1 = (w, p2)"
    by fastforce
  have st: "same_tables p p2"
    using same_tables_ops(1) [of p I] same_tables_ops(3) [of p1 A] p1 p2 same_tables_trans
    by (metis snd_conv)
  then have "wf_owned {#} (proc_block s co p2)"
    using by_yield p1 same_tables_wf [OF st assms(2)]
    by (intro wf_block) (simp_all add: same_tables_def)
  with by_yield p1 p2 c st show ?thesis
    by (auto simp: proc_yield_def proc_block_def same_tables_def)
next
  case by_serve
  let ?p = "p\<lparr>p_inbox_coroutine := Some co\<rparr>"
  from by_serve obtain c where "p_cos p co = Some c" "co_exception c = None" by (auto simp: may_wait_def)
  moreover have "wf_owned {#co#} ?p" using assms(2) same_tables_ops(9) same_tables_wf by blast
  ultimately show ?thesis
    using serve_enter_suspend [OF by_serve(2)] wf_suspend [of co ?p] by (auto simp: proc_suspend_def)
next
  case (by_finish c thrown)
  with wf_heap [OF assms(2)] show ?thesis by (simp add: proc_simps)
qed

lemma segment_wf:
  assumes "segment A I co p q" "wf_owned {#co#} p"
  shows "\<exists>c. p_cos q co = Some c \<and> wf_owned (if co_exception c = None then {#} else {#co#}) q"
  using assms api_steps_frame [of A I co p _ "{#co#}"] switch_back_wf
  unfolding segment_def by (metis union_single_eq_member add.right_neutral add_mset_add_single)

end
