(* ===== verification/Process_Safety.thy ===== *)
theory Process_Safety
  imports Process_Spec
begin

text \<open>
  The loop of a process and its exit, over the ownership invariant of \<^verbatim>\<open>Process_Spec\<close>: no
  coroutine is used after it has been destroyed, the loop leaves nothing ready, and the exit
  destroys every coroutine once.
\<close>

section \<open>One resumption\<close>

fun outcome_inv :: "('a \<Rightarrow> bool) \<Rightarrow> ('a \<Rightarrow> bool) \<Rightarrow> 'a outcome \<Rightarrow> bool" where
  "outcome_inv P Q (Normal q) = P q"
| "outcome_inv P Q (ExitThrown q) = Q q"
| "outcome_inv P Q UseAfterFree = False"

lemma resume_co_wf:
  assumes h: "honest A I seg" and wf: "wf_owned {#co#} p" and r: "resume_co seg exiting co p = Some r"
  shows "outcome_inv (wf_owned {#}) (\<lambda>q. wf_owned {#} q \<and> \<not> exiting) r"
proof -
  have al: "p_cos p co \<noteq> None" using wf_allocated [OF wf] by simp
  with r obtain q where q: "seg co p = Some q"
    by (cases "seg co p") (simp_all add: resume_co_def)
  with h al have "segment A I co p q" by (auto simp: honest_def)
  from segment_wf [OF this wf] obtain c where c: "p_cos q co = Some c"
      "wf_owned (if co_exception c = None then {#} else {#co#}) q" by blast
  show ?thesis
  proof (cases "co_exception c")
    case None
    with c wf_heap [of "{#}" q co] have "wf_owned {#} (q\<lparr>p_cos := (p_cos q)(co := Some (snd (get_result c)))\<rparr>)"
      by simp
    with r al q c(1) None show ?thesis by (auto simp: resume_co_def get_result_def)
  next
    case (Some e)
    let ?q = "q\<lparr>p_cos := (p_cos q)(co := Some c)\<rparr>"
    have "wf_owned {#co#} ?q" using c Some wf_heap [of "{#co#}" q co c] by simp
    then have "wf_owned {#} (?q\<lparr>p_zombie := p_zombie ?q @ [co]\<rparr>)" by (rule wf_zombie)
    with r al q c(1) Some show ?thesis
      by (cases e) (auto simp: resume_co_def get_result_def Let_def split: if_splits)
  qed
qed

lemma wf_pop_spawn: "wf_owned {#} p \<Longrightarrow> p_spawn p = co # cos \<Longrightarrow> wf_owned {#co#} (p\<lparr>p_spawn := cos\<rparr>)"
  by (erule wf_cong) (simp_all add: owned_def)

lemma wf_pop_wakeup: "wf_owned {#} p \<Longrightarrow> p_wakeup p = co # cos \<Longrightarrow> wf_owned {#co#} (p\<lparr>p_wakeup := cos\<rparr>)"
  by (erule wf_cong) (simp_all add: owned_def)

section \<open>The loop\<close>

lemma drain_spawn_wf:
  assumes "drain_spawn seg p = Some r" "honest A I seg" "wf_owned {#} p"
  shows "outcome_inv (\<lambda>q. wf_owned {#} q \<and> p_spawn q = []) (wf_owned {#}) r"
proof -
  have "honest A I seg \<longrightarrow> wf_owned {#} p \<longrightarrow>
    outcome_inv (\<lambda>q. wf_owned {#} q \<and> p_spawn q = []) (wf_owned {#}) r"
  proof (rule drain_spawn.raw_induct [OF _ assms(1), where P = "\<lambda>seg p r. honest A I seg \<longrightarrow> wf_owned {#} p \<longrightarrow>
      outcome_inv (\<lambda>q. wf_owned {#} q \<and> p_spawn q = []) (wf_owned {#}) r"], intro impI)
    fix f seg p r
    assume IH: "\<And>seg p r. f seg p = Some r \<Longrightarrow> honest A I seg \<longrightarrow> wf_owned {#} p \<longrightarrow>
        outcome_inv (\<lambda>q. wf_owned {#} q \<and> p_spawn q = []) (wf_owned {#}) r"
      and eq: "(case p_spawn p of [] \<Rightarrow> Some (Normal p)
        | co # cos \<Rightarrow> (case resume_co seg False co (p\<lparr>p_spawn := cos\<rparr>) of None \<Rightarrow> None
          | Some r \<Rightarrow> (case r of Normal q \<Rightarrow> f seg q | ExitThrown q \<Rightarrow> Some (ExitThrown q)
            | UseAfterFree \<Rightarrow> Some UseAfterFree))) = Some r"
      and h: "honest A I seg" and wf: "wf_owned {#} p"
    show "outcome_inv (\<lambda>q. wf_owned {#} q \<and> p_spawn q = []) (wf_owned {#}) r"
    proof (cases "p_spawn p")
      case Nil
      with eq wf show ?thesis by auto
    next
      case (Cons co cos)
      with eq obtain r1 where r1: "resume_co seg False co (p\<lparr>p_spawn := cos\<rparr>) = Some r1"
        by (auto split: option.splits)
      from resume_co_wf [OF h wf_pop_spawn [OF wf Cons] r1] eq Cons r1 show ?thesis
        by (cases r1) (use IH h in auto)
    qed
  qed
  with assms(2,3) show ?thesis by blast
qed

lemma drain_wakeup_wf:
  assumes "drain_wakeup seg exiting p = Some r" "honest A I seg" "wf_owned {#} p"
  shows "outcome_inv (\<lambda>q. wf_owned {#} q \<and> p_wakeup q = []) (\<lambda>q. wf_owned {#} q \<and> \<not> exiting) r"
proof -
  let ?Q = "\<lambda>exiting. outcome_inv (\<lambda>q. wf_owned {#} q \<and> p_wakeup q = []) (\<lambda>q. wf_owned {#} q \<and> \<not> exiting)"
  have "honest A I seg \<longrightarrow> wf_owned {#} p \<longrightarrow> ?Q exiting r"
  proof (rule drain_wakeup.raw_induct [OF _ assms(1),
        where P = "\<lambda>seg exiting p r. honest A I seg \<longrightarrow> wf_owned {#} p \<longrightarrow> ?Q exiting r"], intro impI)
    fix f seg exiting p r
    assume IH: "\<And>seg exiting p r. f seg exiting p = Some r \<Longrightarrow> honest A I seg \<longrightarrow> wf_owned {#} p \<longrightarrow> ?Q exiting r"
      and eq: "(case p_wakeup p of [] \<Rightarrow> Some (Normal p)
        | co # cos \<Rightarrow> (case resume_co seg exiting co (p\<lparr>p_wakeup := cos\<rparr>) of None \<Rightarrow> None
          | Some r \<Rightarrow> (case r of Normal q \<Rightarrow> f seg exiting q | ExitThrown q \<Rightarrow> Some (ExitThrown q)
            | UseAfterFree \<Rightarrow> Some UseAfterFree))) = Some r"
      and h: "honest A I seg" and wf: "wf_owned {#} p"
    show "?Q exiting r"
    proof (cases "p_wakeup p")
      case Nil
      with eq wf show ?thesis by auto
    next
      case (Cons co cos)
      with eq obtain r1 where r1: "resume_co seg exiting co (p\<lparr>p_wakeup := cos\<rparr>) = Some r1"
        by (auto split: option.splits)
      from resume_co_wf [OF h wf_pop_wakeup [OF wf Cons] r1] eq Cons r1 show ?thesis
        by (cases r1) (use IH h in auto)
    qed
  qed
  with assms(2,3) show ?thesis by blast
qed

lemma wf_wake_inbox: "wf_owned R p \<Longrightarrow> wf_owned R (wake_inbox p)"
  by (auto simp: wake_inbox_def intro!: same_tables_wf [OF same_tables_ops(9)] wf_wakeup split: option.splits)

lemma run_loop_wf:
  assumes "run_loop seg p = Some r" "honest A I seg" "wf_owned {#} p"
  shows "outcome_inv (\<lambda>q. wf_owned {#} q \<and> \<not> run_ready q) (wf_owned {#}) r"
proof -
  let ?Q = "outcome_inv (\<lambda>q. wf_owned {#} q \<and> \<not> run_ready q) (wf_owned {#})"
  have "honest A I seg \<longrightarrow> wf_owned {#} p \<longrightarrow> ?Q r"
  proof (rule run_loop.raw_induct [OF _ assms(1),
        where P = "\<lambda>seg p r. honest A I seg \<longrightarrow> wf_owned {#} p \<longrightarrow> ?Q r"], intro impI)
    fix f seg p r
    assume IH: "\<And>seg p r. f seg p = Some r \<Longrightarrow> honest A I seg \<longrightarrow> wf_owned {#} p \<longrightarrow> ?Q r"
      and eq: "(if \<not> run_ready p then Some (Normal p)
        else case drain_spawn seg p of None \<Rightarrow> None
        | Some r1 \<Rightarrow> (case r1 of
            Normal p1 \<Rightarrow> (case drain_wakeup seg False p1 of None \<Rightarrow> None
              | Some r2 \<Rightarrow> (case r2 of Normal p2 \<Rightarrow> f seg (wake_inbox p2)
                  | ExitThrown p2 \<Rightarrow> Some (ExitThrown p2) | UseAfterFree \<Rightarrow> Some UseAfterFree))
          | ExitThrown p1 \<Rightarrow> Some (ExitThrown p1) | UseAfterFree \<Rightarrow> Some UseAfterFree)) = Some r"
      and h: "honest A I seg" and wf: "wf_owned {#} p"
    show "?Q r"
    proof (cases "run_ready p")
      case False
      with eq wf show ?thesis by auto
    next
      case True
      with eq obtain r1 where r1: "drain_spawn seg p = Some r1" by (auto split: option.splits)
      note s1 = drain_spawn_wf [OF r1 h wf]
      show ?thesis
      proof (cases r1)
        case (Normal p1)
        with True r1 eq obtain r2 where r2: "drain_wakeup seg False p1 = Some r2"
          by (auto split: option.splits)
        from s1 Normal have "wf_owned {#} p1" by simp
        note s2 = drain_wakeup_wf [OF r2 h this]
        show ?thesis
        proof (cases r2)
          case (Normal p2)
          with s2 have "wf_owned {#} (wake_inbox p2)" by (intro wf_wake_inbox) simp
          moreover have "f seg (wake_inbox p2) = Some r"
            using True r1 eq \<open>r1 = Normal p1\<close> r2 Normal by simp
          ultimately show ?thesis using IH h by blast
        qed (use True r1 eq \<open>r1 = Normal p1\<close> r2 s2 in auto)
      qed (use s1 True r1 eq in auto)
    qed
  qed
  with assms(2,3) show ?thesis by blast
qed

text \<open>Sweeping destroys each zombie once.\<close>

lemma destroy_all_once:
  "distinct zs \<Longrightarrow> \<forall>c\<in>set zs. p_cos p c \<noteq> None \<Longrightarrow>
    destroy_all zs p = Normal (p\<lparr>p_cos := (\<lambda>c. if c \<in> set zs then None else p_cos p c)\<rparr>)"
proof (induction zs arbitrary: p)
  case (Cons z zs)
  let ?p = "p\<lparr>p_cos := (p_cos p)(z := None)\<rparr>"
  have "destroy_all zs ?p = Normal (?p\<lparr>p_cos := (\<lambda>c. if c \<in> set zs then None else p_cos ?p c)\<rparr>)"
    using Cons.prems by (intro Cons.IH) auto
  moreover have "(\<lambda>c. if c \<in> set zs then None else p_cos ?p c) = (\<lambda>c. if c \<in> set (z # zs) then None else p_cos p c)"
    by (rule ext) simp
  ultimately have "destroy_all zs ?p = Normal (p\<lparr>p_cos := (\<lambda>c. if c \<in> set (z # zs) then None else p_cos p c)\<rparr>)"
    by (simp only: process.update_convs process.select_convs) simp
  with Cons.prems show ?case by (simp only: destroy_all.simps list.set_intros if_False)
qed simp

lemma count_le_1_distinct: "(\<And>c. count (mset xs) c \<le> 1) \<Longrightarrow> distinct xs"
  unfolding distinct_count_atmost_1
  by (metis One_nat_def count_eq_zero_iff count_inI le_antisym not_gr_zero set_mset_mset Suc_leI)

lemma sweep_wf:
  assumes wf: "wf_owned {#} p"
  shows "\<exists>q. sweep_zombies p = Normal q \<and> wf_owned {#} q \<and>
    q = p\<lparr>p_cos := (\<lambda>c. if c \<in> set (p_zombie p) then None else p_cos p c), p_zombie := []\<rparr>"
proof -
  let ?q = "p\<lparr>p_cos := (\<lambda>c. if c \<in> set (p_zombie p) then None else p_cos p c), p_zombie := []\<rparr>"
  have le: "count (mset (p_zombie p)) c \<le> 1" for c
    using wf_count_le [OF wf, of c] by (simp add: owned_def)
  have "destroy_all (p_zombie p) p = Normal (p\<lparr>p_cos := (\<lambda>c. if c \<in> set (p_zombie p) then None else p_cos p c)\<rparr>)"
    using le wf_allocated [OF wf] by (intro destroy_all_once count_le_1_distinct) (auto simp: owned_def)
  moreover have "wf_owned {#} ?q"
    unfolding wf_owned_def
  proof (intro conjI allI)
    fix c
    have "count (owned p) c = count (owned ?q) c + count (mset (p_zombie p)) c"
      by (simp add: owned_def)
    moreover have "count (mset (p_zombie p)) c = (if c \<in> set (p_zombie p) then 1 else 0)"
      using count_le_1_distinct [OF le] by (simp add: distinct_count_atmost_1)
    ultimately show "count (owned ?q + {#}) c = of_bool (p_cos ?q c \<noteq> None)"
      using wf_owned_count [OF wf, of c] by (auto split: if_splits)
  qed (use wf in \<open>simp add: wf_owned_def\<close>)
  ultimately show ?thesis by (simp add: sweep_zombies_def)
qed

lemma proc_run_wf:
  assumes "proc_run seg p = Some r" "honest A I seg" "wf_owned {#} p"
  shows "outcome_inv (\<lambda>q. wf_owned {#} q \<and> \<not> run_ready q \<and> p_zombie q = []) (wf_owned {#}) r"
proof -
  obtain r1 where r1: "run_loop seg p = Some r1"
    using assms(1) by (auto simp: proc_run_def split: option.splits)
  note s = run_loop_wf [OF r1 assms(2,3)]
  show ?thesis
  proof (cases r1)
    case (Normal q)
    with s sweep_wf [of q] obtain q' where "sweep_zombies q = Normal q'" "wf_owned {#} q'"
        "q' = q\<lparr>p_cos := (\<lambda>c. if c \<in> set (p_zombie q) then None else p_cos q c), p_zombie := []\<rparr>"
      by auto
    with assms(1) r1 Normal s show ?thesis by (auto simp: proc_run_def run_ready_def)
  qed (use assms(1) r1 s in \<open>auto simp: proc_run_def\<close>)
qed

end
