(* ===== verification/Process_Exit.thy ===== *)
theory Process_Exit
  imports Process_Safety
begin

text \<open>
  The exit of a process (\<^verbatim>\<open>Process::exit\<close> of \<^verbatim>\<open>src/process.cpp\<close>): it is safe, it destroys every
  coroutine, and it terminates when interrupted coroutines unwind.
\<close>

section \<open>Interrupting\<close>

definition interrupted :: "exn \<Rightarrow> co list \<Rightarrow> ('v, 'l, 'i, 'h) process \<Rightarrow> ('v, 'l, 'i, 'h) process" where
  "interrupted e cs p =
     p\<lparr>p_cos := (\<lambda>c. if c \<in> set cs then map_option (set_exception e) (p_cos p c) else p_cos p c),
       p_wakeup := p_wakeup p @ cs\<rparr>"

lemma set_exception_twice: "set_exception e (set_exception e c) = set_exception e c"
  by (simp add: set_exception_def)

lemma interrupt_all_eq:
  "\<forall>c\<in>set cs. p_cos p c \<noteq> None \<Longrightarrow> interrupt_all e cs p = Normal (interrupted e cs p)"
proof (induction cs arbitrary: p)
  case Nil
  then show ?case by (simp add: interrupted_def)
next
  case (Cons c cs)
  then obtain d where d: "p_cos p c = Some d" by auto
  let ?p = "p\<lparr>p_cos := (p_cos p)(c := Some (set_exception e d)), p_wakeup := p_wakeup p @ [c]\<rparr>"
  have "interrupt_all e cs ?p = Normal (interrupted e cs ?p)"
    using Cons.prems by (intro Cons.IH) auto
  moreover have "interrupted e cs ?p = interrupted e (c # cs) p"
  proof -
    have "(\<lambda>x. if x \<in> set cs then map_option (set_exception e) (p_cos ?p x) else p_cos ?p x) =
        (\<lambda>x. if x \<in> set (c # cs) then map_option (set_exception e) (p_cos p x) else p_cos p x)"
      using d by (intro ext) (simp add: set_exception_twice)
    then show ?thesis by (simp add: interrupted_def)
  qed
  ultimately show ?case using d by simp
qed

lemma dom_interrupted: "dom (p_cos (interrupted e cs p)) = dom (p_cos p)"
  by (auto simp: interrupted_def dom_def)

text \<open>Both interrupts together: everything that waited is ready, with the exception stored.\<close>

definition all_interrupted :: "('v, 'l, 'i, 'h) process \<Rightarrow> ('v, 'l, 'i, 'h) process" where
  "all_interrupted p = (interrupted CoroutineExit (map snd (p_block p) @ p_suspend p) p)\<lparr>p_block := [], p_suspend := []\<rparr>"

lemma interrupted_append: "interrupted e ds (interrupted e cs p) = interrupted e (cs @ ds) p"
proof -
  have "(\<lambda>x. if x \<in> set ds then map_option (set_exception e) (p_cos (interrupted e cs p) x) else p_cos (interrupted e cs p) x)
    = (\<lambda>x. if x \<in> set (cs @ ds) then map_option (set_exception e) (p_cos p x) else p_cos p x)"
    by (rule ext) (auto simp: interrupted_def set_exception_twice option.map_comp comp_def)
  then show ?thesis by (simp add: interrupted_def [of _ ds] interrupted_def [of _ "cs @ ds"]) (simp add: interrupted_def)
qed

lemma interrupted_no_block:
  "interrupted e cs (p\<lparr>p_block := []\<rparr>) = (interrupted e cs p)\<lparr>p_block := []\<rparr>"
  by (simp add: interrupted_def cong: if_cong)

lemma interrupt_waiting_eq:
  assumes "wf_owned {#} p"
  shows "interrupt_waiting p = Normal (all_interrupted p)"
proof -
  have al: "\<forall>c \<in> set (map snd (p_block p) @ p_suspend p). p_cos p c \<noteq> None"
    using wf_allocated [OF assms] by (auto simp: owned_def)
  let ?p1 = "(interrupted CoroutineExit (map snd (p_block p)) p)\<lparr>p_block := []\<rparr>"
  have b: "interrupt_block_coroutines CoroutineExit p = Normal ?p1"
    using al by (simp add: interrupt_block_coroutines_def interrupt_all_eq)
  have "\<forall>c\<in>set (p_suspend p). p_cos ?p1 c \<noteq> None"
    using al by (auto simp: interrupted_def)
  moreover have "p_suspend ?p1 = p_suspend p" by (simp add: interrupted_def)
  ultimately have "interrupt_suspend_coroutines CoroutineExit ?p1
      = Normal ((interrupted CoroutineExit (p_suspend p) ?p1)\<lparr>p_suspend := []\<rparr>)"
    by (simp add: interrupt_suspend_coroutines_def interrupt_all_eq)
  moreover have "(interrupted CoroutineExit (p_suspend p) ?p1)\<lparr>p_suspend := []\<rparr> = all_interrupted p"
    unfolding all_interrupted_def interrupted_append [symmetric] interrupted_no_block by simp
  ultimately show ?thesis using b by (simp add: interrupt_waiting_def)
qed

lemma all_interrupted_wf:
  assumes "wf_owned {#} p"
  shows "wf_owned {#} (all_interrupted p)"
proof -
  have "owned (all_interrupted p) = owned p"
    by (simp add: all_interrupted_def interrupted_def owned_def ac_simps)
  with assms dom_interrupted show ?thesis
    by (auto simp: wf_owned_def all_interrupted_def interrupted_def)
qed

lemma all_interrupted_fields [proc_simps]:
  "p_block (all_interrupted p) = []" "p_suspend (all_interrupted p) = []"
  "p_wakeup (all_interrupted p) = p_wakeup p @ map snd (p_block p) @ p_suspend p"
  by (simp_all add: all_interrupted_def interrupted_def)

section \<open>Safety of the exit\<close>

lemma exit_loop_wf:
  assumes "exit_loop seg p = Some r" "honest A I seg" "wf_owned {#} p"
  shows "outcome_inv (\<lambda>q. wf_owned {#} q \<and> p_wakeup q = [] \<and> p_suspend q = [] \<and> p_block q = []) (\<lambda>_. False) r"
proof -
  let ?Q = "outcome_inv (\<lambda>q. wf_owned {#} q \<and> p_wakeup q = [] \<and> p_suspend q = [] \<and> p_block q = []) (\<lambda>_. False)"
  have "honest A I seg \<longrightarrow> wf_owned {#} p \<longrightarrow> ?Q r"
  proof (rule exit_loop.raw_induct [OF _ assms(1),
        where P = "\<lambda>seg p r. honest A I seg \<longrightarrow> wf_owned {#} p \<longrightarrow> ?Q r"], intro impI)
    fix f seg p r
    assume IH: "\<And>seg p r. f seg p = Some r \<Longrightarrow> honest A I seg \<longrightarrow> wf_owned {#} p \<longrightarrow> ?Q r"
      and eq: "(case interrupt_waiting p of
          Normal p1 \<Rightarrow> (if p_wakeup p1 = [] then Some (Normal p1)
            else case drain_wakeup seg True p1 of None \<Rightarrow> None
            | Some r \<Rightarrow> (case r of Normal p2 \<Rightarrow> f seg p2
                | ExitThrown p2 \<Rightarrow> Some (ExitThrown p2) | UseAfterFree \<Rightarrow> Some UseAfterFree))
        | ExitThrown p1 \<Rightarrow> Some (ExitThrown p1) | UseAfterFree \<Rightarrow> Some UseAfterFree) = Some r"
      and h: "honest A I seg" and wf: "wf_owned {#} p"
    let ?p1 = "all_interrupted p"
    note wf1 = all_interrupted_wf [OF wf]
    show "?Q r"
    proof (cases "p_wakeup ?p1 = []")
      case True
      with eq wf1 show ?thesis by (auto simp: interrupt_waiting_eq [OF wf] proc_simps)
    next
      case False
      with eq obtain r1 where r1: "drain_wakeup seg True ?p1 = Some r1"
        by (auto simp: interrupt_waiting_eq [OF wf] split: option.splits)
      from drain_wakeup_wf [OF r1 h wf1] eq r1 False show ?thesis
        by (cases r1) (use IH h in \<open>auto simp: interrupt_waiting_eq [OF wf]\<close>)
    qed
  qed
  with assms(2,3) show ?thesis by blast
qed

lemma abandon_wf: "wf_owned {#} p \<Longrightarrow> wf_owned {#} (abandon_spawn p)"
  by (erule wf_cong) (simp_all add: abandon_spawn_def owned_def ac_simps)

definition all_gone :: "('v, 'l, 'i, 'h) process \<Rightarrow> bool" where
  "all_gone p \<longleftrightarrow> owned p = {#} \<and> p_cos p = (\<lambda>_. None)"

lemma sweep_abandoned:
  assumes "wf_owned {#} q" "p_wakeup q = []" "p_suspend q = []" "p_block q = []"
  shows "\<exists>q'. sweep_zombies (abandon_spawn q) = Normal q' \<and> all_gone q'"
proof -
  obtain q' where q': "sweep_zombies (abandon_spawn q) = Normal q'" "wf_owned {#} q'"
      "q' = (abandon_spawn q)\<lparr>p_cos := (\<lambda>c. if c \<in> set (p_zombie (abandon_spawn q)) then None
          else p_cos (abandon_spawn q) c), p_zombie := []\<rparr>"
    using sweep_wf [OF abandon_wf [OF assms(1)]] by blast
  have "owned q' = {#}" using assms(2-4) q'(3) by (simp add: owned_def abandon_spawn_def)
  moreover from this have "p_cos q' c = None" for c using wf_owned_count [OF q'(2), of c] by simp
  ultimately show ?thesis using q'(1) by (auto simp: all_gone_def)
qed

lemma proc_exit_wf:
  assumes "proc_exit seg p = Some r" "honest A I seg" "wf_owned {#} p"
  shows "outcome_inv all_gone (\<lambda>_. False) r"
proof -
  obtain r1 where r1: "exit_loop seg p = Some r1"
    using assms(1) by (auto simp: proc_exit_def split: option.splits)
  from exit_loop_wf [OF r1 assms(2,3)] obtain q where q: "r1 = Normal q" "wf_owned {#} q"
      "p_wakeup q = []" "p_suspend q = []" "p_block q = []"
    by (cases r1) auto
  from sweep_abandoned [OF q(2-5)] show ?thesis
    using assms(1) r1 q(1) by (auto simp: proc_exit_def)
qed

section \<open>Termination of the exit\<close>

text \<open>An interrupted coroutine, when resumed, comes back.\<close>

definition unwinds :: "(co \<Rightarrow> ('v, 'l, 'i, 'h) process \<Rightarrow> ('v, 'l, 'i, 'h) process option) \<Rightarrow> bool" where
  "unwinds seg \<longleftrightarrow> (\<forall>co p. exc_of p co \<noteq> None \<longrightarrow> seg co p \<noteq> None)"

text \<open>Everything that is left is ready and carries an exception.\<close>

definition draining :: "('v, 'l, 'i, 'h) process \<Rightarrow> bool" where
  "draining p \<longleftrightarrow> p_suspend p = [] \<and> p_block p = [] \<and> (\<forall>c\<in>set (p_wakeup p). exc_of p c \<noteq> None)"

lemma api_quiet:
  assumes "api A I co p q" "p_suspend p = []" "wf_owned R p" "co \<in># R"
  shows "p_suspend q = [] \<and> p_block q = p_block p \<and> p_wakeup q = p_wakeup p"
proof (cases "same_tables p q")
  case True
  with assms(2) show ?thesis by (simp add: same_tables_def)
next
  case False
  from assms(1) show ?thesis
  proof cases
    case (api_serve c a)
    with serve_take_frame [OF api_serve(2,1) assms(3,4)] assms(2) show ?thesis by simp
  qed (use False assms(2) in \<open>simp_all add: proc_simps proc_spawn_def proc_wakeup_def\<close>)
qed

lemma api_steps_quiet:
  "(api A I co)\<^sup>*\<^sup>* p q \<Longrightarrow> p_suspend p = [] \<Longrightarrow> wf_owned R p \<Longrightarrow> co \<in># R \<Longrightarrow>
    p_suspend q = [] \<and> p_block q = p_block p \<and> p_wakeup q = p_wakeup p"
proof (induction rule: rtranclp_induct)
  case (step q r)
  have "wf_owned R q" using api_steps_frame [OF step.hyps(1)] step.prems by blast
  with step show ?case using api_quiet [OF step.hyps(2)] by metis
qed simp

text \<open>A coroutine with a stored exception can only finish.\<close>

lemma segment_finishes:
  assumes "segment A I co p p'" "wf_owned {#co#} p" "exc_of p co \<noteq> None"
  obtains q c thrown where "(api A I co)\<^sup>*\<^sup>* p q" "p_cos q co = Some c"
    "p' = q\<lparr>p_cos := (p_cos q)(co := Some (run_finish thrown c))\<rparr>"
proof -
  obtain q where q: "(api A I co)\<^sup>*\<^sup>* p q" "switch_back A I co q p'"
    using assms(1) by (auto simp: segment_def)
  have "p_cos p co \<noteq> None" using assms(3) by (cases "p_cos p co") (auto simp: exc_of_def)
  with api_steps_frame [OF q(1) assms(2)] assms(3) have "exc_of q co \<noteq> None" by simp
  then have "\<not> may_wait co q" by (auto simp: may_wait_def exc_of_def)
  with q(2) obtain c thrown where "p_cos q co = Some c"
      "p' = q\<lparr>p_cos := (p_cos q)(co := Some (run_finish thrown c))\<rparr>"
    by (auto elim: switch_back.cases)
  with q(1) show thesis by (rule that)
qed

lemma resume_draining:
  assumes h: "honest A I seg" and u: "unwinds seg"
    and wf: "wf_owned {#} p" and d: "draining p" and w: "p_wakeup p = co # cos"
  shows "\<exists>q. resume_co seg True co (p\<lparr>p_wakeup := cos\<rparr>) = Some (Normal q) \<and>
    wf_owned {#} q \<and> draining q \<and> p_wakeup q = cos"
proof -
  let ?p = "p\<lparr>p_wakeup := cos\<rparr>"
  have wf1: "wf_owned {#co#} ?p" using wf w by (rule wf_pop_wakeup)
  have al: "p_cos ?p co \<noteq> None" using wf_allocated [OF wf1] by simp
  have ex: "exc_of ?p co \<noteq> None" using d w by (simp add: draining_def exc_of_def)
  then obtain p' where p': "seg co ?p = Some p'" using u by (auto simp: unwinds_def)
  then have "segment A I co ?p p'" using h al by (auto simp: honest_def)
  then obtain q c thrown where q: "(api A I co)\<^sup>*\<^sup>* ?p q" "p_cos q co = Some c"
      "p' = q\<lparr>p_cos := (p_cos q)(co := Some (run_finish thrown c))\<rparr>"
    using wf1 ex by (rule segment_finishes)
  have quiet: "p_suspend q = [] \<and> p_block q = [] \<and> p_wakeup q = cos"
    using api_steps_quiet [OF q(1) _ wf1] d by (simp add: draining_def)
  have frame: "p_cos ?p x \<noteq> None \<longrightarrow> exc_of q x = exc_of ?p x" for x
    using api_steps_frame [OF q(1) wf1] by simp
  let ?c = "run_finish thrown c"
  let ?q = "q\<lparr>p_cos := (p_cos q)(co := Some ?c), p_zombie := p_zombie q @ [co]\<rparr>"
  have r: "resume_co seg True co ?p = Some (Normal ?q)"
    using al p' q(2,3)
    by (auto simp: resume_co_def get_result_def proc_simps Let_def split: option.splits exn.splits)
  moreover have "wf_owned {#} ?q" using resume_co_wf [OF h wf1 r] by simp
  moreover have "draining ?q"
    unfolding draining_def
  proof (intro conjI ballI)
    fix x assume "x \<in> set (p_wakeup ?q)"
    then have "x \<in> set (p_wakeup p)" using quiet w by auto
    moreover from this have "p_cos p x \<noteq> None" using wf_allocated [OF wf] by (simp add: owned_def)
    ultimately show "exc_of ?q x \<noteq> None"
      using d frame [of x] by (auto simp: draining_def exc_of_def proc_simps)
  qed (use quiet in auto)
  ultimately show ?thesis using quiet by auto
qed

lemma drain_draining:
  assumes "honest A I seg" "unwinds seg" "wf_owned {#} p" "draining p"
  shows "\<exists>q. drain_wakeup seg True p = Some (Normal q) \<and> wf_owned {#} q \<and> draining q \<and> p_wakeup q = []"
  using assms(3,4)
proof (induction "p_wakeup p" arbitrary: p)
  case Nil
  then show ?case by (subst drain_wakeup.simps) auto
next
  case (Cons co cos)
  from Cons(2) [symmetric] obtain q where q: "resume_co seg True co (p\<lparr>p_wakeup := cos\<rparr>) = Some (Normal q)"
      "wf_owned {#} q" "draining q" "p_wakeup q = cos"
    using resume_draining [OF assms(1,2) Cons(3,4)] by blast
  with Cons(1) [of q] Cons(2) [symmetric] show ?case by (subst drain_wakeup.simps) auto
qed

lemma exit_loop_draining:
  assumes "wf_owned {#} p" "draining p" "p_wakeup p = []"
  shows "exit_loop seg p = Some (Normal (all_interrupted p))"
  using assms by (subst exit_loop.simps) (simp add: interrupt_waiting_eq proc_simps draining_def)

lemma proc_exit_total:
  assumes h: "honest A I seg" and u: "unwinds seg" and wf: "wf_owned {#} p" and w: "p_wakeup p = []"
  shows "\<exists>q. proc_exit seg p = Some (Normal q) \<and> all_gone q"
proof -
  let ?p1 = "all_interrupted p"
  have wf1: "wf_owned {#} ?p1" using wf by (rule all_interrupted_wf)
  have "exc_of ?p1 c \<noteq> None" if "c \<in> set (map snd (p_block p) @ p_suspend p)" for c
  proof -
    have "p_cos p c \<noteq> None" using wf_allocated [OF wf] that by (auto simp: owned_def)
    with that show ?thesis
      by (auto simp: exc_of_def all_interrupted_def interrupted_def set_exception_def)
  qed
  then have d1: "draining ?p1" using w by (auto simp: draining_def proc_simps)
  have "\<exists>q. exit_loop seg p = Some (Normal q) \<and> wf_owned {#} q \<and> p_wakeup q = [] \<and> p_suspend q = [] \<and> p_block q = []"
  proof (cases "p_wakeup ?p1 = []")
    case True
    then show ?thesis
      using wf1 by (subst exit_loop.simps) (simp add: interrupt_waiting_eq [OF wf] proc_simps)
  next
    case False
    obtain q where q: "drain_wakeup seg True ?p1 = Some (Normal q)" "wf_owned {#} q" "draining q" "p_wakeup q = []"
      using drain_draining [OF h u wf1 d1] by blast
    have "exit_loop seg p = exit_loop seg q"
      using False q(1) by (subst exit_loop.simps) (simp add: interrupt_waiting_eq [OF wf])
    with exit_loop_draining [OF q(2-4)] all_interrupted_wf [OF q(2)] q(3,4) show ?thesis
      by (auto simp: proc_simps draining_def)
  qed
  then obtain q where q: "exit_loop seg p = Some (Normal q)" "wf_owned {#} q" "p_wakeup q = []"
      "p_suspend q = []" "p_block q = []" by blast
  from sweep_abandoned [OF q(2-5)] q(1) show ?thesis by (auto simp: proc_exit_def)
qed

end
