(* ===== verification/Process_Props.thy ===== *)
theory Process_Props
  imports Process_Exit
begin

text \<open>
  What a process promises: one turn of it is safe and decides rightly whether it is down, a
  killed process unwinds and disappears, messages reach the coroutine or the inbox they are
  for, and the destructor answers every request that is still open.
\<close>

section \<open>A small process for the witnesses\<close>

text \<open>A coroutine that waits until it is interrupted, and then finishes.\<close>

definition patient :: "co \<Rightarrow> ('v, 'l, 'i, 'h) process \<Rightarrow> ('v, 'l, 'i, 'h) process option" where
  "patient co p =
     (case p_cos p co of
        None \<Rightarrow> None
      | Some c \<Rightarrow>
          Some (if co_exception c = None then proc_suspend co p
                else p\<lparr>p_cos := (p_cos p)(co := Some (run_finish None c))\<rparr>))"

lemma honest_patient: "honest A I (patient :: co \<Rightarrow> ('v, 'l, 'i, 'h) process \<Rightarrow> _)"
proof -
  have "segment A I co p p'" if "patient co p = Some p'" for co and p p' :: "('v, 'l, 'i, 'h) process"
  proof -
    from that obtain c where c: "p_cos p co = Some c" by (auto simp: patient_def split: option.splits)
    show ?thesis
    proof (cases "co_exception c")
      case None
      with that c have "p' = proc_suspend co p" by (simp add: patient_def)
      moreover have "may_wait co p" using c None by (simp add: may_wait_def)
      ultimately show ?thesis by (auto simp: segment_def intro: switch_back.by_suspend)
    next
      case (Some e)
      with that c switch_back.by_finish [OF c, of A I None] show ?thesis
        by (auto simp: segment_def patient_def)
    qed
  qed
  then show ?thesis by (simp add: honest_def)
qed

lemma unwinds_patient: "unwinds patient"
  by (auto simp: unwinds_def patient_def exc_of_def split: option.splits)

lemma wf_create: "wf_owned {#} (proc_create co pid mb ids)"
  by (simp add: proc_create_def proc_new_def proc_spawn_def wf_owned_def owned_def)

abbreviation count_ops :: "uint32 alloc_ops" where
  "count_ops \<equiv> \<lparr>ia_new = (\<lambda>i. (i + 1, i + 1)), ia_erase = (\<lambda>_ i. i)\<rparr>"

type_synonym small = "(nat, nat message list, uint32, unit) process"

definition small_new :: small where
  "small_new = proc_create 5 (process_t 1) (mailbox_new queue_ops) 0"

definition small_waiting :: small where
  "small_waiting = small_new\<lparr>p_spawn := [], p_suspend := [5]\<rparr>"

lemma small_wf: "wf_owned {#} small_new"
  by (simp add: small_new_def wf_create)

lemma small_run: "proc_run patient small_new = Some (Normal small_waiting)"
proof -
  have "resume_co patient False 5 (small_new\<lparr>p_spawn := []\<rparr>) = Some (Normal small_waiting)"
    by (simp add: resume_co_def patient_def small_waiting_def small_new_def proc_create_def proc_new_def
        proc_spawn_def coroutine_new_def proc_suspend_def get_result_def)
  moreover have "p_spawn small_new = [5]" "p_spawn small_waiting = []" "p_wakeup small_waiting = []"
      "run_ready small_new" "\<not> run_ready small_waiting" "wake_inbox small_waiting = small_waiting"
      "p_zombie small_waiting = []" "small_waiting\<lparr>p_zombie := []\<rparr> = small_waiting"
    by (simp_all add: small_waiting_def small_new_def proc_create_def proc_new_def proc_spawn_def
        run_ready_def wake_inbox_def)
  ultimately show ?thesis
    by (simp add: proc_run_def run_loop.simps [of _ small_new] run_loop.simps [of _ small_waiting]
        drain_spawn.simps [of _ small_new] drain_spawn.simps [of _ small_waiting]
        drain_wakeup.simps sweep_zombies_def)
qed

lemma small_waiting_wf: "wf_owned {#} small_waiting"
  using proc_run_wf [OF small_run honest_patient small_wf] by simp

section \<open>One turn\<close>

text \<open>The loop of a process never touches a destroyed coroutine. When it returns, every coroutine
  is in exactly one table, nothing is ready to run, no message waits while a coroutine waits
  for one, and the finished coroutines have been freed; when it is left by \<^verbatim>\<open>process::exit\<close> the
  tables are still sound.\<close>

theorem run_safe:
  assumes "honest A I seg" "wf_owned {#} p" "proc_run seg p = Some r"
  shows "(\<exists>q. r = Normal q \<and> wf_owned {#} q \<and> p_spawn q = [] \<and> p_wakeup q = [] \<and> p_zombie q = [] \<and>
      (p_inbox q = [] \<or> p_inbox_coroutine q = None)) \<or>
    (\<exists>q. r = ExitThrown q \<and> wf_owned {#} q)"
  using proc_run_wf [OF assms(3,1,2)] by (cases r) (auto simp: run_ready_def)

theorem run_safe_witness:
  "proc_run patient small_new = Some (Normal small_waiting) \<and> wf_owned {#} small_waiting \<and>
    p_suspend small_waiting = [5]"
  using run_safe [OF honest_patient small_wf small_run]
  by (simp add: small_run) (simp add: small_waiting_def)

lemma owned_empty: "owned p = {#} \<Longrightarrow> wf_owned {#} p \<Longrightarrow> all_gone p"
proof -
  assume *: "owned p = {#}" "wf_owned {#} p"
  have "p_cos p c = None" for c using wf_owned_count [OF *(2), of c] *(1) by simp
  with * show ?thesis by (auto simp: all_gone_def)
qed

lemma proc_dispatch_wf:
  assumes "honest A I seg" "wf_owned {#} p" "proc_dispatch seg p = Some r"
  shows "\<exists>alive q. r = Normal (alive, q) \<and> wf_owned {#} q \<and> (\<not> alive \<longrightarrow> all_gone q) \<and>
    (alive \<longrightarrow> p_wakeup q = [] \<and> (p_block q \<noteq> [] \<or> p_suspend q \<noteq> []))"
proof -
  obtain r1 where r1: "proc_run seg p = Some r1"
    using assms(3) by (auto simp: proc_dispatch_def split: option.splits)
  note s1 = proc_run_wf [OF r1 assms(1,2)]
  show ?thesis
  proof (cases r1)
    case (Normal q)
    moreover from this s1 have q: "wf_owned {#} q" "\<not> run_ready q" "p_zombie q = []" by simp_all
    moreover have "all_gone q" if "p_block q = []" "p_suspend q = []"
      using q that by (intro owned_empty) (simp_all add: owned_def run_ready_def)
    ultimately show ?thesis using assms(3) r1 by (auto simp: proc_dispatch_def run_ready_def)
  next
    case (ExitThrown q)
    then have wf: "wf_owned {#} q" using s1 by simp
    obtain r2 where r2: "proc_exit seg q = Some r2"
      using assms(3) r1 ExitThrown by (auto simp: proc_dispatch_def split: option.splits)
    from proc_exit_wf [OF r2 assms(1) wf] obtain q' where q': "r2 = Normal q'" "all_gone q'"
      by (cases r2) auto
    then have "wf_owned {#} q'" by (simp add: all_gone_def wf_owned_def owned_def)
    with q' assms(3) r1 ExitThrown r2 show ?thesis by (auto simp: proc_dispatch_def)
  next
    case UseAfterFree
    with s1 show ?thesis by simp
  qed
qed

lemma mset_delete_key:
  "(k, v) \<in> set ps \<Longrightarrow> distinct (map fst ps) \<Longrightarrow> mset ps = add_mset (k, v) (mset (AList.delete k ps))"
proof (induction ps)
  case (Cons x ps)
  show ?case
  proof (cases "fst x = k")
    case True
    with Cons.prems have "x = (k, v)" by (cases x) (auto simp: rev_image_eqI)
    moreover have "AList.delete k ps = ps"
      using Cons.prems True by (simp add: delete_idem)
    ultimately show ?thesis using True by (cases x) simp
  next
    case False
    with Cons show ?thesis by (cases x) (auto simp: add_mset_commute)
  qed
qed simp

lemma deliver_response_wf:
  assumes "wf_owned {#} p" "\<not> all_gone p"
  shows "\<exists>q. deliver_response msg p = Normal (kResume, q) \<and> wf_owned {#} q \<and> \<not> all_gone q"
proof (cases "map_of (p_block p) (sessionForResponse (msg_session msg))")
  case None
  with assms show ?thesis by (simp add: deliver_response_def proc_unblock_def)
next
  case (Some co)
  let ?s = "sessionForResponse (msg_session msg)"
  from Some have mem: "(?s, co) \<in> set (p_block p)" by (rule map_of_SomeD)
  then have "co \<in># owned p" by (force simp: owned_def)
  with wf_allocated [OF assms(1)] obtain c where c: "p_cos p co = Some c" by fastforce
  have dist: "distinct (map fst (p_block p))" using assms(1) by (simp add: wf_owned_def)
  define c' where "c' = (case cast_exception (msg_content msg) of
    Some e \<Rightarrow> set_exception e c | None \<Rightarrow> set_result (msg_content msg) c)"
  let ?q = "p\<lparr>p_block := AList.delete ?s (p_block p), p_cos := (p_cos p)(co := Some c'),
    p_wakeup := p_wakeup p @ [co]\<rparr>"
  have "deliver_response msg p = Normal (kResume, ?q)"
    using Some c by (simp add: deliver_response_def proc_unblock_def c'_def Let_def)
  moreover have "mset (p_block p) = add_mset (?s, co) (mset (AList.delete ?s (p_block p)))"
    using mem dist by (rule mset_delete_key)
  then have own: "owned ?q = owned p" by (simp add: owned_def)
  then have "wf_owned {#} ?q"
    using assms(1) c dist by (auto simp: wf_owned_def distinct_delete)
  moreover have "\<not> all_gone ?q" by (simp add: all_gone_def owned_def)
  ultimately show ?thesis by blast
qed

lemma deliver_wf:
  assumes "honest A I seg" "wf_owned {#} p" "\<not> all_gone p" "proc_deliver seg msg p = Some r"
  shows "\<exists>res q. r = Normal (res, q) \<and> wf_owned {#} q \<and> (res = kDown \<longleftrightarrow> all_gone q)"
proof -
  have push: "wf_owned {#} (inbox_push msg q) \<and> \<not> all_gone (inbox_push msg q)"
    if "same_tables p q" for q
    using that same_tables_wf [OF same_tables_trans [OF that same_tables_ops(11)] assms(2)] assms(3)
    by (simp add: all_gone_def owned_def inbox_push_def same_tables_def)
  show ?thesis
  proof (cases "typeOfMessage msg")
    case kNotify
    show ?thesis
    proof (cases "any_type (msg_content msg) = TypeKill")
      case True
      then obtain r2 where r2: "proc_exit seg p = Some r2"
        using assms(4) kNotify by (auto simp: proc_deliver_def split: option.splits)
      from proc_exit_wf [OF r2 assms(1,2)] obtain q where "r2 = Normal q" "all_gone q"
        by (cases r2) auto
      moreover from this have "wf_owned {#} q" by (simp add: all_gone_def wf_owned_def owned_def)
      ultimately show ?thesis using assms(4) kNotify True r2 by (auto simp: proc_deliver_def)
    next
      case False
      with push [of p] assms(4) kNotify show ?thesis by (auto simp: proc_deliver_def same_tables_def)
    qed
  next
    case kRequest
    with push [OF same_tables_ops(12)] assms(4) show ?thesis by (auto simp: proc_deliver_def)
  next
    case kResponse
    with deliver_response_wf [OF assms(2,3), of msg] assms(4) show ?thesis
      by (auto simp: proc_deliver_def)
  qed
qed

lemma turn_wf:
  assumes h: "honest A I seg" and wf: "wf_owned {#} p" and r: "proc_resume B seg p = Some r"
  shows "\<exists>res q. r = Normal (res, q) \<and> wf_owned {#} q \<and> (res = kDown \<longleftrightarrow> all_gone q)"
proof -
  obtain r1 where r1: "proc_dispatch seg p = Some r1"
    using r by (auto simp: proc_resume_def split: option.splits)
  from proc_dispatch_wf [OF h wf this] obtain alive q where q: "r1 = Normal (alive, q)" "wf_owned {#} q"
      "\<not> alive \<longrightarrow> all_gone q" "alive \<longrightarrow> p_wakeup q = [] \<and> (p_block q \<noteq> [] \<or> p_suspend q \<noteq> [])" by blast
  show ?thesis
  proof (cases alive)
    case False
    with q r r1 show ?thesis by (auto simp: proc_resume_def)
  next
    case True
    obtain m mb where m: "mailbox_take B (p_mailbox q) = (m, mb)" by fastforce
    let ?q = "q\<lparr>p_mailbox := mb\<rparr>"
    have wf1: "wf_owned {#} ?q" using q(2) same_tables_ops(10) same_tables_wf by blast
    have live: "\<not> all_gone ?q" using True q(4) by (auto simp: all_gone_def owned_def)
    show ?thesis
    proof (cases m)
      case None
      with True r r1 q(1) m wf1 live show ?thesis by (auto simp: proc_resume_def)
    next
      case (Some msg)
      then have d: "proc_deliver seg msg ?q = Some r"
        using True r r1 q(1) m by (simp add: proc_resume_def)
      show ?thesis by (rule deliver_wf [OF h wf1 live d])
    qed
  qed
qed



text \<open>C22
  A killed process always goes down: when its turn has left nothing ready and the coroutines,
  once handed an exception, do come back, the delivery of a \<^verbatim>\<open>KillProcess\<close> message terminates,
  every coroutine is resumed with \<^verbatim>\<open>coroutine::ExitException\<close> until it has finished, and
  all of them are freed.\<close>

theorem kill_terminates:
  assumes "honest A I seg" "unwinds seg" "wf_owned {#} p" "p_wakeup p = []"
    and "typeOfMessage msg = kNotify" "msg_content msg = KillProcess"
  shows "\<exists>q. proc_deliver seg msg p = Some (Normal (kDown, q)) \<and> all_gone q"
  using proc_exit_total [OF assms(1-4)] assms(5,6) by (auto simp: proc_deliver_def)

theorem kill_terminates_witness:
  "\<exists>q. proc_deliver patient (message_create (process_t 2) (session_t 0) KillProcess) small_waiting
     = Some (Normal (kDown, q)) \<and> all_gone q \<and> p_suspend small_waiting = [5]"
  using kill_terminates [OF honest_patient unwinds_patient small_waiting_wf,
      of "message_create (process_t 2) (session_t 0) KillProcess"]
  by (simp add: small_waiting_def small_new_def proc_create_def proc_new_def proc_spawn_def
      message_create_def typeOfMessage_def typeOfSession_def)

section \<open>Messages\<close>

lemma response_delivered:
  assumes "wf_owned {#} p" "(s, co) \<in> set (p_block p)" "p_cos p co = Some c" "co_exception c = None"
    and "typeOfMessage msg = kResponse" "msg_session msg = sessionForResponse s"
  shows "\<exists>q c'. proc_deliver seg msg p = Some (Normal (kResume, q)) \<and> p_wakeup q = p_wakeup p @ [co] \<and>
    map_of (p_block q) = (map_of (p_block p))(s := None) \<and> p_cos q = (p_cos p)(co \<mapsto> c') \<and>
    fst (get_result c') = (case cast_exception (msg_content msg) of Some e \<Rightarrow> Inl e | None \<Rightarrow> Inr (msg_content msg))"
proof -
  have dist: "distinct (map fst (p_block p))" using assms(1) by (simp add: wf_owned_def)
  then have m: "map_of (p_block p) s = Some co" using assms(2) by simp
  define c' where "c' = (case cast_exception (msg_content msg) of
    Some e \<Rightarrow> set_exception e c | None \<Rightarrow> set_result (msg_content msg) c)"
  have c': "fst (get_result c') = (case cast_exception (msg_content msg) of Some e \<Rightarrow> Inl e | None \<Rightarrow> Inr (msg_content msg))"
    using assms(4) by (simp add: c'_def get_result_def set_exception_def set_result_def split: option.splits)
  define q where "q = p\<lparr>p_block := AList.delete s (p_block p), p_cos := (p_cos p)(co \<mapsto> c'),
    p_wakeup := p_wakeup p @ [co]\<rparr>"
  have "proc_deliver seg msg p = Some (Normal (kResume, q))"
    using assms(3,5,6) m by (simp add: q_def c'_def proc_deliver_def deliver_response_def proc_unblock_def)
  moreover have "p_wakeup q = p_wakeup p @ [co]" "map_of (p_block q) = (map_of (p_block p))(s := None)"
      "p_cos q = (p_cos p)(co \<mapsto> c')"
    by (simp_all add: q_def delete_conv')
  ultimately show ?thesis using c' by blast
qed

text \<open>C23
  A request and its response, from end to end. The request of a coroutine blocked on session
  \<open>s\<close> is recorded by the addressee and queued in its inbox; answering it closes the record and
  addresses a response to the requester; delivering that makes the blocked coroutine ready, last
  in the queue and no longer blocked, with the answer (rethrown if it is an exception) as the
  result it resumes with. No other coroutine or blocked session changes.\<close>

theorem request_response_roundtrip:
  assumes "wf_owned {#} p" "(s, co) \<in> set (p_block p)" "p_cos p co = Some c" "co_exception c = None"
    and "0 < sint (sid_value s)" "msg = message_create (p_pid p) s content"
  shows "\<exists>q1 reply q2 p1 c'.
    proc_deliver seg msg q = Some (Normal (kResume, q1)) \<and> p_inbox q1 = p_inbox q @ [msg] \<and>
    (p_pid p, s) \<in> set (p_requests q1) \<and>
    proc_response (msg_source msg) (msg_session msg) answer q1 = ((p_pid p, reply), q2) \<and>
    (p_pid p, s) \<notin> set (p_requests q2) \<and>
    proc_deliver seg' reply p = Some (Normal (kResume, p1)) \<and> p_wakeup p1 = p_wakeup p @ [co] \<and>
    map_of (p_block p1) = (map_of (p_block p))(s := None) \<and> p_cos p1 = (p_cos p)(co \<mapsto> c') \<and>
    fst (get_result c') = (case cast_exception answer of Some e \<Rightarrow> Inl e | None \<Rightarrow> Inr answer)"
proof -
  let ?q1 = "inbox_push msg (serve_request (p_pid p) s q)"
  let ?reply = "message_create (p_pid q) (sessionForResponse s) answer"
  have "proc_deliver seg msg q = Some (Normal (kResume, ?q1))" "p_inbox ?q1 = p_inbox q @ [msg]"
      "(p_pid p, s) \<in> set (p_requests ?q1)" "p_pid ?q1 = p_pid q"
    using assms(5,6) request_type [of s]
    by (simp_all add: proc_deliver_def typeOfMessage_def message_create_def inbox_push_def serve_request_def)
  moreover have "proc_response (msg_source msg) (msg_session msg) answer ?q1 =
      ((p_pid p, ?reply), close_request (p_pid p) s ?q1)"
    using assms(6) by (simp add: proc_response_def message_create_def inbox_push_def serve_request_def)
  moreover have "(p_pid p, s) \<notin> set (p_requests (close_request (p_pid p) s ?q1))"
    by (simp add: close_request_def)
  moreover have "typeOfMessage ?reply = kResponse" "msg_session ?reply = sessionForResponse s"
      "msg_content ?reply = answer"
    using response_type [OF assms(5)] by (simp_all add: typeOfMessage_def message_create_def)
  ultimately show ?thesis
    using response_delivered [OF assms(1-4), of ?reply seg'] by metis
qed

theorem request_response_roundtrip_witness:
  "\<exists>q1 reply q2 p1 c'.
    proc_deliver patient (message_create (process_t 1) (session_t 7) (AppValue 0 8)) small_new = Some (Normal (kResume, q1)) \<and>
    proc_response (process_t 1) (session_t 7) (AppValue 1 30) q1 = ((process_t 1, reply), q2) \<and>
    proc_deliver patient reply (small_waiting\<lparr>p_suspend := [], p_block := [(session_t 7, 5)]\<rparr>)
      = Some (Normal (kResume, p1)) \<and>
    p_wakeup p1 = [5] \<and> p_cos p1 5 = Some c' \<and> fst (get_result c') = Inr (AppValue 1 30)"
proof -
  let ?p = "small_waiting\<lparr>p_suspend := [], p_block := [(session_t 7, 5)]\<rparr>"
  have p: "wf_owned {#} ?p" "(session_t 7, 5) \<in> set (p_block ?p)" "p_cos ?p 5 = Some coroutine_new"
      "co_exception (coroutine_new :: nat coroutine) = None" "0 < sint (sid_value (session_t 7))"
      "p_wakeup ?p = []" "p_pid ?p = process_t 1"
    by (simp_all add: small_waiting_def small_new_def proc_create_def proc_new_def proc_spawn_def
        wf_owned_def owned_def coroutine_new_def)
  from request_response_roundtrip [OF p(1-5) refl, of patient "AppValue 0 8" small_new "AppValue 1 30" patient] p(6,7)
  show ?thesis by (auto simp: message_create_def)
qed

section \<open>A stored exception that is survived\<close>

lemma interrupt_dangling: "\<exists>c\<in>set cs. p_cos p c = None \<Longrightarrow> interrupt_all e cs p = UseAfterFree"
proof (induction cs arbitrary: p)
  case (Cons d cs)
  show ?case
  proof (cases "p_cos p d")
    case (Some a)
    with Cons.prems obtain c where "c \<in> set cs" "c \<noteq> d" "p_cos p c = None"
      by (metis option.distinct(1) set_ConsD)
    with Some show ?thesis by (auto intro!: Cons.IH bexI [of _ c])
  qed simp
qed simp

text \<open>
  The assumption that a coroutine which has been handed an exception does not wait again is
  needed. \<^verbatim>\<open>Result\<close> keeps its exception, so a coroutine that catches what a \<^verbatim>\<open>suspend\<close> or a
  request threw and suspends once more is taken for finished: it is put among the zombies
  while it is still in the suspended set, the sweep destroys it, and the next interrupt of the
  suspended coroutines (the exit of the process) uses it after it has been freed.\<close>

theorem survived_exception_dangles:
  assumes "wf_owned {#co#} p" "exc_of p co = Some e" "e \<noteq> ProcessExit" "seg co p = Some (proc_suspend co p)"
  shows "\<exists>q q'. resume_co seg False co p = Some (Normal q) \<and> co \<in> set (p_suspend q) \<and> co \<in> set (p_zombie q) \<and>
    sweep_zombies q = Normal q' \<and> p_cos q' co = None \<and> co \<in> set (p_suspend q') \<and>
    interrupt_suspend_coroutines e' q' = UseAfterFree"
proof -
  obtain c where c: "p_cos p co = Some c" "co_exception c = Some e"
    using assms(2) by (cases "p_cos p co") (auto simp: exc_of_def)
  let ?z = "p_zombie p @ [co]"
  let ?q = "p\<lparr>p_suspend := List.insert co (p_suspend p), p_cos := (p_cos p)(co := Some c), p_zombie := ?z\<rparr>"
  let ?q' = "?q\<lparr>p_cos := (\<lambda>d. if d \<in> set ?z then None else p_cos ?q d), p_zombie := []\<rparr>"
  have r: "resume_co seg False co p = Some (Normal ?q)"
    using c assms(3,4) by (cases e) (simp_all add: resume_co_def get_result_def proc_suspend_def Let_def)
  have "count (mset ?z) d \<le> 1" for d
    using wf_count_le [OF assms(1), of d] by (simp add: owned_def split: if_splits)
  then have "distinct ?z" by (rule count_le_1_distinct)
  moreover have "\<forall>d\<in>set ?z. p_cos ?q d \<noteq> None"
    using wf_allocated [OF assms(1)] by (auto simp: owned_def)
  ultimately have "destroy_all ?z ?q = Normal (?q\<lparr>p_cos := (\<lambda>d. if d \<in> set ?z then None else p_cos ?q d)\<rparr>)"
    by (rule destroy_all_once)
  then have s: "sweep_zombies ?q = Normal ?q'" by (simp add: sweep_zombies_def)
  have "co \<in> set (p_suspend ?q')" "p_cos ?q' co = None" by simp_all
  moreover from this have "interrupt_suspend_coroutines e' ?q' = UseAfterFree"
    using interrupt_dangling [of "p_suspend ?q'" ?q' e'] by (auto simp: interrupt_suspend_coroutines_def)
  moreover have "co \<in> set (p_suspend ?q)" "co \<in> set (p_zombie ?q)" by simp_all
  ultimately show ?thesis using r s by (intro exI [of _ ?q] exI [of _ ?q']) blast
qed

theorem survived_exception_dangles_witness:
  "\<exists>q q'. resume_co (\<lambda>co p. Some (proc_suspend co p)) False 5
      (small_waiting\<lparr>p_suspend := [], p_cos := [5 \<mapsto> set_exception AbortedRequest coroutine_new]\<rparr>) = Some (Normal q) \<and>
    sweep_zombies q = Normal q' \<and> interrupt_suspend_coroutines CoroutineExit q' = UseAfterFree"
proof -
  let ?p = "small_waiting\<lparr>p_suspend := [], p_cos := [5 \<mapsto> set_exception AbortedRequest coroutine_new]\<rparr>"
  have "wf_owned {#5#} ?p" "exc_of ?p 5 = Some AbortedRequest"
    by (simp_all add: small_waiting_def small_new_def proc_create_def proc_new_def proc_spawn_def
        wf_owned_def owned_def exc_of_def set_exception_def)
  from survived_exception_dangles [OF this, of "\<lambda>co p. Some (proc_suspend co p)" CoroutineExit]
  show ?thesis by auto
qed

section \<open>The destructor\<close>

lemma drain_queue:
  assumes "append_list A fresh rep" "rep (mb_write mb) ws"
  shows "\<exists>mb'. mailbox_drain A mb = Some (mb_read mb @ ws, mb') \<and> mb_read mb' = [] \<and> rep (mb_write mb') []"
  using assms(2)
proof (induction "length (mb_read mb @ ws)" arbitrary: mb ws rule: less_induct)
  case less
  obtain w' where w': "al_clear A (mb_write mb) = (ws, w')" "rep w' []"
    using append_list.rep_clear [OF assms(1) less.prems] by blast
  show ?case
  proof (cases "mb_read mb @ ws")
    case Nil
    with w' show ?thesis by (subst mailbox_drain.simps) (simp add: mailbox_take_def)
  next
    case (Cons m ms)
    have "\<exists>mb1 ws1. mailbox_take A mb = (Some m, mb1) \<and> mb_read mb1 @ ws1 = ms \<and> rep (mb_write mb1) ws1"
    proof (cases "mb_read mb")
      case Nil
      with Cons w' show ?thesis by (auto simp: mailbox_take_def intro!: exI [of _ "[]"])
    next
      case (Cons m' ms')
      with \<open>mb_read mb @ ws = m # ms\<close> less.prems show ?thesis by (auto simp: mailbox_take_def)
    qed
    then obtain mb1 ws1 where t: "mailbox_take A mb = (Some m, mb1)" "mb_read mb1 @ ws1 = ms"
        "rep (mb_write mb1) ws1" by blast
    with less.hyps [of mb1 ws1] Cons obtain mb' where
        "mailbox_drain A mb1 = Some (ms, mb')" "mb_read mb' = []" "rep (mb_write mb') []" by auto
    with t(1) Cons show ?thesis by (subst mailbox_drain.simps) simp
  qed
qed

lemma destructor_total:
  "append_list A fresh rep \<Longrightarrow> rep (mb_write (p_mailbox p)) ws \<Longrightarrow> \<exists>sends. proc_destructor A p = Some sends"
  using drain_queue [of A fresh rep "p_mailbox p" ws] by (auto simp: proc_destructor_def)

lemma abort_messages_eq:
  "abort_messages msgs = map (\<lambda>m. abort_request (msg_source m) (msg_session m)) (filter (\<lambda>m. typeOfMessage m = kRequest) msgs)"
  by (induction msgs) auto



text \<open>A request that is still in the inbox when its process is destroyed is answered twice: it was
  recorded when it arrived, so the destructor aborts it once for the record and once for the
  message.\<close>

theorem inbox_request_aborted_twice:
  assumes "typeOfMessage msg = kRequest" "proc_deliver seg msg p = Some (Normal (res, q))"
    and "proc_destructor A q = Some sends"
  shows "2 \<le> count (mset sends) (abort_request (msg_source msg) (msg_session msg))"
proof -
  let ?a = "abort_request (msg_source msg) (msg_session msg)"
  have q: "msg \<in> set (p_inbox q)" "(msg_source msg, msg_session msg) \<in> set (p_requests q)"
    using assms(1,2) by (auto simp: proc_deliver_def inbox_push_def serve_request_def)
  have "?a \<in> set (map (\<lambda>(source, session). abort_request source session) (p_requests q))"
    using q(2) by (force simp: image_iff)
  moreover have "?a \<in> set (abort_messages (p_inbox q))"
    using q(1) assms(1) by (auto simp: abort_messages_eq)
  ultimately have "0 < count (mset (map (\<lambda>(source, session). abort_request source session) (p_requests q))) ?a"
      "0 < count (mset (abort_messages (p_inbox q))) ?a"
    by (simp_all only: count_mset_gt_0)
  moreover obtain msgs where "sends = map (\<lambda>(source, session). abort_request source session) (p_requests q) @
      abort_messages (p_inbox q) @ msgs"
    using assms(3) by (auto simp: proc_destructor_def split: option.splits)
  ultimately show ?thesis by (simp only: mset_append count_union)
qed

theorem inbox_request_aborted_twice_witness:
  "\<exists>q sends. proc_deliver patient (message_create (process_t 2) (session_t 7) EmptyAny) small_waiting
      = Some (Normal (kResume, q)) \<and>
    proc_destructor queue_ops q = Some sends \<and> 2 \<le> count (mset sends) (abort_request (process_t 2) (session_t 7))"
proof -
  let ?m = "message_create (process_t 2) (session_t 7) EmptyAny :: nat message"
  let ?q = "inbox_push ?m (serve_request (process_t 2) (session_t 7) small_waiting)"
  have k: "typeOfMessage ?m = kRequest" by (simp add: typeOfMessage_def typeOfSession_def message_create_def)
  then have d: "proc_deliver patient ?m small_waiting = Some (Normal (kResume, ?q))"
    by (simp add: proc_deliver_def message_create_def)
  obtain mb where "mailbox_drain queue_ops (p_mailbox ?q) = Some (mb_read (p_mailbox ?q) @ mb_write (p_mailbox ?q), mb)"
    using drain_queue [OF queue_append_list refl] by blast
  then obtain sends where s: "proc_destructor queue_ops ?q = Some sends" by (simp add: proc_destructor_def)
  from inbox_request_aborted_twice [OF k d s] d s show ?thesis by (auto simp: message_create_def)
qed

section \<open>Environment and handlers\<close>

text \<open>The environment is a map: after \<^verbatim>\<open>set\<close> a name reads as the new value, every other name as
  before, and \<^verbatim>\<open>set\<close> returns what the name read as; nothing but the environment changes.\<close>

theorem env_get_set:
  "fst (env_set name v p) = env_get name p \<and>
   env_get x (snd (env_set name v p)) = (if x = name then v else env_get x p) \<and>
   (snd (env_set name v p))\<lparr>p_env := p_env p\<rparr> = p"
  by (simp add: env_get_def env_set_def update_conv')

end
