(* ===== verification/Process_Frame.thy ===== *)
theory Process_Frame
  imports Process_Props
begin

text \<open>
  What a turn leaves alone: its identifier, that its mailbox is a well-formed list, and that
  its wait flag is down until it finds the mailbox empty. With the results of \<^verbatim>\<open>Process_Props\<close>
  this is all that the rest of the runtime has to know of a turn.
\<close>

definition boxed :: "('l \<Rightarrow> 'v message list \<Rightarrow> bool) \<Rightarrow> ('v, 'l, 'i, 'h) process \<Rightarrow> bool" where
  "boxed rep p \<longleftrightarrow> (\<exists>ws. rep (mb_write (p_mailbox p)) ws)"

definition mail_kept :: "('l \<Rightarrow> 'v message list \<Rightarrow> bool) \<Rightarrow> ('v, 'l, 'i, 'h) process \<Rightarrow>
    ('v, 'l, 'i, 'h) process \<Rightarrow> bool" where
  "mail_kept rep p q \<longleftrightarrow> p_pid q = p_pid p \<and> (boxed rep p \<longrightarrow> boxed rep q) \<and>
     (\<not> mb_wait (p_mailbox p) \<longrightarrow> \<not> mb_wait (p_mailbox q))"

lemma mail_kept_same: "p_pid q = p_pid p \<Longrightarrow> p_mailbox q = p_mailbox p \<Longrightarrow> mail_kept rep p q"
  by (simp add: mail_kept_def boxed_def)

lemma mail_kept_refl [simp]: "mail_kept rep p p"
  by (simp add: mail_kept_def)

lemma mail_kept_trans: "mail_kept rep p q \<Longrightarrow> mail_kept rep q r \<Longrightarrow> mail_kept rep p r"
  by (simp add: mail_kept_def)

lemma mail_kept_left: "p_pid q = p_pid p \<Longrightarrow> p_mailbox q = p_mailbox p \<Longrightarrow> mail_kept rep q r \<Longrightarrow> mail_kept rep p r"
  by (simp add: mail_kept_def boxed_def)

lemma mail_kept_right: "mail_kept rep p q \<Longrightarrow> p_pid r = p_pid q \<Longrightarrow> p_mailbox r = p_mailbox q \<Longrightarrow> mail_kept rep p r"
  by (simp add: mail_kept_def boxed_def)

section \<open>The calls of a coroutine\<close>

lemma same_mail:
  "p_pid (proc_suspend co p) = p_pid p" "p_mailbox (proc_suspend co p) = p_mailbox p"
  "p_pid (proc_block session co p) = p_pid p" "p_mailbox (proc_block session co p) = p_mailbox p"
  "p_pid (proc_wakeup co p) = p_pid p" "p_mailbox (proc_wakeup co p) = p_mailbox p"
  "p_pid (proc_spawn co p) = p_pid p" "p_mailbox (proc_spawn co p) = p_mailbox p"
  "p_pid (snd (proc_new_session I p)) = p_pid p" "p_mailbox (snd (proc_new_session I p)) = p_mailbox p"
  "p_pid (proc_release_session I session p) = p_pid p" "p_mailbox (proc_release_session I session p) = p_mailbox p"
  "p_pid (snd (proc_response source session content p)) = p_pid p"
  "p_mailbox (snd (proc_response source session content p)) = p_mailbox p"
  "p_pid (message_callback type func p) = p_pid p" "p_mailbox (message_callback type func p) = p_mailbox p"
  "p_pid (message_coroutine type func n p) = p_pid p" "p_mailbox (message_coroutine type func n p) = p_mailbox p"
  "p_pid (snd (env_set name value p)) = p_pid p" "p_mailbox (snd (env_set name value p)) = p_mailbox p"
  "p_pid (inbox_push m p) = p_pid p" "p_mailbox (inbox_push m p) = p_mailbox p"
  "p_pid (serve_request source session p) = p_pid p" "p_mailbox (serve_request source session p) = p_mailbox p"
  "p_pid (wake_inbox p) = p_pid p" "p_mailbox (wake_inbox p) = p_mailbox p"
  by (simp_all add: proc_suspend_def proc_block_def proc_wakeup_def proc_spawn_def proc_new_session_def
      proc_release_session_def proc_response_def close_request_def message_callback_def message_coroutine_def
      env_set_def inbox_push_def serve_request_def wake_inbox_def split: prod.splits option.splits)

lemma serve_take_mail: "serve_take c co p = Normal (a, q) \<Longrightarrow> p_pid q = p_pid p \<and> p_mailbox q = p_mailbox p"
  by (auto simp: serve_take_def Let_def same_mail split: list.splits option.splits if_splits)

text \<open>Messages are new objects: the list of the mailbox accepts every one.\<close>

lemma push_mail: "append_list A (\<lambda>_ _. True) rep \<Longrightarrow> mail_kept rep p (snd (proc_push A msg p))"
  using append_list.rep_push [of A "\<lambda>_ _. True" rep "mb_write (p_mailbox p)" _ msg]
  by (auto simp: mail_kept_def boxed_def proc_push_def mailbox_push_def push_notify_def push_append_def)

lemma api_mail:
  assumes "append_list A (\<lambda>_ _. True) rep" "api A I co p q"
  shows "mail_kept rep p q"
  using assms(2)
proof cases
  case (api_push msg)
  with push_mail [OF assms(1)] show ?thesis by simp
next
  case (api_serve c a)
  with serve_take_mail show ?thesis by (metis mail_kept_same)
qed (simp_all add: mail_kept_same same_mail)

lemma api_steps_mail: "(api A I co)\<^sup>*\<^sup>* p q \<Longrightarrow> append_list A (\<lambda>_ _. True) rep \<Longrightarrow> mail_kept rep p q"
proof (induction rule: rtranclp_induct)
  case (step q r)
  then show ?case using api_mail mail_kept_trans by metis
qed simp

lemma switch_back_mail:
  assumes f: "append_list A (\<lambda>_ _. True) rep" and sw: "switch_back A I co p q"
  shows "mail_kept rep p q"
  using sw
proof cases
  case by_yield
  obtain s p1 where p1: "proc_new_session I p = (s, p1)" by fastforce
  let ?m = "message_create (process_t 0) (sessionForResponse s) EmptyAny"
  have "mail_kept rep p1 (snd (proc_push A ?m p1))" using f by (rule push_mail)
  moreover have "p_pid p1 = p_pid p" "p_mailbox p1 = p_mailbox p" using p1 same_mail(9,10) [of I p] by simp_all
  ultimately have "mail_kept rep p (snd (proc_push A ?m p1))" by (rule mail_kept_left [rotated 2])
  then have "mail_kept rep p (proc_block s co (snd (proc_push A ?m p1)))"
    by (rule mail_kept_right) (simp_all add: same_mail)
  with by_yield p1 show ?thesis by (simp add: proc_yield_def split: prod.splits)
next
  case by_serve
  with serve_enter_suspend [OF by_serve(2)] show ?thesis by (simp add: mail_kept_same same_mail)
qed (simp_all add: mail_kept_same same_mail)

lemma honest_mail:
  assumes "append_list A (\<lambda>_ _. True) rep" "honest A I seg" "p_cos p co \<noteq> None" "seg co p = Some q"
  shows "mail_kept rep p q"
proof -
  have "segment A I co p q" using assms(2-4) by (auto simp: honest_def)
  then obtain p1 where "(api A I co)\<^sup>*\<^sup>* p p1" "switch_back A I co p1 q" by (auto simp: segment_def)
  with api_steps_mail [OF _ assms(1)] switch_back_mail [OF assms(1)] mail_kept_trans show ?thesis by metis
qed

section \<open>The loops\<close>

definition seg_mail :: "('l \<Rightarrow> 'v message list \<Rightarrow> bool) \<Rightarrow>
    (co \<Rightarrow> ('v, 'l, 'i, 'h) process \<Rightarrow> ('v, 'l, 'i, 'h) process option) \<Rightarrow> bool" where
  "seg_mail rep seg \<longleftrightarrow> (\<forall>co p q. p_cos p co \<noteq> None \<longrightarrow> seg co p = Some q \<longrightarrow> mail_kept rep p q)"

fun outcome_mail :: "('l \<Rightarrow> 'v message list \<Rightarrow> bool) \<Rightarrow> ('v, 'l, 'i, 'h) process \<Rightarrow>
    ('v, 'l, 'i, 'h) process outcome \<Rightarrow> bool" where
  "outcome_mail rep p (Normal q) = mail_kept rep p q"
| "outcome_mail rep p (ExitThrown q) = mail_kept rep p q"
| "outcome_mail rep p UseAfterFree = True"

lemma outcome_mail_trans: "mail_kept rep p q \<Longrightarrow> outcome_mail rep q r \<Longrightarrow> outcome_mail rep p r"
  by (cases r) (auto intro: mail_kept_trans)

lemma outcome_mail_left:
  "p_pid q = p_pid p \<Longrightarrow> p_mailbox q = p_mailbox p \<Longrightarrow> outcome_mail rep q r \<Longrightarrow> outcome_mail rep p r"
  by (cases r) (auto intro: mail_kept_left)

lemma resume_co_mail:
  assumes "seg_mail rep seg" "resume_co seg exiting co p = Some r"
  shows "outcome_mail rep p r"
proof (cases "p_cos p co = None")
  case True
  with assms(2) show ?thesis by (auto simp: resume_co_def)
next
  case False
  with assms(2) obtain q where q: "seg co p = Some q" by (auto simp: resume_co_def split: option.splits)
  with False assms(1) have k: "mail_kept rep p q" by (auto simp: seg_mail_def)
  have "mail_kept rep p (q\<lparr>p_cos := f\<rparr>)" "mail_kept rep p (q\<lparr>p_cos := f, p_zombie := zs\<rparr>)" for f zs
    using k by (auto intro: mail_kept_right)
  with assms(2) False q show ?thesis
    by (auto simp: resume_co_def Let_def split: option.splits prod.splits sum.splits exn.splits if_splits)
qed

lemma drain_spawn_mail:
  assumes "drain_spawn seg p = Some r" "seg_mail rep seg"
  shows "outcome_mail rep p r"
proof -
  have "seg_mail rep seg \<longrightarrow> outcome_mail rep p r"
  proof (rule drain_spawn.raw_induct [OF _ assms(1), where P = "\<lambda>seg p r. seg_mail rep seg \<longrightarrow> outcome_mail rep p r"], intro impI)
    fix f seg p r
    assume IH: "\<And>seg p r. f seg p = Some r \<Longrightarrow> seg_mail rep seg \<longrightarrow> outcome_mail rep p r"
      and eq: "(case p_spawn p of [] \<Rightarrow> Some (Normal p)
        | co # cos \<Rightarrow> (case resume_co seg False co (p\<lparr>p_spawn := cos\<rparr>) of None \<Rightarrow> None
          | Some r \<Rightarrow> (case r of Normal q \<Rightarrow> f seg q | ExitThrown q \<Rightarrow> Some (ExitThrown q)
            | UseAfterFree \<Rightarrow> Some UseAfterFree))) = Some r"
      and h: "seg_mail rep seg"
    show "outcome_mail rep p r"
    proof (cases "p_spawn p")
      case (Cons co cos)
      with eq obtain r1 where r1: "resume_co seg False co (p\<lparr>p_spawn := cos\<rparr>) = Some r1"
        by (auto split: option.splits)
      have "outcome_mail rep p r1"
        by (rule outcome_mail_left [OF _ _ resume_co_mail [OF h r1]]) simp_all
      with eq Cons r1 IH h show ?thesis by (cases r1) (auto intro: outcome_mail_trans)
    qed (use eq in auto)
  qed
  with assms(2) show ?thesis by blast
qed

lemma drain_wakeup_mail:
  assumes "drain_wakeup seg exiting p = Some r" "seg_mail rep seg"
  shows "outcome_mail rep p r"
proof -
  have "seg_mail rep seg \<longrightarrow> outcome_mail rep p r"
  proof (rule drain_wakeup.raw_induct [OF _ assms(1), where P = "\<lambda>seg exiting p r. seg_mail rep seg \<longrightarrow> outcome_mail rep p r"], intro impI)
    fix f seg exiting p r
    assume IH: "\<And>seg exiting p r. f seg exiting p = Some r \<Longrightarrow> seg_mail rep seg \<longrightarrow> outcome_mail rep p r"
      and eq: "(case p_wakeup p of [] \<Rightarrow> Some (Normal p)
        | co # cos \<Rightarrow> (case resume_co seg exiting co (p\<lparr>p_wakeup := cos\<rparr>) of None \<Rightarrow> None
          | Some r \<Rightarrow> (case r of Normal q \<Rightarrow> f seg exiting q | ExitThrown q \<Rightarrow> Some (ExitThrown q)
            | UseAfterFree \<Rightarrow> Some UseAfterFree))) = Some r"
      and h: "seg_mail rep seg"
    show "outcome_mail rep p r"
    proof (cases "p_wakeup p")
      case (Cons co cos)
      with eq obtain r1 where r1: "resume_co seg exiting co (p\<lparr>p_wakeup := cos\<rparr>) = Some r1"
        by (auto split: option.splits)
      have "outcome_mail rep p r1"
        by (rule outcome_mail_left [OF _ _ resume_co_mail [OF h r1]]) simp_all
      with eq Cons r1 IH h show ?thesis by (cases r1) (auto intro: outcome_mail_trans)
    qed (use eq in auto)
  qed
  with assms(2) show ?thesis by blast
qed

lemma run_loop_mail:
  assumes "run_loop seg p = Some r" "seg_mail rep seg"
  shows "outcome_mail rep p r"
proof -
  have "seg_mail rep seg \<longrightarrow> outcome_mail rep p r"
  proof (rule run_loop.raw_induct [OF _ assms(1), where P = "\<lambda>seg p r. seg_mail rep seg \<longrightarrow> outcome_mail rep p r"], intro impI)
    fix f seg p r
    assume IH: "\<And>seg p r. f seg p = Some r \<Longrightarrow> seg_mail rep seg \<longrightarrow> outcome_mail rep p r"
      and eq: "(if \<not> run_ready p then Some (Normal p)
        else case drain_spawn seg p of None \<Rightarrow> None
        | Some r1 \<Rightarrow> (case r1 of
            Normal p1 \<Rightarrow> (case drain_wakeup seg False p1 of None \<Rightarrow> None
              | Some r2 \<Rightarrow> (case r2 of Normal p2 \<Rightarrow> f seg (wake_inbox p2)
                  | ExitThrown p2 \<Rightarrow> Some (ExitThrown p2) | UseAfterFree \<Rightarrow> Some UseAfterFree))
          | ExitThrown p1 \<Rightarrow> Some (ExitThrown p1) | UseAfterFree \<Rightarrow> Some UseAfterFree)) = Some r"
      and h: "seg_mail rep seg"
    show "outcome_mail rep p r"
    proof (cases "run_ready p")
      case True
      with eq obtain r1 where r1: "drain_spawn seg p = Some r1" by (auto split: option.splits)
      note s1 = drain_spawn_mail [OF r1 h]
      show ?thesis
      proof (cases r1)
        case (Normal p1)
        with True r1 eq obtain r2 where r2: "drain_wakeup seg False p1 = Some r2" by (auto split: option.splits)
        from Normal s1 drain_wakeup_mail [OF r2 h] have s2: "outcome_mail rep p r2"
          by (auto intro: outcome_mail_trans)
        show ?thesis
        proof (cases r2)
          case (Normal p2)
          with s2 have "mail_kept rep p (wake_inbox p2)" by (auto intro: mail_kept_right simp: same_mail)
          moreover have "f seg (wake_inbox p2) = Some r" using True r1 eq \<open>r1 = Normal p1\<close> r2 Normal by simp
          ultimately show ?thesis using IH h outcome_mail_trans by blast
        qed (use True r1 eq \<open>r1 = Normal p1\<close> r2 s2 in auto)
      qed (use True r1 eq s1 in auto)
    qed (use eq in auto)
  qed
  with assms(2) show ?thesis by blast
qed

lemma interrupt_all_mail: "interrupt_all e cs p = Normal q \<Longrightarrow> p_pid q = p_pid p \<and> p_mailbox q = p_mailbox p"
  by (induction cs arbitrary: p) (auto split: option.splits)

lemma interrupt_waiting_mail:
  "interrupt_waiting p = Normal q \<Longrightarrow> p_pid q = p_pid p \<and> p_mailbox q = p_mailbox p"
  by (auto simp: interrupt_waiting_def interrupt_block_coroutines_def interrupt_suspend_coroutines_def
      dest!: interrupt_all_mail split: outcome.splits)

lemma interrupt_not_thrown: "interrupt_all e cs p \<noteq> ExitThrown q"
  by (induction cs arbitrary: p) (auto split: option.splits)

lemma interrupt_waiting_not_thrown: "interrupt_waiting p \<noteq> ExitThrown q"
  by (auto simp: interrupt_waiting_def interrupt_block_coroutines_def interrupt_suspend_coroutines_def
      interrupt_not_thrown split: outcome.splits)

lemma exit_loop_mail:
  assumes "exit_loop seg p = Some r" "seg_mail rep seg"
  shows "outcome_mail rep p r"
proof -
  have "seg_mail rep seg \<longrightarrow> outcome_mail rep p r"
  proof (rule exit_loop.raw_induct [OF _ assms(1), where P = "\<lambda>seg p r. seg_mail rep seg \<longrightarrow> outcome_mail rep p r"], intro impI)
    fix f seg p r
    assume IH: "\<And>seg p r. f seg p = Some r \<Longrightarrow> seg_mail rep seg \<longrightarrow> outcome_mail rep p r"
      and eq: "(case interrupt_waiting p of
          Normal p1 \<Rightarrow> (if p_wakeup p1 = [] then Some (Normal p1)
            else case drain_wakeup seg True p1 of None \<Rightarrow> None
            | Some r \<Rightarrow> (case r of Normal p2 \<Rightarrow> f seg p2
                | ExitThrown p2 \<Rightarrow> Some (ExitThrown p2) | UseAfterFree \<Rightarrow> Some UseAfterFree))
        | ExitThrown p1 \<Rightarrow> Some (ExitThrown p1) | UseAfterFree \<Rightarrow> Some UseAfterFree) = Some r"
      and h: "seg_mail rep seg"
    show "outcome_mail rep p r"
    proof (cases "interrupt_waiting p")
      case (Normal p1)
      note m = interrupt_waiting_mail [OF Normal]
      show ?thesis
      proof (cases "p_wakeup p1 = []")
        case True
        with eq Normal m show ?thesis by (auto simp: mail_kept_same)
      next
        case False
        with eq Normal obtain r1 where r1: "drain_wakeup seg True p1 = Some r1" by (auto split: option.splits)
        have "outcome_mail rep p r1"
          by (rule outcome_mail_left [OF _ _ drain_wakeup_mail [OF r1 h]]) (simp_all add: m)
        with eq Normal False r1 IH h show ?thesis by (cases r1) (auto intro: outcome_mail_trans)
      qed
    qed (use eq interrupt_waiting_not_thrown [of p] in auto)
  qed
  with assms(2) show ?thesis by blast
qed

lemma destroy_all_mail: "destroy_all cs p = Normal q \<Longrightarrow> p_pid q = p_pid p \<and> p_mailbox q = p_mailbox p"
  by (induction cs arbitrary: p) (auto split: if_splits)

lemma destroy_not_thrown: "destroy_all cs p \<noteq> ExitThrown q"
  by (induction cs arbitrary: p) auto

lemma sweep_mail: "outcome_mail rep p q \<Longrightarrow> q = Normal p' \<Longrightarrow> outcome_mail rep p (sweep_zombies p')"
  by (cases "destroy_all (p_zombie p') p'")
    (auto simp: sweep_zombies_def destroy_not_thrown dest!: destroy_all_mail intro: mail_kept_right)

lemma proc_run_mail:
  assumes "proc_run seg p = Some r" "seg_mail rep seg"
  shows "outcome_mail rep p r"
proof -
  obtain r1 where r1: "run_loop seg p = Some r1" using assms(1) by (auto simp: proc_run_def split: option.splits)
  note m = run_loop_mail [OF r1 assms(2)]
  with assms(1) r1 sweep_mail [OF m] show ?thesis by (cases r1) (auto simp: proc_run_def)
qed

lemma proc_exit_mail:
  assumes "proc_exit seg p = Some r" "seg_mail rep seg"
  shows "outcome_mail rep p r"
proof -
  obtain r1 where r1: "exit_loop seg p = Some r1" using assms(1) by (auto simp: proc_exit_def split: option.splits)
  note m = exit_loop_mail [OF r1 assms(2)]
  show ?thesis
  proof (cases r1)
    case (Normal q)
    with m have "outcome_mail rep p (Normal (abandon_spawn q))"
      by (auto simp: abandon_spawn_def intro: mail_kept_right)
    from sweep_mail [OF this refl] Normal assms(1) r1 show ?thesis by (simp add: proc_exit_def)
  qed (use m assms(1) r1 in \<open>auto simp: proc_exit_def\<close>)
qed

section \<open>A turn\<close>

lemma dispatch_mail:
  assumes "proc_dispatch seg p = Some (Normal (alive, q))" "seg_mail rep seg"
  shows "mail_kept rep p q"
proof -
  obtain r1 where r1: "proc_run seg p = Some r1" using assms(1) by (auto simp: proc_dispatch_def split: option.splits)
  note m = proc_run_mail [OF r1 assms(2)]
  show ?thesis
  proof (cases r1)
    case (ExitThrown p1)
    with assms(1) r1 obtain r2 where r2: "proc_exit seg p1 = Some r2"
      by (auto simp: proc_dispatch_def split: option.splits)
    from outcome_mail_trans [OF _ proc_exit_mail [OF r2 assms(2)], of p] m ExitThrown
    have "outcome_mail rep p r2" by simp
    with assms(1) r1 r2 ExitThrown show ?thesis
      by (cases r2) (auto simp: proc_dispatch_def)
  qed (use assms(1) r1 m in \<open>auto simp: proc_dispatch_def\<close>)
qed

lemma deliver_mail:
  assumes "proc_deliver seg msg p = Some (Normal (res, q))" "seg_mail rep seg"
  shows "mail_kept rep p q \<and> res \<noteq> kBreak"
proof (cases "typeOfMessage msg")
  case kNotify
  show ?thesis
  proof (cases "any_type (msg_content msg) = TypeKill")
    case True
    with assms(1) kNotify obtain r where r: "proc_exit seg p = Some r"
      by (auto simp: proc_deliver_def split: option.splits)
    from proc_exit_mail [OF r assms(2)] assms(1) kNotify True r show ?thesis
      by (cases r) (auto simp: proc_deliver_def)
  next
    case False
    with assms(1) kNotify show ?thesis by (auto simp: proc_deliver_def mail_kept_same same_mail)
  qed
next
  case kRequest
  with assms(1) show ?thesis by (auto simp: proc_deliver_def mail_kept_same same_mail)
next
  case kResponse
  with assms(1) show ?thesis
    by (auto simp: proc_deliver_def deliver_response_def proc_unblock_def Let_def mail_kept_same split: option.splits)
qed

text \<open>A turn puts the flag up exactly when it found nothing to take, and then nothing is there.\<close>

lemma turn_mail:
  assumes "append_list A fresh rep" "proc_resume A seg p = Some (Normal (res, q))" "seg_mail rep seg"
    and "boxed rep p" "\<not> mb_wait (p_mailbox p)"
  shows "p_pid q = p_pid p \<and> boxed rep q \<and> (mb_wait (p_mailbox q) \<longleftrightarrow> res = kBreak) \<and>
    (res = kBreak \<longrightarrow> mb_read (p_mailbox q) = [] \<and> rep (mb_write (p_mailbox q)) [])"
proof -
  obtain alive p1 where d: "proc_dispatch seg p = Some (Normal (alive, p1))"
    using assms(2) by (auto simp: proc_resume_def split: option.splits outcome.splits)
  from dispatch_mail [OF d assms(3)] assms(4,5) have m: "p_pid p1 = p_pid p" "boxed rep p1" "\<not> mb_wait (p_mailbox p1)"
    by (auto simp: mail_kept_def)
  then obtain ws where ws: "rep (mb_write (p_mailbox p1)) ws" by (auto simp: boxed_def)
  obtain taken mb where t: "mailbox_take A (p_mailbox p1) = (taken, mb)" by fastforce
  show ?thesis
  proof (cases alive)
    case False
    with assms(2) d m show ?thesis by (auto simp: proc_resume_def)
  next
    case True
    show ?thesis
    proof (cases taken)
      case None
      with append_list.take_none [OF assms(1) ws] t have "mb_read mb = [] \<and> mb_wait mb \<and> rep (mb_write mb) []" by auto
      with assms(2) d m True t None show ?thesis by (auto simp: proc_resume_def boxed_def)
    next
      case (Some msg)
      with assms(2) d True t have "proc_deliver seg msg (p1\<lparr>p_mailbox := mb\<rparr>) = Some (Normal (res, q))"
        by (simp add: proc_resume_def)
      from deliver_mail [OF this assms(3)] append_list.take_some [OF assms(1) ws] t Some m show ?thesis
        by (auto simp: mail_kept_def boxed_def)
    qed
  qed
qed

end
