(* ===== verification/Runtime_Spec.thy ===== *)
theory Runtime_Spec
  imports Runtime Registry_Spec Process_Frame
begin

text \<open>
  The runtime put together. Its invariant joins what the other theories show of one part: counts
  that are right, coroutines that are owned, mailboxes that are lists, and a registered process
  that is queued, or running, or waiting with an empty mailbox. Every function of the application and every
  turn keeps it, none of them uses a process that has been freed, and the calls return.
\<close>

section \<open>The invariant\<close>

definition registered :: "registry \<Rightarrow> addr \<Rightarrow> process_t \<Rightarrow> bool" where
  "registered r a pid \<longleftrightarrow> rg_map r (pid_value pid) = Some a"

lemma registered_heap [ref_simps]: "registered (r\<lparr>rg_heap := h\<rparr>) a pid = registered r a pid"
  by (simp add: registered_def)

definition idle_empty :: "('l \<Rightarrow> 'v message list \<Rightarrow> bool) \<Rightarrow> ('v, 'l, 'i, 'h) process \<Rightarrow> bool" where
  "idle_empty rep q \<longleftrightarrow> boxed rep q \<and>
     (mb_wait (p_mailbox q) \<longrightarrow> mb_read (p_mailbox q) = [] \<and> rep (mb_write (p_mailbox q)) [])"

text \<open>
  \<open>H\<close> are the references held outside of the queue, \<open>R\<close> the processes in a turn, \<open>C\<close> the
  coroutine that each of them is running, which is in none of its tables.
\<close>

abbreviation between :: "addr \<Rightarrow> co multiset" where
  "between \<equiv> \<lambda>_. {#}"

lemma between_upd [simp]: "between(p := {#}) = between"
  by (rule ext) simp

definition proc_ok :: "('l \<Rightarrow> 'v message list \<Rightarrow> bool) \<Rightarrow> (addr \<Rightarrow> co multiset) \<Rightarrow> addr multiset \<Rightarrow> addr multiset \<Rightarrow> registry \<Rightarrow> addr list \<Rightarrow>
    addr \<Rightarrow> pobj \<Rightarrow> ('v, 'l, 'i, 'h) process \<Rightarrow> bool" where
  "proc_ok rep C R H r queue a ob q \<longleftrightarrow>
     o_pid ob = p_pid q \<and> 0 < o_refcnt ob \<and>
     o_refcnt ob = of_bool (registered r a (p_pid q)) + int (count (H + mset queue) a) \<and>
     count (mset queue + R) a + of_bool (mb_wait (p_mailbox q)) = of_bool (registered r a (p_pid q)) \<and>
     wf_owned (C a) q \<and> idle_empty rep q"

definition at_ok :: "('l \<Rightarrow> 'v message list \<Rightarrow> bool) \<Rightarrow> (addr \<Rightarrow> co multiset) \<Rightarrow> addr multiset \<Rightarrow> addr multiset \<Rightarrow>
    ('v, 'l, 'i, 'h, 'z) runtime_scheme \<Rightarrow> addr \<Rightarrow> bool" where
  "at_ok rep C R H s a \<longleftrightarrow> (case rg_heap (rt_reg s) a of
      None \<Rightarrow> rt_procs s a = None \<and> count (H + mset (rt_resumed s)) a = 0 \<and> (\<forall>i. rg_map (rt_reg s) i \<noteq> Some a)
    | Some ob \<Rightarrow> (case rt_procs s a of
          None \<Rightarrow> False
        | Some q \<Rightarrow> proc_ok rep C R H (rt_reg s) (rt_resumed s) a ob q) \<and>
        (\<forall>i. rg_map (rt_reg s) i = Some a \<longrightarrow> pid_value (o_pid ob) = i))"

definition rt_inv :: "('l \<Rightarrow> 'v message list \<Rightarrow> bool) \<Rightarrow> (addr \<Rightarrow> co multiset) \<Rightarrow> addr multiset \<Rightarrow> addr multiset \<Rightarrow>
    ('v, 'l, 'i, 'h, 'z) runtime_scheme \<Rightarrow> bool" where
  "rt_inv rep C R H s \<longleftrightarrow> (\<forall>a. at_ok rep C R H s a) \<and> finite (dom (rg_heap (rt_reg s)))"

lemma rt_inv_at: "rt_inv rep C R H s \<Longrightarrow> at_ok rep C R H s a"
  by (simp add: rt_inv_def)

lemma rt_inv_held: "rt_inv rep C R H s \<Longrightarrow> p \<in># H + mset (rt_resumed s) \<Longrightarrow> rg_heap (rt_reg s) p \<noteq> None"
  using rt_inv_at [of rep C R H s p] by (cases "rg_heap (rt_reg s) p") (auto simp: at_ok_def count_eq_zero_iff)

lemma rt_inv_map: "rt_inv rep C R H s \<Longrightarrow> rg_map (rt_reg s) i = Some p \<Longrightarrow> rg_heap (rt_reg s) p \<noteq> None"
  using rt_inv_at [of rep C R H s p] by (cases "rg_heap (rt_reg s) p") (auto simp: at_ok_def)

lemma rt_inv_proc: "rt_inv rep C R H s \<Longrightarrow> rt_procs s p = Some q \<Longrightarrow> rg_heap (rt_reg s) p \<noteq> None"
  using rt_inv_at [of rep C R H s p] by (cases "rg_heap (rt_reg s) p") (auto simp: at_ok_def)

lemma rt_invE:
  assumes "rt_inv rep C R H s" "rg_heap (rt_reg s) a \<noteq> None"
  obtains ob q where "rg_heap (rt_reg s) a = Some ob" "rt_procs s a = Some q"
    "proc_ok rep C R H (rt_reg s) (rt_resumed s) a ob q"
    "\<forall>i. rg_map (rt_reg s) i = Some a \<longleftrightarrow> i = pid_value (p_pid q) \<and> registered (rt_reg s) a (p_pid q)"
proof -
  obtain ob where ob: "rg_heap (rt_reg s) a = Some ob" using assms(2) by blast
  with rt_inv_at [OF assms(1), of a] obtain q where q: "rt_procs s a = Some q"
      "proc_ok rep C R H (rt_reg s) (rt_resumed s) a ob q" "\<forall>i. rg_map (rt_reg s) i = Some a \<longrightarrow> pid_value (o_pid ob) = i"
    by (cases "rt_procs s a") (auto simp: at_ok_def)
  from q(2,3) have "rg_map (rt_reg s) i = Some a \<longleftrightarrow> i = pid_value (p_pid q) \<and> registered (rt_reg s) a (p_pid q)" for i
    by (auto simp: proc_ok_def registered_def)
  with ob q(1,2) show thesis by (intro that) auto
qed

text \<open>One process changes, and the rest of the state with it as far as it concerns that process.\<close>

lemma rt_inv_upd:
  assumes inv: "rt_inv rep C R H s" and here: "at_ok rep C' R' H' t p"
    and others: "\<And>a. a \<noteq> p \<Longrightarrow> rg_heap (rt_reg t) a = rg_heap (rt_reg s) a \<and> rt_procs t a = rt_procs s a \<and>
      count H' a = count H a \<and> count R' a = count R a \<and> C' a = C a \<and> count (mset (rt_resumed t)) a = count (mset (rt_resumed s)) a \<and>
      (\<forall>i. rg_map (rt_reg t) i = Some a \<longleftrightarrow> rg_map (rt_reg s) i = Some a)"
  shows "rt_inv rep C' R' H' t"
proof -
  have "at_ok rep C' R' H' t a" for a
  proof (cases "a = p")
    case False
    from rt_inv_at [OF inv, of a] others [OF False] show ?thesis
      by (cases "rg_heap (rt_reg s) a"; cases "rt_procs s a") (simp_all add: at_ok_def proc_ok_def registered_def)
  qed (simp add: here)
  moreover have "dom (rg_heap (rt_reg t)) \<subseteq> insert p (dom (rg_heap (rt_reg s)))"
    using others by fastforce
  then have "finite (dom (rg_heap (rt_reg t)))"
    by (rule finite_subset) (use inv in \<open>simp add: rt_inv_def\<close>)
  ultimately show ?thesis by (simp add: rt_inv_def)
qed

section \<open>The small operations\<close>

lemma rt_find_inv:
  assumes inv: "rt_inv rep C R H s"
  shows "\<exists>found s'. rt_find pid s = Some (found, s') \<and> found = rg_map (rt_reg s) (pid_value pid) \<and>
    rt_procs s' = rt_procs s \<and> rt_inv rep C R (case found of None \<Rightarrow> H | Some p \<Rightarrow> add_mset p H) s'"
proof (cases "rg_map (rt_reg s) (pid_value pid)")
  case None
  with inv show ?thesis by (simp add: rt_find_def find_def)
next
  case (Some p)
  obtain ob q where ob: "rg_heap (rt_reg s) p = Some ob" "rt_procs s p = Some q"
    "proc_ok rep C R H (rt_reg s) (rt_resumed s) p ob q"
    "\<forall>i. rg_map (rt_reg s) i = Some p \<longleftrightarrow> i = pid_value (p_pid q) \<and> registered (rt_reg s) p (p_pid q)"
    using rt_invE [OF inv rt_inv_map [OF inv Some]] .
  let ?s = "s\<lparr>rt_reg := rt_reg s\<lparr>rg_heap := (rg_heap (rt_reg s))(p := Some (ob\<lparr>o_refcnt := o_refcnt ob + 1\<rparr>))\<rparr>\<rparr>"
  have "at_ok rep C R (add_mset p H) ?s p"
    using ob by (simp add: at_ok_def proc_ok_def ref_simps)
  then have "rt_inv rep C R (add_mset p H) ?s" by (rule rt_inv_upd [OF inv]) simp
  moreover have "rt_find pid s = Some (Some p, ?s)" using Some ob(1) by (simp add: rt_find_def find_def ref_def)
  ultimately show ?thesis using Some by simp
qed

lemma rt_sched_resume_inv:
  assumes inv: "rt_inv rep C (add_mset p R) H s" and held: "p \<in># H"
  shows "\<exists>s'. rt_sched_resume p s = Some s' \<and> rt_procs s' = rt_procs s \<and> rt_resumed s' = rt_resumed s @ [p] \<and>
    rt_inv rep C R H s'"
proof -
  have "rg_heap (rt_reg s) p \<noteq> None" using rt_inv_held [OF inv] held by simp
  from rt_invE [OF inv this] obtain ob q where ob: "rg_heap (rt_reg s) p = Some ob" "rt_procs s p = Some q"
    "proc_ok rep C (add_mset p R) H (rt_reg s) (rt_resumed s) p ob q"
    "\<forall>i. rg_map (rt_reg s) i = Some p \<longleftrightarrow> i = pid_value (p_pid q) \<and> registered (rt_reg s) p (p_pid q)" .
  let ?s = "s\<lparr>rt_reg := rt_reg s\<lparr>rg_heap := (rg_heap (rt_reg s))(p := Some (ob\<lparr>o_refcnt := o_refcnt ob + 1\<rparr>))\<rparr>,
    rt_resumed := rt_resumed s @ [p]\<rparr>"
  have "at_ok rep C R H ?s p"
    using ob by (simp add: at_ok_def proc_ok_def ref_simps)
  then have "rt_inv rep C R H ?s" by (rule rt_inv_upd [OF inv]) simp
  moreover have "rt_sched_resume p s = Some ?s" using ob(1) by (simp add: rt_sched_resume_def ref_def)
  ultimately show ?thesis by (intro exI [of _ ?s]) simp
qed

text \<open>
  A process is replaced by one with the same identifier. Its flag decides whether it counts as
  running (\<open>R\<close>): a process whose flag goes up leaves its turn, one whose flag is taken down is
  about to be queued.
\<close>

definition running_after :: "addr \<Rightarrow> bool \<Rightarrow> bool \<Rightarrow> addr multiset \<Rightarrow> addr multiset" where
  "running_after p before after R =
     (if before = after then R else if before then add_mset p R else R - {#p#})"

lemma rt_replace_inv:
  assumes inv: "rt_inv rep C R H s" and q: "rt_procs s p = Some q"
    and q': "p_pid q' = p_pid q" "wf_owned cs q'" "idle_empty rep q'"
    and w: "mb_wait (p_mailbox q') \<longrightarrow> mb_wait (p_mailbox q) \<or> p \<in># R"
  shows "rt_inv rep (C(p := cs)) (running_after p (mb_wait (p_mailbox q)) (mb_wait (p_mailbox q')) R) H
    (s\<lparr>rt_procs := (rt_procs s)(p \<mapsto> q')\<rparr>)"
proof -
  let ?R = "running_after p (mb_wait (p_mailbox q)) (mb_wait (p_mailbox q')) R"
  let ?s = "s\<lparr>rt_procs := (rt_procs s)(p \<mapsto> q')\<rparr>"
  obtain ob where ob: "rg_heap (rt_reg s) p = Some ob" "proc_ok rep C R H (rt_reg s) (rt_resumed s) p ob q"
    "\<forall>i. rg_map (rt_reg s) i = Some p \<longleftrightarrow> i = pid_value (p_pid q) \<and> registered (rt_reg s) p (p_pid q)"
    using rt_invE [OF inv rt_inv_proc [OF inv q]] q by auto
  have "count R p + of_bool (mb_wait (p_mailbox q)) = count ?R p + of_bool (mb_wait (p_mailbox q'))"
    using w by (auto simp: running_after_def count_greater_zero_iff [symmetric] simp del: count_greater_zero_iff)
  then have "proc_ok rep (C(p := cs)) ?R H (rt_reg s) (rt_resumed s) p ob q'"
    using ob(2) q' by (simp add: proc_ok_def add.assoc)
  then have "at_ok rep (C(p := cs)) ?R H ?s p" using ob q'(1) by (simp add: at_ok_def proc_ok_def)
  then show ?thesis by (rule rt_inv_upd [OF inv]) (simp add: running_after_def)
qed

text \<open>\<^verbatim>\<open>push_message\<close> appends, takes a flag that is up down, and then queues the process.\<close>

definition pushed :: "('l, 'v message) append_ops \<Rightarrow> 'v message \<Rightarrow> ('v, 'l, 'i, 'h) process \<Rightarrow> ('v, 'l, 'i, 'h) process" where
  "pushed A msg q = q\<lparr>p_mailbox := (p_mailbox q)\<lparr>mb_wait := False, mb_write := al_push A msg (mb_write (p_mailbox q))\<rparr>\<rparr>"

lemma rt_push_eq:
  "rt_procs s p = Some q \<Longrightarrow> rt_push A p msg s =
    (let s1 = s\<lparr>rt_procs := (rt_procs s)(p \<mapsto> pushed A msg q)\<rparr>
     in if mb_wait (p_mailbox q) then rt_sched_resume p s1 else Some s1)"
  by (cases "mb_wait (p_mailbox q)"; cases "p_mailbox q")
    (simp_all add: rt_push_def rt_append_def rt_notify_def with_proc_def push_notify_def push_append_def pushed_def Let_def)

lemma rt_push_inv:
  assumes A: "append_list A (\<lambda>_ _. True) rep" and inv: "rt_inv rep C R H s" and held: "p \<in># H"
  shows "\<exists>s' q. rt_push A p msg s = Some s' \<and> rt_procs s p = Some q \<and> rt_inv rep C R H s' \<and>
    rt_procs s' = (rt_procs s)(p \<mapsto> pushed A msg q) \<and> rg_map (rt_reg s') = rg_map (rt_reg s) \<and>
    rt_resumed s' = (if mb_wait (p_mailbox q) then rt_resumed s @ [p] else rt_resumed s)"
proof -
  have "rg_heap (rt_reg s) p \<noteq> None" using rt_inv_held [OF inv] held by simp
  from rt_invE [OF inv this] obtain ob q where ob: "rt_procs s p = Some q"
    "proc_ok rep C R H (rt_reg s) (rt_resumed s) p ob q" by metis
  let ?q = "pushed A msg q"
  let ?s = "s\<lparr>rt_procs := (rt_procs s)(p \<mapsto> ?q)\<rparr>"
  have "wf_owned (C p) ?q"
    unfolding pushed_def by (rule same_tables_wf [OF same_tables_ops(10)]) (use ob(2) in \<open>simp add: proc_ok_def\<close>)
  moreover have "idle_empty rep ?q"
    using ob(2) append_list.rep_push [OF A, of "mb_write (p_mailbox q)" _ msg]
    by (auto simp: proc_ok_def idle_empty_def boxed_def pushed_def)
  ultimately have inv1: "rt_inv rep C (running_after p (mb_wait (p_mailbox q)) False R) H ?s"
    using rt_replace_inv [OF inv ob(1), of ?q "C p"] by (simp add: pushed_def)
  show ?thesis
  proof (cases "mb_wait (p_mailbox q)")
    case True
    then have "rt_inv rep C (add_mset p R) H ?s" using inv1 by (simp add: running_after_def)
    from rt_sched_resume_inv [OF this held] obtain s' where s': "rt_sched_resume p ?s = Some s'"
      "rt_procs s' = rt_procs ?s" "rt_resumed s' = rt_resumed ?s @ [p]" "rt_inv rep C R H s'" by blast
    from s'(1) have "rg_map (rt_reg s') = rg_map (rt_reg s)"
      by (auto simp: rt_sched_resume_def ref_def split: option.splits)
    with s' True ob(1) show ?thesis by (simp add: rt_push_eq)
  next
    case False
    with inv1 ob(1) show ?thesis by (simp add: rt_push_eq running_after_def)
  qed
qed

text \<open>Neither allocates or frees.\<close>

lemma ref_dom: "ref p r = Some r' \<Longrightarrow> dom (rg_heap r') = dom (rg_heap r)"
  by (auto simp: ref_def split: option.splits if_splits)

lemma rt_find_dom: "rt_find pid s = Some (found, s') \<Longrightarrow> card (dom (rg_heap (rt_reg s'))) = card (dom (rg_heap (rt_reg s)))"
  by (auto simp: rt_find_def find_def ref_dom split: option.splits)

lemma rt_push_dom: "rt_push A p msg s = Some s' \<Longrightarrow> card (dom (rg_heap (rt_reg s'))) = card (dom (rg_heap (rt_reg s)))"
  by (auto simp: rt_push_def rt_append_def rt_notify_def with_proc_def rt_sched_resume_def Let_def ref_dom
      split: option.splits bind_splits prod.splits if_splits)

section \<open>Calls\<close>

text \<open>
  The references of the calls on the stack, the number of processes and the weight of the calls:
  a call either does a bounded number of steps or destroys a process.
\<close>

fun task_refs :: "'v task list \<Rightarrow> addr multiset" where
  "task_refs [] = {#}"
| "task_refs (SendTask pid session content # tasks) = task_refs tasks"
| "task_refs (UnrefTask p # tasks) = add_mset p (task_refs tasks)"

fun task_weight :: "'v task \<Rightarrow> nat" where
  "task_weight (SendTask pid session content) = 2"
| "task_weight (UnrefTask p) = 1"

lemma task_refs_append: "task_refs (ts @ us) = task_refs ts + task_refs us"
  by (induction ts rule: task_refs.induct) simp_all

lemma task_refs_aborts: "task_refs (map abort_task aborts) = {#}"
  by (induction aborts) (simp_all add: abort_task_def split: prod.splits)

text \<open>Dropping a reference: the process stays, or it was the last one of a dead process, which goes.\<close>

lemma rt_unref_inv:
  assumes inv: "rt_inv rep C R (add_mset p H) s"
  shows "\<exists>r q. unref p (rt_reg s) = Some r \<and> rg_map r = rg_map (rt_reg s) \<and> rt_procs s p = Some q \<and> boxed rep q \<and>
    (if rg_heap r p \<noteq> None then rt_inv rep C R H (s\<lparr>rt_reg := r\<rparr>) \<and> dom (rg_heap r) = dom (rg_heap (rt_reg s))
     else rt_inv rep C R H (s\<lparr>rt_reg := r, rt_procs := (rt_procs s)(p := None)\<rparr>) \<and>
       dom (rg_heap r) \<subset> dom (rg_heap (rt_reg s)) \<and> p \<notin># H \<and> (\<forall>i. rg_map r i \<noteq> Some p))"
proof -
  let ?r = "rt_reg s"
  have "rg_heap ?r p \<noteq> None" using rt_inv_held [OF inv] by simp
  from rt_invE [OF inv this] obtain ob q where ob: "rg_heap ?r p = Some ob" "rt_procs s p = Some q"
    "proc_ok rep C R (add_mset p H) ?r (rt_resumed s) p ob q"
    "\<forall>i. rg_map ?r i = Some p \<longleftrightarrow> i = pid_value (p_pid q) \<and> registered ?r p (p_pid q)" .
  show ?thesis
  proof (cases "o_refcnt ob = 1")
    case True
    let ?r' = "?r\<lparr>rg_heap := (rg_heap ?r)(p := None)\<rparr>"
    let ?s = "s\<lparr>rt_reg := ?r', rt_procs := (rt_procs s)(p := None)\<rparr>"
    from ob(3) True have "\<not> registered ?r p (p_pid q)" "count (H + mset (rt_resumed s)) p = 0"
      by (cases "registered ?r p (p_pid q)"; simp add: proc_ok_def)+
    then have none: "count (H + mset (rt_resumed s)) p = 0" "\<forall>i. rg_map ?r i \<noteq> Some p" using ob(4) by simp_all
    then have "at_ok rep C R H ?s p" by (simp add: at_ok_def)
    then have "rt_inv rep C R H ?s" by (rule rt_inv_upd [OF inv]) simp
    moreover have "unref p ?r = Some ?r'" using ob(1) True by (simp add: unref_def)
    moreover have "dom (rg_heap ?r') \<subset> dom (rg_heap ?r)" using ob(1) by auto
    ultimately show ?thesis
      using ob(2,3) none by (intro exI [of _ ?r'] exI [of _ q]) (simp add: proc_ok_def idle_empty_def count_eq_zero_iff)
  next
    case False
    let ?r' = "?r\<lparr>rg_heap := (rg_heap ?r)(p := Some (ob\<lparr>o_refcnt := o_refcnt ob - 1\<rparr>))\<rparr>"
    let ?s = "s\<lparr>rt_reg := ?r'\<rparr>"
    have "at_ok rep C R H ?s p" using ob False by (simp add: at_ok_def proc_ok_def ref_simps)
    then have "rt_inv rep C R H ?s" by (rule rt_inv_upd [OF inv]) simp
    moreover have "unref p ?r = Some ?r'" using ob(1) False by (simp add: unref_def)
    ultimately show ?thesis
      using ob(1-3) by (intro exI [of _ ?r'] exI [of _ q]) (auto simp: proc_ok_def idle_empty_def)
  qed
qed

lemma rt_tasks_return:
  fixes s :: "('v, 'l, 'i, 'h, 'z) runtime_scheme"
  assumes A: "append_list A (\<lambda>_ _. True) rep"
  shows "rt_inv rep C R (H + task_refs tasks) s \<Longrightarrow> \<exists>s'. rt_tasks A self tasks s = Some (Some s') \<and> rt_inv rep C R H s'"
proof (induction "(card (dom (rg_heap (rt_reg s))), sum_list (map task_weight tasks))"
    arbitrary: tasks s rule: wf_induct_rule [OF wf_lex_prod [OF wf_less wf_less]])
  case (1 tasks s)
  let ?n = "\<lambda>s :: ('v, 'l, 'i, 'h, 'z) runtime_scheme. card (dom (rg_heap (rt_reg s)))"
  have IH: "\<exists>s'. rt_tasks A self ts t = Some (Some s') \<and> rt_inv rep C R H s'"
    if "rt_inv rep C R (H + task_refs ts) t" "?n t < ?n s \<or> ?n t = ?n s \<and>
      sum_list (map task_weight ts) < sum_list (map task_weight tasks)" for ts t
    using 1(1) [of t ts] that by auto
  show ?case
  proof (cases tasks)
    case Nil
    with 1(2) show ?thesis by (subst rt_tasks.simps) simp
  next
    case (Cons task rest)
    show ?thesis
    proof (cases task)
      case (SendTask pid session content)
      with 1(2) Cons have inv: "rt_inv rep C R (H + task_refs rest) s" by simp
      from rt_find_inv [OF this, of pid] obtain found s1 where f: "rt_find pid s = Some (found, s1)"
        "rt_inv rep C R (case found of None \<Rightarrow> H + task_refs rest | Some p \<Rightarrow> add_mset p (H + task_refs rest)) s1"
        by blast
      have n1: "?n s1 = ?n s" by (rule rt_find_dom [OF f(1)])
      show ?thesis
      proof (cases found)
        case None
        with f IH [of rest s1] n1 Cons SendTask show ?thesis by (subst rt_tasks.simps) simp
      next
        case (Some p)
        with f have inv1: "rt_inv rep C R (add_mset p (H + task_refs rest)) s1" by simp
        let ?m = "message_create self session content"
        from rt_push_inv [OF A inv1, of p ?m] obtain s2 where s2: "rt_push A p ?m s1 = Some s2"
          "rt_inv rep C R (add_mset p (H + task_refs rest)) s2" by auto
        have "?n s2 = ?n s" using rt_push_dom [OF s2(1)] n1 by simp
        with IH [of "UnrefTask p # rest" s2] s2 f(1) Some Cons SendTask show ?thesis
          by (subst rt_tasks.simps) simp
      qed
    next
      case (UnrefTask p)
      with 1(2) Cons have inv: "rt_inv rep C R (add_mset p (H + task_refs rest)) s" by simp
      from rt_unref_inv [OF inv] obtain r q where u: "unref p (rt_reg s) = Some r" "rt_procs s p = Some q" "boxed rep q"
        "if rg_heap r p \<noteq> None then rt_inv rep C R (H + task_refs rest) (s\<lparr>rt_reg := r\<rparr>) \<and> dom (rg_heap r) = dom (rg_heap (rt_reg s))
         else rt_inv rep C R (H + task_refs rest) (s\<lparr>rt_reg := r, rt_procs := (rt_procs s)(p := None)\<rparr>) \<and>
           dom (rg_heap r) \<subset> dom (rg_heap (rt_reg s))" by auto
      show ?thesis
      proof (cases "rg_heap r p = None")
        case False
        with u IH [of rest "s\<lparr>rt_reg := r\<rparr>"] Cons UnrefTask show ?thesis by (subst rt_tasks.simps) simp
      next
        case True
        obtain aborts where d: "proc_destructor A q = Some aborts"
          using u(3) destructor_total [OF A] by (auto simp: boxed_def)
        have "card (dom (rg_heap r)) < ?n s"
          using u(4) True inv by (intro psubset_card_mono) (simp_all add: rt_inv_def)
        with IH [of "map abort_task aborts @ rest" "s\<lparr>rt_reg := r, rt_procs := (rt_procs s)(p := None)\<rparr>"]
          u True d Cons UnrefTask show ?thesis
          by (subst rt_tasks.simps) (simp add: task_refs_append task_refs_aborts)
      qed
    qed
  qed
qed

section \<open>A turn\<close>

lemma seg_mail_honest: "append_list A (\<lambda>_ _. True) rep \<Longrightarrow> honest B I seg \<Longrightarrow> append_list B (\<lambda>_ _. True) rep \<Longrightarrow> seg_mail rep seg"
  by (auto simp: seg_mail_def intro: honest_mail)

lemma idle_emptyI:
  "boxed rep q \<Longrightarrow> (mb_wait (p_mailbox q) \<Longrightarrow> mb_read (p_mailbox q) = [] \<and> rep (mb_write (p_mailbox q)) []) \<Longrightarrow> idle_empty rep q"
  by (simp add: idle_empty_def)

text \<open>The three decisions, with the reference of the queue in the hands of the worker.\<close>

lemma unreg_inv:
  assumes inv: "rt_inv rep C (add_mset p R) (add_mset p H) s" and q: "rt_procs s p = Some q"
  shows "\<exists>r. unreg (p_pid q) (rt_reg s) = (True, r) \<and> rt_inv rep C R (add_mset p (add_mset p H)) (s\<lparr>rt_reg := r\<rparr>)"
proof -
  let ?r = "rt_reg s"
  obtain ob where ob: "rg_heap ?r p = Some ob" "proc_ok rep C (add_mset p R) (add_mset p H) ?r (rt_resumed s) p ob q"
    "\<forall>i. rg_map ?r i = Some p \<longleftrightarrow> i = pid_value (p_pid q) \<and> registered ?r p (p_pid q)"
    using rt_invE [OF inv rt_inv_proc [OF inv q]] q by auto
  then have reg: "registered ?r p (p_pid q)" by (cases "registered ?r p (p_pid q)"; simp add: proc_ok_def)
  let ?r' = "?r\<lparr>rg_map := (rg_map ?r)(pid_value (p_pid q) := None)\<rparr>"
  have map: "rg_map ?r' i \<noteq> Some p" for i using ob(3) by simp
  then have "\<not> registered ?r' p (p_pid q)" by (simp add: registered_def)
  with ob q reg map have "at_ok rep C R (add_mset p (add_mset p H)) (s\<lparr>rt_reg := ?r'\<rparr>) p"
    by (simp add: at_ok_def proc_ok_def)
  then have "rt_inv rep C R (add_mset p (add_mset p H)) (s\<lparr>rt_reg := ?r'\<rparr>)"
    by (rule rt_inv_upd [OF inv]) (use reg in \<open>auto simp: registered_def\<close>)
  then show ?thesis using reg by (simp add: unreg_def registered_def)
qed

text \<open>The worker takes the process from the queue, and the reference with it.\<close>

lemma rt_dequeue_inv:
  assumes "rt_inv rep C R H s" "rt_resumed s = p # ps"
  shows "rt_inv rep C (add_mset p R) (add_mset p H) (s\<lparr>rt_resumed := ps\<rparr>)"
proof -
  have "at_ok rep C (add_mset p R) (add_mset p H) (s\<lparr>rt_resumed := ps\<rparr>) a" for a
    using rt_inv_at [OF assms(1), of a] assms(2)
    by (cases "rg_heap (rt_reg s) a"; cases "rt_procs s a") (auto simp: at_ok_def proc_ok_def)
  with assms(1) show ?thesis by (simp add: rt_inv_def)
qed

lemma turn_inv:
  assumes A: "append_list A (\<lambda>_ _. True) rep" and h: "honest A I seg" and inv: "rt_inv rep between {#p#} (add_mset p H) s"
    and q: "rt_procs s p = Some q" and out: "proc_resume A seg q = Some out"
  shows "\<exists>res q1. out = Normal (res, q1) \<and> p_pid q1 = p_pid q \<and>
    rt_inv rep between (if res = kBreak then {#} else {#p#}) (add_mset p H) (s\<lparr>rt_procs := (rt_procs s)(p \<mapsto> q1)\<rparr>)"
proof -
  obtain ob where "proc_ok rep between {#p#} (add_mset p H) (rt_reg s) (rt_resumed s) p ob q"
    using rt_invE [OF inv rt_inv_proc [OF inv q]] q by (metis option.inject)
  then have ok: "wf_owned {#} q" "boxed rep q" "\<not> mb_wait (p_mailbox q)"
    by (cases "registered (rt_reg s) p (p_pid q)"; auto simp: proc_ok_def idle_empty_def)+
  from turn_wf [OF h ok(1) out] obtain res q1 where q1: "out = Normal (res, q1)" "wf_owned {#} q1" by blast
  from turn_mail [OF A _ seg_mail_honest [OF A h A] ok(2,3)] out q1(1)
  have m: "p_pid q1 = p_pid q" "boxed rep q1" "mb_wait (p_mailbox q1) \<longleftrightarrow> res = kBreak"
    "res = kBreak \<longrightarrow> mb_read (p_mailbox q1) = [] \<and> rep (mb_write (p_mailbox q1)) []" by auto
  then have "idle_empty rep q1" by (simp add: idle_empty_def)
  with rt_replace_inv [OF inv q m(1) q1(2)] ok(3) m(3) q1(1) m(1) show ?thesis
    by (cases "res = kBreak") (simp_all add: running_after_def)
qed

lemma resume_process_return:
  assumes A: "append_list A (\<lambda>_ _. True) rep" and h: "honest A I seg"
    and inv: "rt_inv rep between {#p#} (add_mset p H) s" and r: "resume_process A seg p s = Some t"
  shows "\<exists>s'. t = Some s' \<and> rt_inv rep between {#} H s'"
proof -
  have "rg_heap (rt_reg s) p \<noteq> None" using rt_inv_held [OF inv] by simp
  from rt_invE [OF inv this] obtain q where q: "rt_procs s p = Some q" by metis
  obtain out where out: "proc_resume A seg q = Some out"
    using r q by (auto simp: resume_process_def split: option.splits)
  from turn_inv [OF A h inv q out] obtain res q1 where q1: "out = Normal (res, q1)"
    and inv1: "rt_inv rep between (if res = kBreak then {#} else {#p#}) (add_mset p H) (s\<lparr>rt_procs := (rt_procs s)(p \<mapsto> q1)\<rparr>)"
    by blast
  let ?s = "s\<lparr>rt_procs := (rt_procs s)(p \<mapsto> q1)\<rparr>"
  note ret = rt_tasks_return [OF A, of between "{#}" H]
  show ?thesis
  proof (cases res)
    case kResume
    with inv1 rt_sched_resume_inv [of rep between p "{#}" "add_mset p H" ?s] obtain s2 where
      s2: "rt_sched_resume p ?s = Some s2" "rt_inv rep between {#} (add_mset p H) s2" by auto
    with ret [of "[UnrefTask p]" s2 "process_t 0"] r q out q1 kResume show ?thesis
      by (auto simp: resume_process_def Let_def)
  next
    case kDown
    with inv1 unreg_inv [of rep between p "{#}" H ?s q1] obtain r' where
      r': "unreg (p_pid q1) (rt_reg s) = (True, r')" "rt_inv rep between {#} (add_mset p (add_mset p H)) (?s\<lparr>rt_reg := r'\<rparr>)" by auto
    with ret [of "[UnrefTask p, UnrefTask p]" "?s\<lparr>rt_reg := r'\<rparr>" "process_t 0"] r q out q1 kDown show ?thesis
      by (auto simp: resume_process_def Let_def)
  next
    case kBreak
    with inv1 ret [of "[UnrefTask p]" ?s "process_t 0"] r q out q1 show ?thesis
      by (auto simp: resume_process_def Let_def)
  qed
qed

section \<open>Every history\<close>

text \<open>
  The state, the references held by threads, and what happens: a process is created (its address
  and its identifier are new), a reference is found, used to append a message, and dropped, a call
  of \<^verbatim>\<open>send\<close>, \<^verbatim>\<open>kill\<close> or \<^verbatim>\<open>response\<close> is made, a worker takes a process from the
  queue and runs its turn. \<^verbatim>\<open>request\<close> is its parts: the reference, the message, and the waiting in the
  turn of the caller.
\<close>

inductive rt_step :: "('l, 'v message) append_ops \<Rightarrow> 'i alloc_ops \<Rightarrow>
    ('v, 'l, 'i, 'h) runtime \<times> addr multiset \<Rightarrow> ('v, 'l, 'i, 'h) runtime \<times> addr multiset \<Rightarrow> bool"
  for A :: "('l, 'v message) append_ops" and I :: "'i alloc_ops" where
  rt_spawned: "rg_heap (rt_reg s) p = None \<Longrightarrow> rg_map (rt_reg s) (rg_seq (rt_reg s) + 1) = None \<Longrightarrow>
    rt_spawn A p co ids s = Some (pid, t) \<Longrightarrow> rt_step A I (s, H) (t, H)"
| rt_found: "rt_find pid s = Some (Some p, t) \<Longrightarrow> rt_step A I (s, H) (t, add_mset p H)"
| rt_pushed: "p \<in># H \<Longrightarrow> rt_push A p msg s = Some t \<Longrightarrow> rt_step A I (s, H) (t, H)"
| rt_dropped: "p \<in># H \<Longrightarrow> rt_tasks A self [UnrefTask p] s = Some (Some t) \<Longrightarrow> rt_step A I (s, H) (t, H - {#p#})"
| rt_sent: "rt_tasks A self [SendTask pid session content] s = Some (Some t) \<Longrightarrow> rt_step A I (s, H) (t, H)"
| rt_turn: "rt_resumed s = p # ps \<Longrightarrow> honest A I seg \<Longrightarrow>
    resume_process A seg p (s\<lparr>rt_resumed := ps\<rparr>) = Some (Some t) \<Longrightarrow> rt_step A I (s, H) (t, H)"

definition rt_init :: "('v, 'l, 'i, 'h) runtime \<times> addr multiset \<Rightarrow> bool" where
  "rt_init sh \<longleftrightarrow> sh = (runtime_start, {#})"

lemma rt_inv_init: "rt_inv rep between {#} {#} runtime_start"
  by (simp add: rt_inv_def at_ok_def runtime_start_def registry_start_def)

lemma create_mail: "p_pid (proc_create co pid mb ids) = pid" "p_mailbox (proc_create co pid mb ids) = mb"
  by (simp_all add: proc_create_def same_mail proc_new_def)

lemma rt_spawn_inv:
  assumes A: "append_list A (\<lambda>_ _. True) rep" and inv: "rt_inv rep C R H s"
    and fresh: "rg_heap (rt_reg s) p = None" "rg_map (rt_reg s) (rg_seq (rt_reg s) + 1) = None" "p \<notin># R" "C p = {#}"
  shows "\<exists>t. rt_spawn A p co ids s = Some (process_t (rg_seq (rt_reg s) + 1), t) \<and> rt_inv rep C R H t"
proof -
  let ?id = "rg_seq (rt_reg s) + 1"
  let ?q = "proc_create co (process_t ?id) (mailbox_new A) ids"
  let ?ob = "\<lparr>o_pid = process_t ?id, o_refcnt = 2, o_wait = False\<rparr>"
  let ?t = "s\<lparr>rt_reg := \<lparr>rg_seq = ?id, rg_map = (rg_map (rt_reg s))(?id \<mapsto> p), rg_heap = (rg_heap (rt_reg s))(p \<mapsto> ?ob)\<rparr>,
    rt_procs := (rt_procs s)(p \<mapsto> ?q), rt_resumed := rt_resumed s @ [p]\<rparr>"
  have t: "rt_spawn A p co ids s = Some (process_t ?id, ?t)"
    by (simp add: rt_spawn_def create_def reg_def Let_def rt_sched_resume_def ref_def)
  have none: "count (H + mset (rt_resumed s)) p = 0" "\<forall>i. rg_map (rt_reg s) i \<noteq> Some p"
    using rt_inv_at [OF inv, of p] fresh(1) by (simp_all add: at_ok_def)
  have "idle_empty rep ?q"
    using append_list.rep_empty [OF A] by (auto simp: idle_empty_def boxed_def create_mail mailbox_new_def)
  moreover have "count R p = 0" using fresh(3) by (simp add: count_eq_zero_iff)
  ultimately have "at_ok rep C R H ?t p"
    using none fresh(4) wf_create [of co "process_t ?id" "mailbox_new A" ids]
    by (simp add: at_ok_def proc_ok_def registered_def create_mail mailbox_new_def)
  then have "rt_inv rep C R H ?t" by (rule rt_inv_upd [OF inv]) (use fresh in auto)
  with t show ?thesis by blast
qed

lemma rt_step_inv:
  assumes A: "append_list A (\<lambda>_ _. True) rep" and st: "rt_step A I sh th" and inv: "rt_inv rep between {#} (snd sh) (fst sh)"
  shows "rt_inv rep between {#} (snd th) (fst th)"
  using st
proof cases
  case (rt_spawned s p co ids pid t H)
  with rt_spawn_inv [OF A _ rt_spawned(3,4), of between "{#}" H co ids] inv show ?thesis by auto
next
  case (rt_found pid s p t H)
  with rt_find_inv [of rep between "{#}" H s pid] inv show ?thesis by auto
next
  case (rt_pushed p H msg s t)
  with rt_push_inv [OF A, of between "{#}" H s p msg] inv show ?thesis by auto
next
  case (rt_dropped p H self s t)
  with rt_tasks_return [OF A, of between "{#}" "H - {#p#}" "[UnrefTask p]" s self] inv show ?thesis by auto
next
  case (rt_sent self pid session content s t H)
  with rt_tasks_return [OF A, of between "{#}" H "[SendTask pid session content]" s self] inv show ?thesis by auto
next
  case (rt_turn s p ps seg t H)
  have "rt_inv rep between {#p#} (add_mset p H) (s\<lparr>rt_resumed := ps\<rparr>)"
    using rt_dequeue_inv [of rep between "{#}" H s p ps] rt_turn inv by simp
  with resume_process_return [OF A rt_turn(4) this rt_turn(5)] rt_turn show ?thesis by auto
qed

lemma rt_reach_inv:
  assumes A: "append_list A (\<lambda>_ _. True) rep" and r: "reach rt_init (rt_step A I) (s, H)"
  shows "rt_inv rep between {#} H s"
proof -
  have "rt_inv rep between {#} (snd sh) (fst sh)" if "reach rt_init (rt_step A I) sh" for sh
    using that by induction (auto simp: rt_init_def rt_inv_init intro: rt_step_inv [OF A])
  from this [OF r] show ?thesis by simp
qed

section \<open>What the runtime promises\<close>

text \<open>A small history for the witnesses: one process, which has run once and waits.\<close>

definition small_ops :: "nat alloc_ops" where
  "small_ops = \<lparr>ia_new = (\<lambda>i. (of_nat (Suc i), Suc i)), ia_erase = (\<lambda>_ i. i)\<rparr>"

lemma first_history:
  "\<exists>s :: ('v, 'v message list, nat, 'h) runtime. reach rt_init (rt_step queue_ops small_ops) (s, {#}) \<and>
    rt_resumed s = [7] \<and> rg_seq (rt_reg s) = 1 \<and> rg_map (rt_reg s) = [1 \<mapsto> 7] \<and>
    rt_procs s = [7 \<mapsto> proc_create 3 (process_t 1) (mailbox_new queue_ops) 0]"
proof -
  let ?s0 = "runtime_start :: ('v, 'v message list, nat, 'h) runtime"
  obtain t where t: "rt_spawn queue_ops 7 3 0 ?s0 = Some (process_t (0 + 1), t)"
    using rt_spawn_inv [OF queue_append_list rt_inv_init, of 7 3 0]
    by (auto simp: runtime_start_def registry_start_def)
  have "reach rt_init (rt_step queue_ops small_ops) (?s0, {#})" by (rule reach_init) (simp add: rt_init_def)
  moreover have "rt_step queue_ops small_ops (?s0, {#}) (t, {#})"
    by (rule rt_step.rt_spawned [OF _ _ t]) (simp_all add: runtime_start_def registry_start_def)
  ultimately have "reach rt_init (rt_step queue_ops small_ops) (t, {#})" by (rule reach_step)
  moreover have "rt_resumed t = [7] \<and> rg_seq (rt_reg t) = 1 \<and> rg_map (rt_reg t) = [1 \<mapsto> 7] \<and>
      rt_procs t = [7 \<mapsto> proc_create 3 (process_t 1) (mailbox_new queue_ops) 0]"
    using t by (auto simp: rt_spawn_def create_def reg_def Let_def rt_sched_resume_def ref_def runtime_start_def registry_start_def)
  ultimately show ?thesis by blast
qed

lemma small_history:
  "\<exists>s :: (nat, nat message list, nat, nat) runtime. reach rt_init (rt_step queue_ops small_ops) (s, {#}) \<and>
    rt_resumed s = [7] \<and> rg_map (rt_reg s) = [1 \<mapsto> 7] \<and>
    rt_procs s = [7 \<mapsto> proc_create 3 (process_t 1) (mailbox_new queue_ops) 0]"
  using first_history by blast

text \<open>C1
  In every state the runtime can reach, every call of an application returns and none uses a
  freed process: \<^verbatim>\<open>send\<close>, \<^verbatim>\<open>kill\<close> and \<^verbatim>\<open>response\<close> to any identifier, whatever
  destructors they set off, the append through a reference that is held, and its release. A turn of
  the process at the head of the queue, when its coroutines come back, ends without an error too.\<close>

theorem runtime_calls_return:
  assumes "append_list A (\<lambda>_ _. True) rep" "reach rt_init (rt_step A I) (s, H)"
  shows "(\<exists>t. rt_tasks A self [SendTask pid session content] s = Some (Some t)) \<and>
    (p \<in># H \<longrightarrow> (\<exists>t. rt_push A p msg s = Some t) \<and> (\<exists>t. rt_tasks A self [UnrefTask p] s = Some (Some t))) \<and>
    (rt_resumed s = p # ps \<and> honest A I seg \<longrightarrow> resume_process A seg p (s\<lparr>rt_resumed := ps\<rparr>) \<noteq> Some None)"
proof (intro conjI impI)
  note inv = rt_reach_inv [OF assms]
  show "\<exists>t. rt_tasks A self [SendTask pid session content] s = Some (Some t)"
    using rt_tasks_return [OF assms(1), of between "{#}" H "[SendTask pid session content]"] inv by auto
  assume p: "p \<in># H"
  then show "\<exists>t. rt_push A p msg s = Some t" using rt_push_inv [OF assms(1) inv, of p msg] by blast
  show "\<exists>t. rt_tasks A self [UnrefTask p] s = Some (Some t)"
    using rt_tasks_return [OF assms(1), of between "{#}" "H - {#p#}" "[UnrefTask p]"] inv p by auto
next
  assume "rt_resumed s = p # ps \<and> honest A I seg"
  then show "resume_process A seg p (s\<lparr>rt_resumed := ps\<rparr>) \<noteq> Some None"
    using resume_process_return [OF assms(1) _ rt_dequeue_inv [OF rt_reach_inv [OF assms]]] by blast
qed

theorem runtime_calls_return_witness:
  "\<exists>s t :: (nat, nat message list, nat, nat) runtime. reach rt_init (rt_step queue_ops small_ops) (s, {#}) \<and>
    rt_tasks queue_ops (process_t 0) [SendTask (process_t 1) (session_t 0) KillProcess] s = Some (Some t) \<and>
    resume_process queue_ops patient 7 (s\<lparr>rt_resumed := []\<rparr>) \<noteq> Some None"
proof -
  from small_history obtain s :: "(nat, nat message list, nat, nat) runtime" where
    s: "reach rt_init (rt_step queue_ops small_ops) (s, {#})" "rt_resumed s = [7]" by blast
  from runtime_calls_return [OF queue_append_list s(1), of "process_t 0" "process_t 1" "session_t 0" KillProcess 7
      "message_create (process_t 0) (session_t 0) EmptyAny" "[]" patient] s honest_patient
  show ?thesis by blast
qed

text \<open>
  A registered process, in every state between turns, is queued exactly once or waits with an
  empty mailbox; a process that is not registered any more is not queued and is kept only by the
  references of threads.\<close>

theorem runtime_queued_or_idle:
  assumes "append_list A (\<lambda>_ _. True) rep" "reach rt_init (rt_step A I) (s, H)" "rt_procs s p = Some q"
  shows "if rg_map (rt_reg s) (pid_value (p_pid q)) = Some p
    then count (mset (rt_resumed s)) p = (if mb_wait (p_mailbox q) then 0 else 1) \<and>
      (mb_wait (p_mailbox q) \<longrightarrow> mb_read (p_mailbox q) = [] \<and> rep (mb_write (p_mailbox q)) [])
    else p \<notin> set (rt_resumed s) \<and> p \<in># H"
proof -
  note inv = rt_reach_inv [OF assms(1,2)]
  obtain ob where "proc_ok rep between {#} H (rt_reg s) (rt_resumed s) p ob q"
    using rt_invE [OF inv rt_inv_proc [OF inv assms(3)]] assms(3) by auto
  then show ?thesis
    by (cases "count (mset (rt_resumed s)) p")
      (auto simp: proc_ok_def registered_def idle_empty_def count_mset_0_iff split: if_splits)
qed

theorem runtime_queued_or_idle_witness:
  "\<exists>(s :: (nat, nat message list, nat, nat) runtime) q. reach rt_init (rt_step queue_ops small_ops) (s, {#}) \<and>
    rt_procs s 7 = Some q \<and> count (mset (rt_resumed s)) 7 = (if mb_wait (p_mailbox q) then 0 else 1)"
proof -
  from small_history obtain s :: "(nat, nat message list, nat, nat) runtime" where
    s: "reach rt_init (rt_step queue_ops small_ops) (s, {#})" "rg_map (rt_reg s) 1 = Some 7" by auto
  note inv = rt_reach_inv [OF queue_append_list s(1)]
  obtain q where q: "rt_procs s 7 = Some q" using rt_invE [OF inv rt_inv_map [OF inv s(2)]] by metis
  from runtime_queued_or_idle [OF queue_append_list s(1) q] s(1) q show ?thesis
    by (auto split: if_splits)
qed

text \<open>One call of \<^verbatim>\<open>send\<close>, \<^verbatim>\<open>kill\<close> or \<^verbatim>\<open>response\<close>.\<close>

lemma send_task:
  fixes s :: "('v, 'l, 'i, 'h) runtime"
  assumes "append_list A (\<lambda>_ _. True) rep" "rt_inv rep C R H s"
  shows "case rg_map (rt_reg s) (pid_value pid) of
      None \<Rightarrow> rt_tasks A self [SendTask pid session content] s = Some (Some s)
    | Some p \<Rightarrow> \<exists>q ws t. rt_procs s p = Some q \<and> rep (mb_write (p_mailbox q)) ws \<and>
        rt_tasks A self [SendTask pid session content] s = Some (Some t) \<and>
        rt_procs t = (rt_procs s)(p \<mapsto> q\<lparr>p_mailbox := (p_mailbox q)\<lparr>mb_wait := False,
          mb_write := al_push A (message_create self session content) (mb_write (p_mailbox q))\<rparr>\<rparr>) \<and>
        rep (al_push A (message_create self session content) (mb_write (p_mailbox q)))
          (ws @ [message_create self session content]) \<and>
        rt_resumed t = rt_resumed s @ (if mb_wait (p_mailbox q) then [p] else []) \<and>
        rg_map (rt_reg t) = rg_map (rt_reg s)"
proof (cases "rg_map (rt_reg s) (pid_value pid)")
  case None
  then show ?thesis
    by (simp add: rt_find_def find_def) (subst rt_tasks.simps, simp add: rt_find_def find_def rt_tasks.simps)
next
  case (Some p)
  note inv = assms(2)
  let ?m = "message_create self session content"
  from rt_find_inv [OF inv, of pid] Some obtain s1 where f: "rt_find pid s = Some (Some p, s1)"
    "rt_procs s1 = rt_procs s" "rt_inv rep C R (add_mset p H) s1" by auto
  have s1: "rt_resumed s1 = rt_resumed s" "rg_map (rt_reg s1) = rg_map (rt_reg s)"
    using f(1) by (auto simp: rt_find_def find_def ref_def split: option.splits)
  from rt_push_inv [OF assms(1) f(3), of p ?m] obtain s2 q where s2: "rt_push A p ?m s1 = Some s2"
    "rt_procs s1 p = Some q" "rt_inv rep C R (add_mset p H) s2" "rt_procs s2 = (rt_procs s1)(p \<mapsto> pushed A ?m q)"
    "rg_map (rt_reg s2) = rg_map (rt_reg s1)"
    "rt_resumed s2 = (if mb_wait (p_mailbox q) then rt_resumed s1 @ [p] else rt_resumed s1)" by auto
  from rt_unref_inv [OF s2(3)] obtain r where r: "unref p (rt_reg s2) = Some r" "rg_map r = rg_map (rt_reg s2)"
    "rg_heap r p = None \<longrightarrow> (\<forall>i. rg_map r i \<noteq> Some p)" by (auto split: if_splits)
  then have "rg_heap r p \<noteq> None" using Some s1 s2(5) by auto
  with f s2 r(1) have t: "rt_tasks A self [SendTask pid session content] s = Some (Some (s2\<lparr>rt_reg := r\<rparr>))"
    by (simp add: rt_tasks.simps)
  obtain ob where "proc_ok rep C R H (rt_reg s) (rt_resumed s) p ob q"
    using rt_invE [OF inv rt_inv_proc [OF inv]] s2(2) f(2) by (metis option.inject)
  then obtain ws where ws: "rep (mb_write (p_mailbox q)) ws"
    by (auto simp: proc_ok_def idle_empty_def boxed_def)
  then have "rep (al_push A ?m (mb_write (p_mailbox q))) (ws @ [?m])"
    by (rule append_list.rep_push [OF assms(1)]) simp
  with Some t ws s2 f(2) s1 r(2) show ?thesis
    by (auto simp: pushed_def intro!: exI [of _ q] exI [of _ ws] exI [of _ "s2\<lparr>rt_reg := r\<rparr>"])
qed

text \<open>C9
  Delivery. A message sent to a registered identifier is appended to that mailbox, behind
  everything in it, with the sender's identifier and the session; the process is queued exactly when it
  was waiting; no other process and no entry of the table changes. To any other identifier
  nothing happens at all.\<close>

theorem send_delivers:
  fixes s :: "('v, 'l, 'i, 'h) runtime"
  assumes "append_list A (\<lambda>_ _. True) rep" "reach rt_init (rt_step A I) (s, H)"
  shows "case rg_map (rt_reg s) (pid_value pid) of
      None \<Rightarrow> rt_send A cur pid session content s = Some (Some s)
    | Some p \<Rightarrow> \<exists>q ws t. rt_procs s p = Some q \<and> rep (mb_write (p_mailbox q)) ws \<and>
        rt_send A cur pid session content s = Some (Some t) \<and>
        rt_procs t = (rt_procs s)(p \<mapsto> q\<lparr>p_mailbox := (p_mailbox q)\<lparr>mb_wait := False,
          mb_write := al_push A (message_create (rt_self cur s) session content) (mb_write (p_mailbox q))\<rparr>\<rparr>) \<and>
        rep (al_push A (message_create (rt_self cur s) session content) (mb_write (p_mailbox q)))
          (ws @ [message_create (rt_self cur s) session content]) \<and>
        rt_resumed t = rt_resumed s @ (if mb_wait (p_mailbox q) then [p] else []) \<and>
        rg_map (rt_reg t) = rg_map (rt_reg s)"
  unfolding rt_send_def by (rule send_task [OF assms(1) rt_reach_inv [OF assms]])

theorem send_delivers_witness:
  "\<exists>(s :: (nat, nat message list, nat, nat) runtime) t q. rt_procs s 7 = Some q \<and>
    rt_send queue_ops None (process_t 1) (session_t 0) KillProcess s = Some (Some t) \<and>
    rt_procs t 7 = Some (q\<lparr>p_mailbox := (p_mailbox q)\<lparr>mb_wait := False,
      mb_write := mb_write (p_mailbox q) @ [message_create (process_t 0) (session_t 0) KillProcess]\<rparr>\<rparr>)"
proof -
  from small_history obtain s :: "(nat, nat message list, nat, nat) runtime" where
    s: "reach rt_init (rt_step queue_ops small_ops) (s, {#})" "rg_map (rt_reg s) 1 = Some 7" by auto
  from send_delivers [OF queue_append_list s(1), of None "process_t 1" "session_t 0" KillProcess] s(2)
  obtain q t where "rt_procs s 7 = Some q" "rt_send queue_ops None (process_t 1) (session_t 0) KillProcess s = Some (Some t)"
    "rt_procs t = (rt_procs s)(7 \<mapsto> q\<lparr>p_mailbox := (p_mailbox q)\<lparr>mb_wait := False,
      mb_write := mb_write (p_mailbox q) @ [message_create (process_t 0) (session_t 0) KillProcess]\<rparr>\<rparr>)"
    by (auto simp: rt_self_def)
  then show ?thesis by (intro exI [of _ s] exI [of _ t] exI [of _ q]) simp
qed

text \<open>C13
  The objects of the reachable states are well formed. An address is allocated in the table exactly
  when the process is; its identifier is the process's; its count is the number of references, one for
  the entry of the table; every coroutine of the process is in exactly one of its tables. Nothing
  refers to an address that is not allocated.\<close>

theorem runtime_well_formed:
  assumes "append_list A (\<lambda>_ _. True) rep" "reach rt_init (rt_step A I) (s, H)"
  shows "case rg_heap (rt_reg s) a of
      None \<Rightarrow> rt_procs s a = None \<and> a \<notin># H \<and> a \<notin> set (rt_resumed s) \<and> (\<forall>i. rg_map (rt_reg s) i \<noteq> Some a)
    | Some ob \<Rightarrow> \<exists>q. rt_procs s a = Some q \<and> o_pid ob = p_pid q \<and> wf_owned {#} q \<and>
        o_refcnt ob = of_bool (rg_map (rt_reg s) (pid_value (p_pid q)) = Some a) + int (count (H + mset (rt_resumed s)) a) \<and>
        (\<forall>i. rg_map (rt_reg s) i = Some a \<longrightarrow> i = pid_value (p_pid q))"
  using rt_inv_at [OF rt_reach_inv [OF assms], of a]
  by (cases "rg_heap (rt_reg s) a"; cases "rt_procs s a")
    (auto simp: at_ok_def proc_ok_def registered_def count_eq_zero_iff)

theorem runtime_well_formed_witness:
  "\<exists>(s :: (nat, nat message list, nat, nat) runtime) q ob. rg_heap (rt_reg s) 7 = Some ob \<and> rt_procs s 7 = Some q \<and>
    o_pid ob = p_pid q \<and> wf_owned {#} q"
proof -
  from small_history obtain s :: "(nat, nat message list, nat, nat) runtime" where
    s: "reach rt_init (rt_step queue_ops small_ops) (s, {#})" "rg_map (rt_reg s) 1 = Some 7" by auto
  from runtime_well_formed [OF queue_append_list s(1), of 7] s(2) show ?thesis
    by (cases "rg_heap (rt_reg s) 7") auto
qed

section \<open>A process that dies\<close>

text \<open>C19
  A request pins its addressee. If the process ends its turn dead while a thread holds a reference
  to it, as every \<^verbatim>\<open>request\<close> that waits for its answer does, then it is unregistered but not
  destroyed: its destructor does not run, no abort is sent, no process changes, and the requests
  it has not answered stay open.\<close>

theorem dead_target_keeps_requests:
  fixes s :: "('v, 'l, 'i, 'h) runtime"
  assumes "append_list A (\<lambda>_ _. True) rep" "reach rt_init (rt_step A I) (s, H)" "p \<in># H"
    and "rt_resumed s = p # ps" "honest A I seg" "rt_procs s p = Some q"
    and "proc_resume A seg q = Some (Normal (kDown, q1))"
  shows "\<exists>t. resume_process A seg p (s\<lparr>rt_resumed := ps\<rparr>) = Some (Some t) \<and>
    rt_procs t = (rt_procs s)(p \<mapsto> q1) \<and> rt_resumed t = ps \<and> rt_find (p_pid q) t = Some (None, t)"
proof -
  let ?s = "s\<lparr>rt_resumed := ps, rt_procs := (rt_procs s)(p \<mapsto> q1)\<rparr>"
  have inv0: "rt_inv rep between {#p#} (add_mset p H) (s\<lparr>rt_resumed := ps\<rparr>)"
    by (rule rt_dequeue_inv [OF rt_reach_inv [OF assms(1,2)] assms(4)])
  from turn_inv [OF assms(1,5) inv0 _ assms(7)] assms(6)
  have q1: "p_pid q1 = p_pid q" "rt_inv rep between {#p#} (add_mset p H) ?s" by auto
  from unreg_inv [OF q1(2), of q1] obtain r where r: "unreg (p_pid q1) (rt_reg s) = (True, r)"
    "rt_inv rep between {#} (add_mset p (add_mset p H)) (?s\<lparr>rt_reg := r\<rparr>)" by auto
  from rt_unref_inv [OF r(2)] assms(3) obtain r1 where r1: "unref p r = Some r1" "rg_map r1 = rg_map r"
    "rg_heap r1 p \<noteq> None" "rt_inv rep between {#} (add_mset p H) (?s\<lparr>rt_reg := r1\<rparr>)"
    by (fastforce split: if_splits)
  from rt_unref_inv [OF r1(4)] assms(3) obtain r2 where r2: "unref p r1 = Some r2" "rg_map r2 = rg_map r1"
    "rg_heap r2 p \<noteq> None"
    by (fastforce split: if_splits)
  have "resume_process A seg p (s\<lparr>rt_resumed := ps\<rparr>) = Some (Some (?s\<lparr>rt_reg := r2\<rparr>))"
    using assms(6,7) r(1) r1(1,3) r2(1,3) by (simp add: resume_process_def Let_def rt_tasks.simps)
  moreover have "rt_find (p_pid q) (?s\<lparr>rt_reg := r2\<rparr>) = Some (None, ?s\<lparr>rt_reg := r2\<rparr>)"
    using r(1) r1(2) r2(2) q1(1) by (auto simp: unreg_def rt_find_def find_def)
  ultimately show ?thesis by (intro exI [of _ "?s\<lparr>rt_reg := r2\<rparr>"]) simp
qed

text \<open>A coroutine that does nothing.\<close>

definition finishing :: "co \<Rightarrow> ('v, 'l, 'i, 'h) process \<Rightarrow> ('v, 'l, 'i, 'h) process option" where
  "finishing co p = map_option (\<lambda>c. p\<lparr>p_cos := (p_cos p)(co := Some (run_finish None c))\<rparr>) (p_cos p co)"

lemma honest_finishing: "honest A I (finishing :: co \<Rightarrow> ('v, 'l, 'i, 'h) process \<Rightarrow> _)"
  by (auto simp: honest_def finishing_def segment_def intro!: switch_back.by_finish)

abbreviation finished :: "(nat, nat message list, nat, nat) process" where
  "finished \<equiv> (proc_new (process_t 1) (mailbox_new queue_ops) 0)\<lparr>p_cos := (\<lambda>_. None)\<rparr>"

lemma finishing_turn:
  "proc_resume queue_ops finishing (proc_create 3 (process_t 1) (mailbox_new queue_ops) 0) = Some (Normal (kDown, finished))"
proof -
  define P :: "(nat, nat message list, nat, nat) process" where "P = proc_create 3 (process_t 1) (mailbox_new queue_ops) 0"
  define Z :: "(nat, nat message list, nat, nat) process" where
    "Z = (proc_new (process_t 1) (mailbox_new queue_ops) 0)\<lparr>p_cos := [3 \<mapsto> run_finish None coroutine_new], p_zombie := [3]\<rparr>"
  have r: "resume_co finishing False 3 (P\<lparr>p_spawn := []\<rparr>) = Some (Normal Z)"
    by (simp add: P_def Z_def resume_co_def finishing_def proc_create_def proc_new_def proc_spawn_def get_result_def
        coroutine_new_def run_finish_def set_exception_def Let_def)
  have f: "p_spawn P = [3]" "p_spawn Z = []" "p_wakeup Z = []" "run_ready P" "\<not> run_ready Z" "wake_inbox Z = Z"
    by (simp_all add: P_def Z_def proc_create_def proc_new_def proc_spawn_def run_ready_def wake_inbox_def)
  have "sweep_zombies Z = Normal finished" "p_block finished = []" "p_suspend finished = []"
    by (auto simp: Z_def sweep_zombies_def proc_new_def)
  then have "proc_resume queue_ops finishing P = Some (Normal (kDown, finished))"
    by (simp add: proc_resume_def proc_dispatch_def proc_run_def run_loop.simps [of _ P] run_loop.simps [of _ Z]
        drain_spawn.simps [of _ P] drain_spawn.simps [of _ Z] drain_wakeup.simps [of _ _ Z] r f)
  then show ?thesis by (simp only: P_def)
qed

theorem dead_target_keeps_requests_witness:
  "\<exists>(s :: (nat, nat message list, nat, nat) runtime) t. reach rt_init (rt_step queue_ops small_ops) (s, {#7#}) \<and>
    resume_process queue_ops finishing 7 (s\<lparr>rt_resumed := []\<rparr>) = Some (Some t) \<and>
    rt_procs t 7 = Some finished \<and> rt_find (process_t 1) t = Some (None, t)"
proof -
  from small_history obtain s0 :: "(nat, nat message list, nat, nat) runtime" where
    s0: "reach rt_init (rt_step queue_ops small_ops) (s0, {#})" "rt_resumed s0 = [7]" "rg_map (rt_reg s0) = [1 \<mapsto> 7]"
      "rt_procs s0 = [7 \<mapsto> proc_create 3 (process_t 1) (mailbox_new queue_ops) 0]" by blast
  from rt_find_inv [OF rt_reach_inv [OF queue_append_list s0(1)], of "process_t 1"] s0(3)
  obtain s where s: "rt_find (process_t 1) s0 = Some (Some 7, s)" "rt_procs s = rt_procs s0" by auto
  have "rt_resumed s = [7]" using s(1) s0(2) by (auto simp: rt_find_def)
  moreover have "reach rt_init (rt_step queue_ops small_ops) (s, add_mset 7 {#})"
    using s0(1) rt_step.rt_found [OF s(1)] by (rule reach_step)
  ultimately have r: "reach rt_init (rt_step queue_ops small_ops) (s, {#7#})" "rt_resumed s = 7 # []" by simp_all
  have "rt_procs s 7 = Some (proc_create 3 (process_t 1) (mailbox_new queue_ops) 0)" using s(2) s0(4) by simp
  from dead_target_keeps_requests [OF queue_append_list r(1) _ r(2) honest_finishing this finishing_turn]
  obtain t where "resume_process queue_ops finishing 7 (s\<lparr>rt_resumed := []\<rparr>) = Some (Some t)"
    "rt_procs t 7 = Some finished" "rt_find (process_t 1) t = Some (None, t)"
    by (auto simp: create_mail)
  with r(1) show ?thesis by (intro exI [of _ s] exI [of _ t]) simp
qed

end
