(* ===== verification/Runtime_Calls.thy ===== *)
theory Runtime_Calls
  imports Runtime_Spec
begin

text \<open>
  The calls of a coroutine while it runs. In the middle of a turn the process is neither queued nor
  waiting, the worker holds a reference to it, and the running coroutine is in none of its tables. The
  calls keep that, and send what they should; one that waits leaves the coroutine in the table it
  waits in.
\<close>

section \<open>In the middle of a turn\<close>

definition mid_turn :: "('l \<Rightarrow> 'v message list \<Rightarrow> bool) \<Rightarrow> addr \<Rightarrow> co \<Rightarrow> addr multiset \<Rightarrow>
    ('v, 'l, 'i, 'h, 'z) runtime_scheme \<Rightarrow> bool" where
  "mid_turn rep running co H s \<longleftrightarrow> rt_inv rep (between(running := {#co#})) {#running#} (add_mset running H) s"

lemma mid_turn_process:
  assumes "mid_turn rep running co H s"
  shows "\<exists>q. rt_procs s running = Some q \<and> rg_map (rt_reg s) (pid_value (p_pid q)) = Some running \<and>
    \<not> mb_wait (p_mailbox q) \<and> wf_owned {#co#} q \<and> idle_empty rep q"
proof -
  have inv: "rt_inv rep (between(running := {#co#})) {#running#} (add_mset running H) s"
    using assms by (simp add: mid_turn_def)
  have "rg_heap (rt_reg s) running \<noteq> None" using rt_inv_held [OF inv] by simp
  from rt_invE [OF inv this] obtain ob q where q: "rt_procs s running = Some q"
    "proc_ok rep (between(running := {#co#})) {#running#} (add_mset running H) (rt_reg s) (rt_resumed s) running ob q" by metis
  then show ?thesis
    by (cases "registered (rt_reg s) running (p_pid q)") (auto simp: proc_ok_def registered_def)
qed

text \<open>A turn begins: the worker takes the process from the queue, the process a coroutine from a deque.\<close>

lemma mid_turn_start:
  assumes A: "append_list A (\<lambda>_ _. True) rep" and r: "reach rt_init (rt_step A I) (s, H)"
    and q: "rt_resumed s = running # ps" "rt_procs s running = Some q" "p_spawn q = co # cos"
  shows "mid_turn rep running co H (s\<lparr>rt_resumed := ps, rt_procs := (rt_procs s)(running \<mapsto> q\<lparr>p_spawn := cos\<rparr>)\<rparr>)"
proof -
  let ?q = "q\<lparr>p_spawn := cos\<rparr>"
  have inv: "rt_inv rep between {#running#} (add_mset running H) (s\<lparr>rt_resumed := ps\<rparr>)"
    by (rule rt_dequeue_inv [OF rt_reach_inv [OF A r] q(1)])
  obtain ob where ob: "proc_ok rep between {#running#} (add_mset running H) (rt_reg s) ps running ob q"
    using rt_invE [OF inv rt_inv_proc [OF inv]] q(2) by simp (metis option.inject)
  have "wf_owned {#co#} ?q" using ob q(3) by (intro wf_pop_spawn) (simp_all add: proc_ok_def)
  moreover have "idle_empty rep ?q" using ob by (simp add: proc_ok_def idle_empty_def boxed_def)
  ultimately show ?thesis
    using rt_replace_inv [OF inv, of running q ?q "{#co#}"] q(2)
    by (simp add: mid_turn_def running_after_def)
qed

text \<open>The running process changes by itself.\<close>

lemma mid_turn_local:
  assumes m: "mid_turn rep running co H s" and q: "rt_procs s running = Some q"
    and q': "p_pid q' = p_pid q" "wf_owned cs q'" "idle_empty rep q'" "\<not> mb_wait (p_mailbox q')"
  shows "rt_inv rep (between(running := cs)) {#running#} (add_mset running H) (s\<lparr>rt_procs := (rt_procs s)(running \<mapsto> q')\<rparr>)"
proof -
  from mid_turn_process [OF m] q have "\<not> mb_wait (p_mailbox q)" by auto
  with m q' rt_replace_inv [of rep _ _ _ s running q q' cs] q show ?thesis
    by (simp add: mid_turn_def running_after_def) (metis fun_upd_upd)
qed

lemma mid_turn_same:
  assumes m: "mid_turn rep running co H s" and q: "rt_procs s running = Some q"
    and q': "p_pid q' = p_pid q" "p_mailbox q' = p_mailbox q" "wf_owned {#co#} q'"
  shows "mid_turn rep running co H (s\<lparr>rt_procs := (rt_procs s)(running \<mapsto> q')\<rparr>)"
  using mid_turn_local [OF m q q'(1,3)] mid_turn_process [OF m] q q'(2)
  by (auto simp: mid_turn_def idle_empty_def boxed_def)

text \<open>The operations of \<^verbatim>\<open>Process_Spec\<close> that stay in the process.\<close>

lemma mid_turn_api:
  assumes A: "append_list A (\<lambda>_ _. True) rep" and m: "mid_turn rep running co H s"
    and q: "rt_procs s running = Some q" "api A I co q q'"
  shows "mid_turn rep running co H (s\<lparr>rt_procs := (rt_procs s)(running \<mapsto> q')\<rparr>)"
proof -
  from mid_turn_process [OF m] q(1) have old: "\<not> mb_wait (p_mailbox q)" "wf_owned {#co#} q" "idle_empty rep q" by auto
  from api_mail [OF A q(2)] old have "p_pid q' = p_pid q" "boxed rep q'" "\<not> mb_wait (p_mailbox q')"
    by (auto simp: mail_kept_def idle_empty_def)
  moreover have "wf_owned {#co#} q'" using api_frame [OF q(2) old(2)] by simp
  ultimately show ?thesis
    unfolding mid_turn_def by (intro mid_turn_local [OF m q(1)]) (simp_all add: idle_empty_def)
qed

lemma mid_turn_send:
  assumes A: "append_list A (\<lambda>_ _. True) rep" and m: "mid_turn rep running co H s"
  shows "\<exists>t. rt_tasks A self [SendTask pid session content] s = Some (Some t) \<and> mid_turn rep running co H t"
  using rt_tasks_return [OF A, of _ _ "add_mset running H" "[SendTask pid session content]" s self] m
  by (simp add: mid_turn_def)

text \<open>A first turn, for the witnesses: the coroutine of the process has just been started.\<close>

lemma first_mid_turn:
  "\<exists>(s :: ('v, 'v message list, nat, 'h) runtime) q. mid_turn (\<lambda>l ms. l = ms) 7 3 {#} s \<and>
    rt_procs s 7 = Some q \<and> p_block q = [] \<and> p_sessions q = 0 \<and> p_cos q 3 \<noteq> None \<and> rg_map (rt_reg s) = [1 \<mapsto> 7]"
proof -
  from first_history obtain s :: "('v, 'v message list, nat, 'h) runtime" where
    s: "reach rt_init (rt_step queue_ops small_ops) (s, {#})" "rt_resumed s = [7]" "rg_map (rt_reg s) = [1 \<mapsto> 7]"
      "rt_procs s = [7 \<mapsto> proc_create 3 (process_t 1) (mailbox_new queue_ops) 0]" by blast
  let ?q = "proc_create 3 (process_t 1) (mailbox_new queue_ops) 0 :: ('v, 'v message list, nat, 'h) process"
  let ?s = "s\<lparr>rt_resumed := [], rt_procs := (rt_procs s)(7 \<mapsto> ?q\<lparr>p_spawn := []\<rparr>)\<rparr>"
  have "rt_procs s 7 = Some ?q" "p_spawn ?q = [3]"
    using s(4) by (simp_all add: proc_create_def proc_spawn_def proc_new_def)
  then have "mid_turn (\<lambda>l ms. l = ms) 7 3 {#} ?s"
    by (rule mid_turn_start [OF queue_append_list s(1,2)])
  with s(3) show ?thesis
    by (intro exI [of _ ?s] exI [of _ "?q\<lparr>p_spawn := []\<rparr>"]) (simp add: proc_create_def proc_spawn_def proc_new_def)
qed

lemma small_mid_turn:
  "\<exists>(s :: (nat, nat message list, nat, nat) runtime) q. mid_turn (\<lambda>l ms. l = ms) 7 3 {#} s \<and>
    rt_procs s 7 = Some q \<and> p_block q = [] \<and> p_sessions q = 0 \<and> p_cos q 3 \<noteq> None \<and> rg_map (rt_reg s) = [1 \<mapsto> 7]"
  by (rule first_mid_turn)

section \<open>Requests\<close>

text \<open>C5
  \<^verbatim>\<open>request\<close> from a running coroutine: with a registered addressee it sends the message with a
  new session, the caller waits on that session, in its table, and holds a reference to the
  addressee; with any other it throws \<^verbatim>\<open>ProcessNotExist\<close>, out of a process
  \<^verbatim>\<open>runtime_error\<close>, and nothing has changed.\<close>

theorem request_sends:
  fixes s :: "('v, 'l, 'i, 'h) runtime"
  assumes "append_list A (\<lambda>_ _. True) rep" "mid_turn rep running co H s"
    and "rt_procs s running = Some q" "proc_new_session I q = (session, q1)" "session \<notin> fst ` set (p_block q)"
  shows "request_begin A I None pid content s = Some (Inl (RuntimeError ''not in process''), s) \<and>
    (case rg_map (rt_reg s) (pid_value pid) of
      None \<Rightarrow> request_begin A I (Some (running, co)) pid content s = Some (Inl ProcessNotExist, s)
    | Some p \<Rightarrow> \<exists>qp qr t. ((rt_procs s)(running \<mapsto> q1)) p = Some qp \<and>
        ((rt_procs s)(running \<mapsto> q1, p \<mapsto> pushed A (message_create (p_pid q) session content) qp)) running = Some qr \<and>
        request_begin A I (Some (running, co)) pid content s = Some (Inr (session, p), t) \<and>
        rt_procs t = (rt_procs s)(running \<mapsto> q1, p \<mapsto> pushed A (message_create (p_pid q) session content) qp,
          running \<mapsto> proc_block session co qr) \<and>
        rt_inv rep between {#running#} (add_mset running (add_mset p H)) t)"
proof (cases "rg_map (rt_reg s) (pid_value pid)")
  case None
  then show ?thesis by (simp add: request_begin_def rt_find_def find_def)
next
  case (Some p)
  let ?C = "between(running := {#co#})"
  have inv: "rt_inv rep ?C {#running#} (add_mset running H) s" using assms(2) by (simp add: mid_turn_def)
  from rt_find_inv [OF inv, of pid] Some obtain s1 where f: "rt_find pid s = Some (Some p, s1)"
    "rt_procs s1 = rt_procs s" "rt_inv rep ?C {#running#} (add_mset running (add_mset p H)) s1"
    by (auto simp: add_mset_commute)
  then have m1: "mid_turn rep running co (add_mset p H) s1" by (simp add: mid_turn_def)
  let ?s = "s1\<lparr>rt_procs := (rt_procs s1)(running \<mapsto> q1)\<rparr>" and ?m = "message_create (p_pid q) session content"
  have q1: "p_pid q1 = p_pid q" "p_mailbox q1 = p_mailbox q" "same_tables q q1"
    using same_mail(9,10) [of I q] same_tables_ops(1) [of q I] assms(4) by simp_all
  have "wf_owned {#co#} q" using mid_turn_process [OF assms(2)] assms(3) by auto
  then have "wf_owned {#co#} q1" using same_tables_wf [OF q1(3)] by blast
  with mid_turn_same [OF m1, of q q1] q1 assms(3) f(2) have m2: "mid_turn rep running co (add_mset p H) ?s" by simp
  then have "rt_inv rep ?C {#running#} (add_mset running (add_mset p H)) ?s" by (simp add: mid_turn_def)
  from rt_push_inv [OF assms(1) this, of p ?m] obtain s2 qp where s2: "rt_push A p ?m ?s = Some s2"
    "((rt_procs s)(running \<mapsto> q1)) p = Some qp" "rt_procs s2 = (rt_procs s)(running \<mapsto> q1, p \<mapsto> pushed A ?m qp)"
    "rt_inv rep ?C {#running#} (add_mset running (add_mset p H)) s2"
    by (auto simp: f(2))
  then have m3: "mid_turn rep running co (add_mset p H) s2" by (simp add: mid_turn_def)
  from mid_turn_process [OF this] obtain qr where qr: "rt_procs s2 running = Some qr"
    "\<not> mb_wait (p_mailbox qr)" "wf_owned {#co#} qr" "idle_empty rep qr" by blast
  have "p_block qr = p_block q"
    using qr(1) s2(2,3) q1(3) by (auto simp: pushed_def same_tables_def split: if_splits)
  then have "wf_owned {#} (proc_block session co qr)" using qr(3) assms(5) by (intro wf_block) simp_all
  then have "rt_inv rep (between(running := {#})) {#running#} (add_mset running (add_mset p H))
      (s2\<lparr>rt_procs := (rt_procs s2)(running \<mapsto> proc_block session co qr)\<rparr>)"
    using qr(2,4) by (intro mid_turn_local [OF m3 qr(1)]) (simp_all add: same_mail idle_empty_def boxed_def)
  moreover have "request_begin A I (Some (running, co)) pid content s =
      Some (Inr (session, p), s2\<lparr>rt_procs := (rt_procs s2)(running \<mapsto> proc_block session co qr)\<rparr>)"
    using f(1,2) assms(3,4) s2(1) qr(1) q1(1) by (simp add: request_begin_def with_proc_def)
  moreover have "request_begin A I None pid content s = Some (Inl (RuntimeError ''not in process''), s)"
    by (simp add: request_begin_def)
  ultimately show ?thesis
    using Some s2(2) qr(1) unfolding s2(3) by (auto intro!: exI [of _ qp] exI [of _ qr])
qed

theorem request_sends_witness:
  "\<exists>(s :: (nat, nat message list, nat, nat) runtime) t session. mid_turn (\<lambda>l ms. l = ms) 7 3 {#} s \<and>
    request_begin queue_ops small_ops (Some (7, 3)) (process_t 9) EmptyAny s = Some (Inl ProcessNotExist, s) \<and>
    request_begin queue_ops small_ops (Some (7, 3)) (process_t 1) EmptyAny s = Some (Inr (session, 7), t)"
proof -
  from small_mid_turn obtain s :: "(nat, nat message list, nat, nat) runtime" and q where
    s: "mid_turn (\<lambda>l ms. l = ms) 7 3 {#} s" "rt_procs s 7 = Some q" "p_block q = []" "rg_map (rt_reg s) = [1 \<mapsto> 7]" by blast
  obtain session q1 where n: "proc_new_session small_ops q = (session, q1)" by fastforce
  have "session \<notin> fst ` set (p_block q)" using s(3) by simp
  note r = request_sends [OF queue_append_list s(1,2) n this]
  show ?thesis using r [of "process_t 9" EmptyAny] r [of "process_t 1" EmptyAny] s(1,4) by auto
qed

lemma mid_turn_registered:
  assumes "mid_turn rep running co H s" "rg_map (rt_reg s) i = Some p"
  shows "rt_procs s p \<noteq> None"
proof -
  have inv: "rt_inv rep (between(running := {#co#})) {#running#} (add_mset running H) s"
    using assms(1) by (simp add: mid_turn_def)
  show ?thesis by (rule rt_invE [OF inv rt_inv_map [OF inv assms(2)]]) simp
qed

lemma response_frame:
  fixes s :: "('v, 'l, 'i, 'h) runtime"
  assumes "append_list A (\<lambda>_ _. True) rep" "mid_turn rep running co H s" "rt_procs s running = Some q"
  shows "\<exists>t qr. rt_response A (Some (running, co)) source session content s = Some (Some t) \<and> mid_turn rep running co H t \<and>
    rt_procs t running = Some qr \<and> p_pid qr = p_pid q \<and> p_inbox qr = p_inbox q \<and>
    p_requests qr = removeAll (source, session) (p_requests q) \<and> rg_map (rt_reg t) = rg_map (rt_reg s) \<and>
    (\<forall>p. p \<noteq> running \<longrightarrow> rt_procs t p = (if rg_map (rt_reg s) (pid_value source) = Some p
      then map_option (pushed A (message_create (p_pid q) (sessionForResponse session) content)) (rt_procs s p)
      else rt_procs s p))"
proof -
  let ?m = "message_create (p_pid q) (sessionForResponse session) content"
  have inv: "rt_inv rep (between(running := {#co#})) {#running#} (add_mset running H) s"
    using assms(2) by (simp add: mid_turn_def)
  have self: "rt_self (Some (running, co)) s = p_pid q" using assms(3) by (simp add: rt_self_def)
  from mid_turn_send [OF assms(1,2)] obtain t where
    t: "rt_tasks A (p_pid q) [SendTask source (sessionForResponse session) content] s = Some (Some t)"
      "mid_turn rep running co H t" by blast
  from mid_turn_process [OF t(2)] obtain qr where qr: "rt_procs t running = Some qr" "wf_owned {#co#} qr" by blast
  have sent: "case rg_map (rt_reg s) (pid_value source) of None \<Rightarrow> t = s
    | Some p \<Rightarrow> \<exists>qp. rt_procs s p = Some qp \<and> rt_procs t = (rt_procs s)(p \<mapsto> pushed A ?m qp) \<and>
        rg_map (rt_reg t) = rg_map (rt_reg s)"
    using send_task [OF assms(1) inv, of "p_pid q" source "sessionForResponse session" content] t(1)
    by (auto simp: pushed_def split: option.splits)
  then have same: "p_pid qr = p_pid q" "p_inbox qr = p_inbox q" "p_requests qr = p_requests q"
    "rg_map (rt_reg t) = rg_map (rt_reg s)"
    using qr(1) assms(3) by (auto simp: pushed_def split: option.splits if_splits)
  let ?t = "t\<lparr>rt_procs := (rt_procs t)(running \<mapsto> close_request source session qr)\<rparr>"
  have "rt_response A (Some (running, co)) source session content s = Some (Some ?t)"
    using self t(1) qr(1) by (simp add: rt_response_def with_proc_def)
  moreover have "wf_owned {#co#} (close_request source session qr)"
    using same_tables_wf [of qr "close_request source session qr"] qr(2) by (simp add: same_tables_def close_request_def)
  then have "mid_turn rep running co H ?t"
    by (intro mid_turn_same [OF t(2) qr(1)]) (simp_all add: close_request_def)
  ultimately show ?thesis
    using sent same
    by (intro exI [of _ ?t] exI [of _ "close_request source session qr"]) (auto simp: close_request_def split: option.splits)
qed

lemma response_step:
  fixes s :: "('v, 'l, 'i, 'h) runtime"
  assumes "append_list A (\<lambda>_ _. True) rep" "mid_turn rep running co H s" "rt_procs s running = Some q"
  shows "\<exists>t qr. rt_response A (Some (running, co)) source session content s = Some (Some t) \<and> mid_turn rep running co H t \<and>
    rt_procs t running = Some qr \<and> (source, session) \<notin> set (p_requests qr) \<and> p_inbox qr = p_inbox q \<and>
    (\<forall>p. rg_map (rt_reg s) (pid_value source) = Some p \<and> p \<noteq> running \<longrightarrow>
      (\<exists>qp. rt_procs s p = Some qp \<and>
        rt_procs t p = Some (pushed A (message_create (p_pid q) (sessionForResponse session) content) qp)))"
proof -
  note alive = mid_turn_registered [OF assms(2)]
  from response_frame [OF assms, of source session content] obtain t qr where
    t: "rt_response A (Some (running, co)) source session content s = Some (Some t)" "mid_turn rep running co H t"
      "rt_procs t running = Some qr" "p_inbox qr = p_inbox q" "p_requests qr = removeAll (source, session) (p_requests q)"
    and others: "\<forall>p. p \<noteq> running \<longrightarrow> rt_procs t p = (if rg_map (rt_reg s) (pid_value source) = Some p
      then map_option (pushed A (message_create (p_pid q) (sessionForResponse session) content)) (rt_procs s p)
      else rt_procs s p)" by metis
  have "\<exists>qp. rt_procs s p = Some qp \<and>
      rt_procs t p = Some (pushed A (message_create (p_pid q) (sessionForResponse session) content) qp)"
    if "rg_map (rt_reg s) (pid_value source) = Some p" "p \<noteq> running" for p
    using others that alive [OF that(1)] by auto
  with t show ?thesis by (intro exI [of _ t] exI [of _ qr]) simp
qed

text \<open>\<^verbatim>\<open>response\<close> from a running coroutine: the answer goes to the mailbox of the process that
  asked, marked as the response to its session, when that process is still registered; the
  answered request is not among the open requests any more, whether it is or not; and the coroutine
  goes on in a sound state.\<close>

theorem response_answers:
  fixes s :: "('v, 'l, 'i, 'h) runtime"
  assumes "append_list A (\<lambda>_ _. True) rep" "mid_turn rep running co H s" "rt_procs s running = Some q"
  shows "\<exists>t qr. rt_response A (Some (running, co)) source session content s = Some (Some t) \<and> mid_turn rep running co H t \<and>
    rt_procs t running = Some qr \<and> (source, session) \<notin> set (p_requests qr) \<and> p_inbox qr = p_inbox q \<and>
    (\<forall>p. rg_map (rt_reg s) (pid_value source) = Some p \<and> p \<noteq> running \<longrightarrow>
      (\<exists>qp. rt_procs s p = Some qp \<and>
        rt_procs t p = Some (pushed A (message_create (p_pid q) (sessionForResponse session) content) qp)))"
  using assms by (rule response_step)

theorem response_answers_witness:
  "\<exists>(s :: (nat, nat message list, nat, nat) runtime) t qr.
    rt_response queue_ops (Some (7, 3)) (process_t 9) (session_t 4) EmptyAny s = Some (Some t) \<and>
    rt_procs t 7 = Some qr \<and> (process_t 9, session_t 4) \<notin> set (p_requests qr)"
proof -
  from small_mid_turn obtain s :: "(nat, nat message list, nat, nat) runtime" and q where
    s: "mid_turn (\<lambda>l ms. l = ms) 7 3 {#} s" "rt_procs s 7 = Some q" by blast
  from response_answers [OF queue_append_list s, of "process_t 9" "session_t 4" EmptyAny] show ?thesis by blast
qed

end
