(* ===== verification/Wakeup.thy ===== *)
theory Wakeup
  imports Runtime_Calls Process_Props
begin

text \<open>
  Waking coroutines by responses: what the mailboxes of the processes gain when a service answers a list of
  sessions, and what such a response does when it is delivered. \<open>Sleep\<close> and \<open>Fd_Wake\<close> rest on it.
\<close>

section \<open>Answers\<close>

text \<open>
  A process finds a response in its mailbox for each call that names it, in order. \<open>replies\<close> are these
  messages, sent by the process \<open>service\<close>; \<open>answers\<close> are those without a content.
\<close>

definition replies :: "process_t \<Rightarrow> registry \<Rightarrow> addr \<Rightarrow> (process_t \<times> session_t \<times> 'v any) list \<Rightarrow> 'v message list" where
  "replies service r p calls = map (\<lambda>(_, session, content). message_create service (sessionForResponse session) content)
     (filter (\<lambda>c. rg_map r (pid_value (fst c)) = Some p) calls)"

definition answers :: "process_t \<Rightarrow> registry \<Rightarrow> addr \<Rightarrow> (process_t \<times> session_t) list \<Rightarrow> 'v message list" where
  "answers service r p calls = map (\<lambda>c. message_create service (sessionForResponse (snd c)) EmptyAny)
     (filter (\<lambda>c. rg_map r (pid_value (fst c)) = Some p) calls)"

lemma answers_replies: "answers service r p calls = replies service r p (map (\<lambda>(pid, session). (pid, session, EmptyAny)) calls)"
  by (induction calls) (auto simp: answers_def replies_def)

definition receives :: "('l \<Rightarrow> 'v message list \<Rightarrow> bool) \<Rightarrow> 'v message list \<Rightarrow> ('v, 'l, 'i, 'h) process \<Rightarrow>
    ('v, 'l, 'i, 'h) process \<Rightarrow> bool" where
  "receives rep msgs q q' \<longleftrightarrow> (\<exists>mb. q' = q\<lparr>p_mailbox := mb\<rparr> \<and> mb_read mb = mb_read (p_mailbox q) \<and>
     mb_wait mb = (mb_wait (p_mailbox q) \<and> msgs = []) \<and>
     (\<forall>ws. rep (mb_write (p_mailbox q)) ws \<longrightarrow> rep (mb_write mb) (ws @ msgs)))"

lemma receives_none: "receives rep [] q q"
  by (auto simp: receives_def intro!: exI [of _ "p_mailbox q"])

lemma receives_pushed:
  assumes "append_list A (\<lambda>_ _. True) rep"
  shows "receives rep [msg] q (pushed A msg q)"
  using append_list.rep_push [OF assms] by (auto simp: receives_def pushed_def)

lemma receives_append: "receives rep ms q q1 \<Longrightarrow> receives rep ns q1 q2 \<Longrightarrow> receives rep (ms @ ns) q q2"
  by (fastforce simp: receives_def)

text \<open>One more reply, sent before the others.\<close>

lemma receives_reply:
  fixes s :: "('v, 'l, 'i, 'h) runtime"
  assumes A: "append_list A (\<lambda>_ _. True) rep"
    and first: "rt_procs s1 p = (if rg_map (rt_reg s) (pid_value pid) = Some p
      then map_option (pushed A (message_create service (sessionForResponse session) content)) (rt_procs s p) else rt_procs s p)"
    and reg: "rg_map (rt_reg s1) = rg_map (rt_reg s)"
    and rest: "rel_option (receives rep (replies service (rt_reg s1) p calls)) (rt_procs s1 p) (rt_procs t p)"
  shows "rel_option (receives rep (replies service (rt_reg s) p ((pid, session, content) # calls))) (rt_procs s p) (rt_procs t p)"
proof (cases "rg_map (rt_reg s) (pid_value pid) = Some p")
  case True
  let ?m = "message_create service (sessionForResponse session) content"
  have "rel_option (receives rep (replies service (rt_reg s) p calls)) (map_option (pushed A ?m) (rt_procs s p)) (rt_procs t p)"
    using rest first True reg by (auto simp: replies_def)
  then have "rel_option (receives rep ([?m] @ replies service (rt_reg s) p calls)) (rt_procs s p) (rt_procs t p)"
    by (cases "rt_procs s p"; cases "rt_procs t p") (simp_all only: option.map option.rel_inject option.rel_distinct
      receives_append [OF receives_pushed [OF A]])
  then show ?thesis using True by (simp add: replies_def)
next
  case False
  then have "rt_procs s1 p = rt_procs s p" "replies service (rt_reg s) p ((pid, session, content) # calls) = replies service (rt_reg s1) p calls"
    using first reg by (simp_all add: replies_def)
  with rest show ?thesis by (simp only:)
qed

lemma receives_answer:
  fixes s :: "('v, 'l, 'i, 'h) runtime"
  assumes "append_list A (\<lambda>_ _. True) rep"
    and "rt_procs s1 p = (if rg_map (rt_reg s) (pid_value pid) = Some p
      then map_option (pushed A (message_create service (sessionForResponse session) EmptyAny)) (rt_procs s p) else rt_procs s p)"
    and "rg_map (rt_reg s1) = rg_map (rt_reg s)"
    and "rel_option (receives rep (answers service (rt_reg s1) p calls)) (rt_procs s1 p) (rt_procs t p)"
  shows "rel_option (receives rep (answers service (rt_reg s) p ((pid, session) # calls))) (rt_procs s p) (rt_procs t p)"
  using receives_reply [OF assms(1-3)] assms(4) by (simp add: answers_replies)

section \<open>Delivery\<close>

text \<open>The response makes the coroutine ready, and what it waited in returns normally.\<close>

lemma answer_resumes:
  assumes "wf_owned {#} p" "(session, co) \<in> set (p_block p)" "p_cos p co = Some c" "co_exception c = None"
    and "0 < sint (sid_value session)"
  shows "\<exists>q c'. proc_deliver seg (message_create service (sessionForResponse session) EmptyAny) p = Some (Normal (kResume, q)) \<and>
    p_wakeup q = p_wakeup p @ [co] \<and> map_of (p_block q) = (map_of (p_block p))(session := None) \<and>
    p_cos q co = Some c' \<and> fst (get_result c') = Inr EmptyAny"
  using response_delivered [OF assms(1-4), of "message_create service (sessionForResponse session) EmptyAny" seg]
    response_type [OF assms(5)]
  by (fastforce simp: typeOfMessage_def message_create_def)

section \<open>An example\<close>

text \<open>For the witnesses: two processes, the first one in its turn.\<close>

lemma two_processes:
  "\<exists>(s :: ('v, 'v message list, nat, 'h) runtime) q8. mid_turn (\<lambda>l ms. l = ms) 7 3 {#} s \<and>
    rt_procs s 7 \<noteq> None \<and> rt_procs s 8 = Some q8 \<and> mb_write (p_mailbox q8) = [] \<and> rg_map (rt_reg s) = [1 \<mapsto> 7, 2 \<mapsto> 8]"
proof -
  from first_history obtain s :: "('v, 'v message list, nat, 'h) runtime" where
    s: "reach rt_init (rt_step queue_ops small_ops) (s, {#})" "rt_resumed s = [7]" "rg_map (rt_reg s) = [1 \<mapsto> 7]"
      "rt_procs s = [7 \<mapsto> proc_create 3 (process_t 1) (mailbox_new queue_ops) 0]" "rg_seq (rt_reg s) = 1" by blast
  note inv = rt_reach_inv [OF queue_append_list s(1)]
  have "rt_procs s 8 = None" using s(4) by simp
  then have h: "rg_heap (rt_reg s) 8 = None" using rt_invE [OF inv, of 8] by (metis option.distinct(1))
  have "rg_map (rt_reg s) (rg_seq (rt_reg s) + 1) = None" using s(3,5) by simp
  note fresh = h this
  from rt_spawn_inv [OF queue_append_list inv fresh, of 3 0] s(5) obtain t where
    t: "rt_spawn queue_ops 8 3 0 s = Some (process_t 2, t)" by auto
  have r: "reach rt_init (rt_step queue_ops small_ops) (t, {#})"
    by (rule reach_step [OF s(1) rt_step.rt_spawned [OF fresh t]])
  let ?q = "\<lambda>n. proc_create 3 (process_t n) (mailbox_new queue_ops) 0 :: ('v, 'v message list, nat, 'h) process"
  have f: "rt_resumed t = [7, 8]" "rt_procs t = [7 \<mapsto> ?q 1, 8 \<mapsto> ?q 2]" "rg_map (rt_reg t) = [1 \<mapsto> 7, 2 \<mapsto> 8]"
    using t s(2-5) by (auto simp: rt_spawn_def create_def reg_def Let_def rt_sched_resume_def ref_def split: option.splits)
  have p: "rt_procs t 7 = Some (?q 1)" "p_spawn (?q 1) = [3]"
    using f(2) by (simp_all add: proc_create_def proc_spawn_def proc_new_def)
  have "mb_write (p_mailbox (?q 2)) = []"
    by (simp add: proc_create_def proc_spawn_def proc_new_def mailbox_new_def)
  with mid_turn_start [OF queue_append_list r f(1) p] f(2,3) show ?thesis by (auto intro!: exI)
qed

end
