(* ===== verification/Timer_Wheel.thy ===== *)
theory Timer_Wheel
  imports Ids
begin

text \<open>
  The hierarchical timer wheel of \<^verbatim>\<open>src/time.cpp\<close>: a 64-bit time is read as 14 low bits,
  which index the array \<^verbatim>\<open>least\<close>, and five groups of 10 bits, which index the arrays
  \<^verbatim>\<open>level[0..4]\<close>. Lists of nodes stand for the intrusive lists \<^verbatim>\<open>timer_list\<close>
  (their links and the memory of their nodes are in \<open>Timer_Nodes\<close>); failing assertions and out-of-range array
  accesses are error values.
\<close>

section \<open>Constants and data\<close>

definition TIME_LEAST_SHIFT :: nat where "TIME_LEAST_SHIFT = 14"

definition TIME_LEAST_VALUE :: uint64 where "TIME_LEAST_VALUE = push_bit TIME_LEAST_SHIFT 1"

definition TIME_LEAST_MASK :: uint64 where "TIME_LEAST_MASK = TIME_LEAST_VALUE - 1"

definition TIME_LEVEL_SHIFT :: nat where "TIME_LEVEL_SHIFT = 10"

definition TIME_LEVEL_VALUE :: uint64 where "TIME_LEVEL_VALUE = push_bit TIME_LEVEL_SHIFT 1"

definition TIME_LEVEL_MASK :: uint64 where "TIME_LEVEL_MASK = TIME_LEVEL_VALUE - 1"

definition TIME_BITS :: nat where "TIME_BITS = LENGTH(64)"

definition TIME_LEVEL_COUNT :: nat where
  "TIME_LEVEL_COUNT = (TIME_BITS - TIME_LEAST_SHIFT) div TIME_LEVEL_SHIFT"

text \<open>\<^verbatim>\<open>struct timer_node\<close>, less its link; \<^verbatim>\<open>struct Timer\<close>, less its free list.\<close>

record timer_node =
  node_expire :: uint64
  node_source :: uint32
  node_session :: uint32

record timer =
  timer_time :: uint64
  timer_least :: "nat \<Rightarrow> timer_node list"
  timer_level :: "nat \<Rightarrow> nat \<Rightarrow> timer_node list"

definition timer_init :: timer where
  "timer_init = \<lparr>timer_time = 0, timer_least = (\<lambda>_. []), timer_level = (\<lambda>_ _. [])\<rparr>"

datatype timer_error = AssertExpire | AssertLevel | AssertTime | OutOfRange

type_synonym wakeup_call = "process_t \<times> session_t"

section \<open>Operations\<close>

text \<open>\<^verbatim>\<open>_list_append(&t->least[index], node)\<close> and \<^verbatim>\<open>_list_append(&t->level[level][index], node)\<close>.\<close>

definition least_append :: "nat \<Rightarrow> timer_node \<Rightarrow> timer \<Rightarrow> timer_error + timer" where
  "least_append i node t =
     (if i < unat TIME_LEAST_VALUE
      then Inr (t\<lparr>timer_least := (timer_least t)(i := timer_least t i @ [node])\<rparr>)
      else Inl OutOfRange)"

definition level_append :: "nat \<Rightarrow> nat \<Rightarrow> timer_node \<Rightarrow> timer \<Rightarrow> timer_error + timer" where
  "level_append l i node t =
     (if l < TIME_LEVEL_COUNT \<and> i < unat TIME_LEVEL_VALUE - 1
      then Inr (t\<lparr>timer_level := (timer_level t)(l := (timer_level t l)(i := timer_level t l i @ [node]))\<rparr>)
      else Inl OutOfRange)"

text \<open>\<^verbatim>\<open>_list_clear\<close> on the same arrays: the detached list and the timer without it.\<close>

definition least_clear :: "nat \<Rightarrow> timer \<Rightarrow> timer_error + (timer_node list \<times> timer)" where
  "least_clear i t =
     (if i < unat TIME_LEAST_VALUE
      then Inr (timer_least t i, t\<lparr>timer_least := (timer_least t)(i := [])\<rparr>)
      else Inl OutOfRange)"

definition level_clear :: "nat \<Rightarrow> nat \<Rightarrow> timer \<Rightarrow> timer_error + (timer_node list \<times> timer)" where
  "level_clear l i t =
     (if l < TIME_LEVEL_COUNT \<and> i < unat TIME_LEVEL_VALUE - 1
      then Inr (timer_level t l i, t\<lparr>timer_level := (timer_level t)(l := (timer_level t l)(i := []))\<rparr>)
      else Inl OutOfRange)"

text \<open>\<^verbatim>\<open>_send\<close> and \<^verbatim>\<open>_send_list\<close>: the calls of \<^verbatim>\<open>process::response\<close>, in order.\<close>

definition timer_send :: "timer_node \<Rightarrow> wakeup_call" where
  "timer_send node = (process_t (node_source node), session_t (node_session node))"

fun send_list :: "timer_node list \<Rightarrow> wakeup_call list" where
  "send_list [] = []"
| "send_list (node # list) = timer_send node # send_list list"

text \<open>
  \<^verbatim>\<open>_queue\<close>: nodes due within \<open>2 ^ 14\<close> ticks go to \<^verbatim>\<open>least\<close>; the others to the lowest
  level above which \<^verbatim>\<open>expire\<close> and \<^verbatim>\<open>time\<close> agree. \<open>queue_level\<close> is the \<^verbatim>\<open>do ... while\<close>.
\<close>

function queue_level :: "timer \<Rightarrow> timer_node \<Rightarrow> nat \<Rightarrow> uint64 \<Rightarrow> timer_error + timer" where
  "queue_level t node level exp2 =
     (let time = timer_time t; expire = node_expire node;
          exp2 = push_bit TIME_LEVEL_SHIFT exp2;
          mask = exp2 - 1
      in if expire OR mask = time OR mask
         then (let shift = TIME_LEAST_SHIFT + level * TIME_LEVEL_SHIFT;
                   value = drop_bit shift expire AND TIME_LEVEL_MASK
               in level_append level (unat (value - 1)) node t)
         else if Suc level < TIME_LEVEL_COUNT then queue_level t node (Suc level) exp2
         else Inl AssertLevel)"
  by pat_completeness auto
termination
  by (relation "measure (\<lambda>(_, _, level, _). TIME_LEVEL_COUNT - level)") auto

declare queue_level.simps [simp del]

definition wheel_queue :: "timer \<Rightarrow> timer_node \<Rightarrow> timer_error + timer" where
  "wheel_queue t node =
     (let time = timer_time t; expire = node_expire node
      in if \<not> expire \<ge> time then Inl AssertExpire
         else if expire - time < TIME_LEAST_VALUE
         then least_append (unat (expire AND TIME_LEAST_MASK)) node t
         else queue_level t node 0 (push_bit TIME_LEAST_SHIFT 1))"

fun queue_list :: "timer \<Rightarrow> timer_node list \<Rightarrow> timer_error + timer" where
  "queue_list t [] = Inr t"
| "queue_list t (n # list) =
     (case wheel_queue t n of Inl e \<Rightarrow> Inl e | Inr t' \<Rightarrow> queue_list t' list)"

text \<open>
  \<^verbatim>\<open>_tick\<close>: the loop looks for the lowest non-zero digit of the new time and queues again
  what its slot holds; \<^verbatim>\<open>continue\<close> in a \<^verbatim>\<open>do ... while\<close> evaluates the condition.
\<close>

function tick_level :: "timer \<Rightarrow> uint64 \<Rightarrow> nat \<Rightarrow> timer_error + timer" where
  "tick_level t time level =
     (let value = time AND TIME_LEVEL_MASK
      in if value = 0
         then (if Suc level < TIME_LEVEL_COUNT
               then tick_level t (drop_bit TIME_LEVEL_SHIFT time) (Suc level)
               else Inl AssertLevel)
         else (case level_clear level (unat (value - 1)) t of
                 Inl e \<Rightarrow> Inl e
               | Inr (list, t') \<Rightarrow> queue_list t' list))"
  by pat_completeness auto
termination
  by (relation "measure (\<lambda>(_, _, level). TIME_LEVEL_COUNT - level)") auto

declare tick_level.simps [simp del]

definition wheel_tick :: "timer \<Rightarrow> timer_error + (wakeup_call list \<times> timer)" where
  "wheel_tick t =
     (case least_clear (unat (timer_time t AND TIME_LEAST_MASK)) t of
        Inl e \<Rightarrow> Inl e
      | Inr (list, t1) \<Rightarrow>
          (let sent = send_list list;
               time = timer_time t1 + 1;
               t2 = t1\<lparr>timer_time := time\<rparr>
           in if time AND TIME_LEAST_MASK = 0
              then if time = 0 then Inl AssertTime
                   else (case tick_level t2 (drop_bit TIME_LEAST_SHIFT time) 0 of
                           Inl e \<Rightarrow> Inl e
                         | Inr t3 \<Rightarrow> Inr (sent, t3))
              else Inr (sent, t2)))"

lemma least_append_time: "least_append i n t = Inr t' \<Longrightarrow> timer_time t' = timer_time t"
  by (auto simp: least_append_def split: if_splits)

lemma level_append_time: "level_append l i n t = Inr t' \<Longrightarrow> timer_time t' = timer_time t"
  by (auto simp: level_append_def split: if_splits)

lemma queue_level_time: "queue_level t n level exp2 = Inr t' \<Longrightarrow> timer_time t' = timer_time t"
proof (induction t n level exp2 rule: queue_level.induct)
  case (1 t node level exp2)
  from "1.prems" show ?case
    unfolding queue_level.simps [of t node level exp2] Let_def
    by (auto split: if_splits dest: level_append_time "1.IH" [OF refl refl refl refl])
qed

lemma wheel_queue_time: "wheel_queue t n = Inr t' \<Longrightarrow> timer_time t' = timer_time t"
  by (auto simp: wheel_queue_def Let_def split: if_splits dest: least_append_time queue_level_time)

lemma queue_list_time: "queue_list t ns = Inr t' \<Longrightarrow> timer_time t' = timer_time t"
  by (induction t ns rule: queue_list.induct) (auto dest: wheel_queue_time split: sum.splits)

lemma tick_level_time: "tick_level t time level = Inr t' \<Longrightarrow> timer_time t' = timer_time t"
proof (induction t time level rule: tick_level.induct)
  case (1 t time level)
  from "1.prems" show ?case
    unfolding tick_level.simps [of t time level] Let_def level_clear_def
    by (auto split: if_splits dest!: queue_list_time dest: "1.IH" [OF refl])
qed

lemma wheel_tick_time: "wheel_tick t = Inr (s, t') \<Longrightarrow> timer_time t' = timer_time t + 1"
  by (auto simp: wheel_tick_def least_clear_def Let_def dest!: tick_level_time
      split: if_splits sum.splits)

text \<open>\<^verbatim>\<open>_update\<close> ticks until the wheel's time reaches \<^verbatim>\<open>time\<close>.\<close>

function wheel_update :: "timer \<Rightarrow> uint64 \<Rightarrow> timer_error + (wakeup_call list \<times> timer)" where
  "wheel_update t time =
     (if timer_time t < time
      then (case wheel_tick t of
              Inl e \<Rightarrow> Inl e
            | Inr (sent, t') \<Rightarrow>
                (case wheel_update t' time of
                   Inl e \<Rightarrow> Inl e
                 | Inr (sent', t'') \<Rightarrow> Inr (sent @ sent', t'')))
      else Inr ([], t))"
  by pat_completeness auto
termination
proof (relation "measure (\<lambda>(t, time). unat time - unat (timer_time t))", goal_cases)
  case (2 t time r sent t')
  then have "timer_time t' = timer_time t + 1" by (metis wheel_tick_time)
  moreover have "unat (timer_time t + 1) = unat (timer_time t) + 1"
    using 2(1) by (rule unat_Suc_less_word)
  ultimately show ?case using 2(1) by (simp add: word_less_nat_alt)
qed simp

declare wheel_update.simps [simp del]

text \<open>\<^verbatim>\<open>_timeout\<close>: the deadline is computed modulo \<open>2 ^ 64\<close>.\<close>

definition wheel_timeout :: "timer \<Rightarrow> process_t \<Rightarrow> session_t \<Rightarrow> uint64 \<Rightarrow> timer_error + timer" where
  "wheel_timeout t source session timeout =
     wheel_queue t \<lparr>node_expire = timer_time t + timeout,
                    node_source = pid_value source,
                    node_session = sid_value session\<rparr>"

end
