(* ===== verification/Timer_Spec.thy ===== *)
theory Timer_Spec
  imports Timer_Wheel
begin

text \<open>
  Correctness of the timer wheel of \<^verbatim>\<open>Timer_Wheel\<close> against its abstract specification: the
  multiset of pending nodes. The invariant says where a node may lie, given its deadline
  and the current time; each operation keeps it, never fails an assertion, and has the
  effect the specification gives it on the multiset.
\<close>

section \<open>Constants and accessors as natural numbers\<close>

lemma least_value [wheel_simps]: "unat TIME_LEAST_VALUE = 16384"
  by (simp add: TIME_LEAST_VALUE_def TIME_LEAST_SHIFT_def)

lemma level_value [wheel_simps]: "unat TIME_LEVEL_VALUE = 1024"
  by (simp add: TIME_LEVEL_VALUE_def TIME_LEVEL_SHIFT_def)

lemma level_count [wheel_simps]: "TIME_LEVEL_COUNT = 5"
  by (simp add: TIME_LEVEL_COUNT_def TIME_BITS_def TIME_LEAST_SHIFT_def TIME_LEVEL_SHIFT_def)

lemma least_mask: "TIME_LEAST_MASK = mask 14"
  by (simp add: TIME_LEAST_MASK_def TIME_LEAST_VALUE_def TIME_LEAST_SHIFT_def mask_eq_exp_minus_1)

lemma unat_mask_value [wheel_simps]: "unat TIME_LEAST_MASK = 16383"
  by (simp add: TIME_LEAST_MASK_def TIME_LEAST_VALUE_def TIME_LEAST_SHIFT_def)

lemma level_mask: "TIME_LEVEL_MASK = mask 10"
  by (simp add: TIME_LEVEL_MASK_def TIME_LEVEL_VALUE_def TIME_LEVEL_SHIFT_def mask_eq_exp_minus_1)

lemma unat_least_mask [wheel_simps]: "unat (w AND TIME_LEAST_MASK) = unat w mod 16384"
  by (simp add: least_mask unat_AND_mask)

lemma unat_level_mask [wheel_simps]: "unat (w AND TIME_LEVEL_MASK) = unat w mod 1024"
  by (simp add: level_mask unat_AND_mask)

definition expire_of :: "timer_node \<Rightarrow> nat" where
  "expire_of n = unat (node_expire n)"

definition now_of :: "timer \<Rightarrow> nat" where
  "now_of t = unat (timer_time t)"

definition level_shift :: "nat \<Rightarrow> nat" where
  "level_shift l = 14 + l * 10"

lemma now_of_bound: "now_of t < 2 ^ 64"
  using unsigned_less [of "timer_time t"] by (simp add: now_of_def)

lemma expire_of_bound: "expire_of n < 2 ^ 64"
  using unsigned_less [of "node_expire n"] by (simp add: expire_of_def)

section \<open>Abstraction and invariant\<close>

definition pending_least :: "timer \<Rightarrow> timer_node multiset" where
  "pending_least t = (\<Sum>i<16384. mset (timer_least t i))"

definition pending_level :: "timer \<Rightarrow> timer_node multiset" where
  "pending_level t = (\<Sum>l<5. \<Sum>i<1023. mset (timer_level t l i))"

definition pending :: "timer \<Rightarrow> timer_node multiset" where
  "pending t = pending_least t + pending_level t"

text \<open>Where a node may lie when the wheel's time is \<open>now\<close>.\<close>

definition placed_least :: "nat \<Rightarrow> nat \<Rightarrow> timer_node \<Rightarrow> bool" where
  "placed_least now i n \<longleftrightarrow>
     expire_of n mod 16384 = i \<and> now \<le> expire_of n \<and> expire_of n < now + 16384"

definition placed_level :: "nat \<Rightarrow> nat \<Rightarrow> nat \<Rightarrow> timer_node \<Rightarrow> bool" where
  "placed_level now l i n \<longleftrightarrow>
     expire_of n div 2 ^ level_shift l mod 1024 = Suc i \<and>
     expire_of n div 2 ^ level_shift (Suc l) = now div 2 ^ level_shift (Suc l) \<and>
     now div 2 ^ level_shift l < expire_of n div 2 ^ level_shift l"

definition wheel_inv :: "timer \<Rightarrow> bool" where
  "wheel_inv t \<longleftrightarrow>
     (\<forall>i<16384. \<forall>n\<in>set (timer_least t i). placed_least (now_of t) i n) \<and>
     (\<forall>l<5. \<forall>i<1023. \<forall>n\<in>set (timer_level t l i). placed_level (now_of t) l i n)"

lemma set_pending:
  "n \<in># pending t \<longleftrightarrow>
    (\<exists>i<16384. n \<in> set (timer_least t i)) \<or> (\<exists>l<5. \<exists>i<1023. n \<in> set (timer_level t l i))"
  by (auto simp: pending_def pending_least_def pending_level_def set_mset_sum)

lemma placed_level_now: "placed_level now l i n \<Longrightarrow> now < expire_of n"
  unfolding placed_level_def by (metis div_le_mono leD leI)

lemma pending_not_past: "wheel_inv t \<Longrightarrow> n \<in># pending t \<Longrightarrow> now_of t \<le> expire_of n"
  by (auto simp: set_pending wheel_inv_def placed_least_def) (metis placed_level_now less_imp_le)

text \<open>Effects of one slot update on the multiset.\<close>

lemma pending_least_upd:
  "i < 16384 \<Longrightarrow>
    pending (t\<lparr>timer_least := (timer_least t)(i := xs)\<rparr>) + mset (timer_least t i) = pending t + mset xs"
  using sum_upd_mset [of "{..<16384::nat}" i "timer_least t" xs]
  by (simp add: pending_def pending_least_def pending_level_def ac_simps)

lemma pending_level_upd:
  assumes "l < 5" "i < 1023"
  shows "pending (t\<lparr>timer_level := (timer_level t)(l := (timer_level t l)(i := xs))\<rparr>)
           + mset (timer_level t l i) = pending t + mset xs"
proof -
  let ?row = "\<lambda>f. \<Sum>j<1023. mset (f j)"
  let ?f = "timer_level t" let ?g = "(timer_level t)(l := (timer_level t l)(i := xs))"
  have row: "?row (?g l) + mset (?f l i) = ?row (?f l) + mset xs"
    using assms sum_upd_mset [of "{..<1023::nat}" i "?f l" xs] by simp
  have l: "l \<in> {..<5}" using assms by simp
  have "(\<Sum>k<5. ?row (?g k)) + mset (?f l i) = (\<Sum>k<5. ?row (?f k)) + mset xs"
    using row l by (simp add: sum.remove [of "{..<5}" l] ac_simps)
  then show ?thesis
    by (simp add: pending_def pending_least_def pending_level_def ac_simps)
qed

lemma pending_least_append:
  "i < 16384 \<Longrightarrow>
    pending (t\<lparr>timer_least := (timer_least t)(i := timer_least t i @ [n])\<rparr>) = add_mset n (pending t)"
  using pending_least_upd [of i t "timer_least t i @ [n]"] by simp

lemma pending_level_append:
  "l < 5 \<Longrightarrow> i < 1023 \<Longrightarrow>
    pending (t\<lparr>timer_level := (timer_level t)(l := (timer_level t l)(i := timer_level t l i @ [n]))\<rparr>)
      = add_mset n (pending t)"
  using pending_level_upd [of l i t "timer_level t l i @ [n]"] by simp

section \<open>Queueing a node\<close>

text \<open>What an operation that adds nodes promises.\<close>

definition adds :: "timer \<Rightarrow> timer_node multiset \<Rightarrow> timer \<Rightarrow> bool" where
  "adds t N t' \<longleftrightarrow> wheel_inv t' \<and> timer_time t' = timer_time t \<and> pending t' = pending t + N"

lemma adds_least:
  assumes "wheel_inv t" "i < 16384" "placed_least (now_of t) i n"
  shows "adds t {#n#} (t\<lparr>timer_least := (timer_least t)(i := timer_least t i @ [n])\<rparr>)"
  using assms by (auto simp: adds_def wheel_inv_def now_of_def pending_least_append)

lemma adds_level:
  assumes "wheel_inv t" "l < 5" "i < 1023" "placed_level (now_of t) l i n"
  shows "adds t {#n#} (t\<lparr>timer_level := (timer_level t)(l := (timer_level t l)(i := timer_level t l i @ [n]))\<rparr>)"
  using assms by (auto simp: adds_def wheel_inv_def now_of_def pending_level_append)

text \<open>The digit of the deadline at the chosen level exceeds the time's: the slot index is in range.\<close>

lemma digit_grows:
  assumes "(a::nat) < b" "a div 1024 = b div 1024"
  shows "a mod 1024 < b mod 1024"
  using assms div_mult_mod_eq [of a 1024] div_mult_mod_eq [of b 1024] by linarith

lemma div_level_Suc: "(x::nat) div 2 ^ level_shift (Suc l) = x div 2 ^ level_shift l div 1024"
  by (simp add: level_shift_def div_mult2_eq [symmetric] power_add)

lemma level_slot:
  assumes "now div 2 ^ level_shift l < expire_of n div 2 ^ level_shift l"
    and "expire_of n div 2 ^ level_shift (Suc l) = now div 2 ^ level_shift (Suc l)"
  obtains i where "i < 1023" "expire_of n div 2 ^ level_shift l mod 1024 = Suc i" "placed_level now l i n"
proof -
  let ?d = "expire_of n div 2 ^ level_shift l mod 1024"
  have "0 < ?d"
    using digit_grows [OF assms(1)] assms(2) by (simp add: div_level_Suc)
  moreover have "?d < 1024" by simp
  ultimately have "?d - 1 < 1023" "?d = Suc (?d - 1)" by simp_all
  with assms show thesis by (intro that [of "?d - 1"]) (auto simp: placed_level_def)
qed

lemma exp2_step: "push_bit TIME_LEVEL_SHIFT (push_bit (level_shift l) (1::uint64)) = push_bit (level_shift (Suc l)) 1"
  unfolding push_bit_push_bit by (simp add: TIME_LEVEL_SHIFT_def level_shift_def add.commute)

lemma push_bit_minus_1: "push_bit k (1::uint64) - 1 = mask k"
  by (simp add: mask_eq_exp_minus_1 push_bit_of_1)

lemma agree_above:
  "(node_expire n OR (push_bit k 1 - 1) = timer_time t OR (push_bit k 1 - 1)) \<longleftrightarrow>
    expire_of n div 2 ^ k = now_of t div 2 ^ k"
  unfolding push_bit_minus_1 OR_mask_eq_iff expire_of_def now_of_def ..

lemma level_index:
  assumes "expire_of n div 2 ^ level_shift l mod 1024 = Suc i"
  shows "unat ((drop_bit (TIME_LEAST_SHIFT + l * TIME_LEVEL_SHIFT) (node_expire n) AND TIME_LEVEL_MASK) - 1) = i"
proof -
  let ?v = "drop_bit (TIME_LEAST_SHIFT + l * TIME_LEVEL_SHIFT) (node_expire n) AND TIME_LEVEL_MASK"
  have v: "unat ?v = Suc i"
    using assms by (simp add: unat_level_mask unat_drop_bit expire_of_def level_shift_def
        TIME_LEAST_SHIFT_def TIME_LEVEL_SHIFT_def)
  then have "1 \<le> ?v" by (simp add: word_le_nat_alt)
  with v show ?thesis by (simp add: unat_sub)
qed

lemma queue_level_adds:
  assumes "wheel_inv t" "level < 5" "exp2 = push_bit (level_shift level) 1"
    and "now_of t div 2 ^ level_shift level < expire_of n div 2 ^ level_shift level"
  shows "\<exists>t'. queue_level t n level exp2 = Inr t' \<and> adds t {#n#} t'"
  using assms
proof (induction t n level exp2 rule: queue_level.induct)
  case (1 t n level exp2)
  note unf = queue_level.simps [of t n level exp2, unfolded Let_def "1.prems"(3) exp2_step agree_above]
  show ?case
  proof (cases "expire_of n div 2 ^ level_shift (Suc level) = now_of t div 2 ^ level_shift (Suc level)")
    case True
    with "1.prems"(4) obtain i where i: "i < 1023"
        "expire_of n div 2 ^ level_shift level mod 1024 = Suc i" "placed_level (now_of t) level i n"
      by (rule level_slot)
    with "1.prems"(1,2) show ?thesis
      unfolding "1.prems"(3) unf using True
      by (simp add: level_index level_append_def wheel_simps adds_level)
  next
    case False
    have gt: "now_of t div 2 ^ level_shift (Suc level) < expire_of n div 2 ^ level_shift (Suc level)"
      using False "1.prems"(4) by (metis div_le_mono div_level_Suc le_neq_implies_less less_imp_le)
    have "Suc level < 5"
    proof (rule ccontr)
      assume "\<not> Suc level < 5"
      then have "level_shift (Suc level) = 64" using "1.prems"(2) by (simp add: level_shift_def)
      with gt show False using expire_of_bound [of n] by simp
    qed
    moreover have "\<exists>t'. queue_level t n (Suc level) (push_bit (level_shift (Suc level)) 1) = Inr t' \<and> adds t {#n#} t'"
      using "1.IH" [OF refl refl refl refl] False gt \<open>Suc level < 5\<close> "1.prems"(1)
      unfolding "1.prems"(3) exp2_step agree_above by (simp add: wheel_simps)
    ultimately show ?thesis
      unfolding "1.prems"(3) unf using False by (simp add: wheel_simps)
  qed
qed

lemma wheel_queue_adds:
  assumes inv: "wheel_inv t" and le: "now_of t \<le> expire_of n"
  shows "\<exists>t'. wheel_queue t n = Inr t' \<and> adds t {#n#} t'"
proof -
  have ge: "timer_time t \<le> node_expire n"
    using le by (simp add: word_le_nat_alt now_of_def expire_of_def)
  then have diff: "unat (node_expire n - timer_time t) = expire_of n - now_of t"
    by (simp add: unat_sub expire_of_def now_of_def)
  show ?thesis
  proof (cases "expire_of n - now_of t < 16384")
    case True
    then have "placed_least (now_of t) (expire_of n mod 16384) n"
      using le by (simp add: placed_least_def)
    with inv True ge diff show ?thesis
      by (simp add: wheel_queue_def word_less_nat_alt wheel_simps least_append_def
          expire_of_def [symmetric] adds_least)
  next
    case False
    then have "now_of t div 2 ^ level_shift 0 < expire_of n div 2 ^ level_shift 0"
      using le by (simp add: level_shift_def)
    with inv have "\<exists>t'. queue_level t n 0 (push_bit TIME_LEAST_SHIFT 1) = Inr t' \<and> adds t {#n#} t'"
      by (intro queue_level_adds) (simp_all add: level_shift_def TIME_LEAST_SHIFT_def)
    with False ge diff show ?thesis
      by (simp add: wheel_queue_def word_less_nat_alt wheel_simps)
  qed
qed

lemma adds_trans: "adds t M t' \<Longrightarrow> adds t' N t'' \<Longrightarrow> adds t (M + N) t''"
  by (simp add: adds_def ac_simps)

lemma queue_list_adds:
  assumes "wheel_inv t" "\<forall>n\<in>set ns. now_of t \<le> expire_of n"
  shows "\<exists>t'. queue_list t ns = Inr t' \<and> adds t (mset ns) t'"
  using assms
proof (induction ns arbitrary: t)
  case Nil
  then show ?case by (simp add: adds_def)
next
  case (Cons n ns)
  then obtain t1 where t1: "wheel_queue t n = Inr t1" "adds t {#n#} t1"
    using wheel_queue_adds [of t n] by auto
  then have "wheel_inv t1" "now_of t1 = now_of t" by (simp_all add: adds_def now_of_def)
  with Cons obtain t2 where "queue_list t1 ns = Inr t2" "adds t1 (mset ns) t2"
    by (metis list.set_intros(2))
  with t1 show ?case using adds_trans [of t "{#n#}" t1 "mset ns" t2] by simp
qed

section \<open>A tick\<close>

text \<open>How the level slots relate to the time when it moves from \<open>now\<close> to \<open>Suc now\<close>.\<close>

lemma mod_level_Suc:
  "(x::nat) mod 2 ^ level_shift (Suc l) = 0 \<longleftrightarrow>
    x mod 2 ^ level_shift l = 0 \<and> x div 2 ^ level_shift l mod 1024 = 0"
proof -
  have "(2::nat) ^ level_shift (Suc l) = 2 ^ level_shift l * 1024"
    by (simp add: level_shift_def power_add)
  then show ?thesis by (auto simp: mod_mult2_eq)
qed

lemma div_Suc_keep: "Suc m mod d \<noteq> 0 \<Longrightarrow> Suc m div d = m div d"
  by (simp add: div_Suc)

lemma mod_level_mono: "l \<le> k \<Longrightarrow> (x::nat) mod 2 ^ level_shift k = 0 \<Longrightarrow> x mod 2 ^ level_shift l = 0"
  unfolding mod_eq_0_iff_dvd by (rule dvd_trans [OF le_imp_power_dvd]) (simp_all add: level_shift_def)

lemma placed_keep:
  assumes "placed_level now l i n" "Suc now mod 2 ^ level_shift l \<noteq> 0"
  shows "placed_level (Suc now) l i n"
proof -
  have "Suc now mod 2 ^ level_shift (Suc l) \<noteq> 0" using assms(2) by (simp add: mod_level_Suc)
  then have "Suc now div 2 ^ level_shift (Suc l) = now div 2 ^ level_shift (Suc l)"
    by (rule div_Suc_keep)
  moreover have "Suc now div 2 ^ level_shift l = now div 2 ^ level_shift l"
    using assms(2) by (rule div_Suc_keep)
  ultimately show ?thesis using assms(1) unfolding placed_level_def by presburger
qed

lemma placed_none:
  assumes "placed_level now l i n" "Suc now mod 2 ^ level_shift (Suc l) = 0"
  shows False
proof -
  let ?q = "now div 2 ^ level_shift l" and ?e = "expire_of n div 2 ^ level_shift l"
  from assms(2) have "Suc now mod 2 ^ level_shift l = 0" "Suc now div 2 ^ level_shift l mod 1024 = 0"
    by (simp_all add: mod_level_Suc)
  then have "Suc ?q mod 1024 = 0" by (simp add: div_Suc)
  then have "?q mod 1024 = 1023" by (simp add: mod_Suc split: if_splits)
  moreover have "?q mod 1024 < ?e mod 1024"
    using assms(1) by (intro digit_grows) (auto simp: placed_level_def div_level_Suc)
  moreover have "?e mod 1024 < 1024" by simp
  ultimately show False by linarith
qed

lemma placed_cascade:
  assumes pl: "placed_level now l i n"
    and low: "Suc now mod 2 ^ level_shift l = 0"
    and high: "Suc now mod 2 ^ level_shift (Suc l) \<noteq> 0"
  shows "if Suc i = Suc now div 2 ^ level_shift l mod 1024
         then Suc now \<le> expire_of n else placed_level (Suc now) l i n"
proof -
  let ?s = "2 ^ level_shift l :: nat"
  have d: "Suc now div ?s = Suc (now div ?s)" using low by (simp add: div_Suc)
  have up: "Suc now div 2 ^ level_shift (Suc l) = now div 2 ^ level_shift (Suc l)"
    using high by (rule div_Suc_keep)
  have le: "Suc now div ?s \<le> expire_of n div ?s"
    using pl d by (simp add: placed_level_def)
  show ?thesis
  proof (cases "Suc i = Suc now div ?s mod 1024")
    case True
    have "Suc now = ?s * (Suc now div ?s)" using low by (metis add_0_right mult_div_mod_eq)
    also have "\<dots> \<le> ?s * (expire_of n div ?s)" using le by simp
    also have "\<dots> \<le> expire_of n" by simp
    finally show ?thesis using True by simp
  next
    case False
    then have "expire_of n div ?s \<noteq> Suc now div ?s" using pl by (auto simp: placed_level_def)
    with le pl up False show ?thesis by (simp add: placed_level_def)
  qed
qed

text \<open>The wheel between the increment of the time and the cascade.\<close>

definition mid_inv :: "nat \<Rightarrow> timer \<Rightarrow> bool" where
  "mid_inv now t \<longleftrightarrow> now_of t = Suc now \<and>
     (\<forall>i<16384. \<forall>n\<in>set (timer_least t i). placed_least (Suc now) i n) \<and>
     (\<forall>l<5. \<forall>i<1023. \<forall>n\<in>set (timer_level t l i). placed_level now l i n)"

lemma mid_inv_keep: "mid_inv now t \<Longrightarrow> Suc now mod 16384 \<noteq> 0 \<Longrightarrow> wheel_inv t"
proof -
  assume mid: "mid_inv now t" and ne: "Suc now mod 16384 \<noteq> 0"
  have "Suc now mod 2 ^ level_shift l \<noteq> 0" for l
    using ne mod_level_mono [of 0 l "Suc now"] by (auto simp: level_shift_def)
  with mid show "wheel_inv t"
    by (auto simp: mid_inv_def wheel_inv_def intro: placed_keep)
qed

lemma cascade_clear:
  assumes mid: "mid_inv now t" and l: "l < 5"
    and low: "Suc now mod 2 ^ level_shift l = 0"
    and v: "Suc now div 2 ^ level_shift l mod 1024 = Suc i"
  shows "i < 1023 \<and> (\<forall>n\<in>set (timer_level t l i). Suc now \<le> expire_of n) \<and>
    wheel_inv (t\<lparr>timer_level := (timer_level t)(l := (timer_level t l)(i := []))\<rparr>)"
proof -
  have high: "Suc now mod 2 ^ level_shift (Suc l) \<noteq> 0" using v mod_level_Suc by simp
  have i: "i < 1023" using v mod_less_divisor [of 1024 "Suc now div 2 ^ level_shift l"] by linarith
  have others: "placed_level (Suc now) k j n"
    if "k < 5" "j < 1023" "n \<in> set (timer_level t k j)" "k \<noteq> l \<or> j \<noteq> i" for k j n
  proof -
    have pl: "placed_level now k j n" using mid that by (simp add: mid_inv_def)
    consider "k < l" | "k = l" | "l < k" by linarith
    then show ?thesis
    proof cases
      case 1
      with low have "Suc now mod 2 ^ level_shift (Suc k) = 0" by (meson Suc_leI mod_level_mono)
      then have False by (rule placed_none [OF pl])
      then show ?thesis ..
    next
      case 2
      with placed_cascade [of now l j n] pl low high v that show ?thesis by (simp split: if_splits)
    next
      case 3
      with high have "Suc now mod 2 ^ level_shift k \<noteq> 0" by (meson Suc_leI mod_level_mono)
      with pl show ?thesis by (rule placed_keep)
    qed
  qed
  have slot: "Suc now \<le> expire_of n" if "n \<in> set (timer_level t l i)" for n
    using placed_cascade [of now l i n] mid that l i low high v by (simp add: mid_inv_def)
  show ?thesis
    using i slot others mid by (auto simp: wheel_inv_def mid_inv_def now_of_def)
qed

lemma tick_level_adds:
  assumes "mid_inv now t" "level < 5" "Suc now mod 2 ^ level_shift level = 0"
    and "time = drop_bit (level_shift level) (timer_time t)"
  shows "\<exists>t'. tick_level t time level = Inr t' \<and> adds t {#} t'"
  using assms
proof (induction t time level rule: tick_level.induct)
  case (1 t time level)
  let ?v = "time AND TIME_LEVEL_MASK"
  have v: "unat ?v = Suc now div 2 ^ level_shift level mod 1024"
    using "1.prems"(1,4) by (simp add: wheel_simps unat_drop_bit mid_inv_def now_of_def)
  show ?case
  proof (cases "?v = 0")
    case True
    with v "1.prems"(3) have z: "Suc now mod 2 ^ level_shift (Suc level) = 0"
      by (simp add: mod_level_Suc)
    have "Suc level < 5"
    proof (rule ccontr)
      assume "\<not> Suc level < 5"
      with "1.prems"(2) have "level_shift (Suc level) = 64" by (simp add: level_shift_def)
      with z now_of_bound [of t] "1.prems"(1) show False by (simp add: mid_inv_def)
    qed
    moreover have "drop_bit TIME_LEVEL_SHIFT time = drop_bit (level_shift (Suc level)) (timer_time t)"
      using "1.prems"(4) by (simp add: TIME_LEVEL_SHIFT_def level_shift_def drop_bit_drop_bit add.commute)
    ultimately show ?thesis
      using "1.IH" [OF refl True] "1.prems"(1) z True
      by (simp add: tick_level.simps [of t time level] wheel_simps)
  next
    case False
    then obtain i where i: "unat ?v = Suc i" by (metis not0_implies_Suc unat_eq_zero)
    with v "1.prems" have cl: "i < 1023" "\<forall>n\<in>set (timer_level t level i). Suc now \<le> expire_of n"
        "wheel_inv (t\<lparr>timer_level := (timer_level t)(level := (timer_level t level)(i := []))\<rparr>)"
      using cascade_clear [of now t level i] by simp_all
    let ?t = "t\<lparr>timer_level := (timer_level t)(level := (timer_level t level)(i := []))\<rparr>"
    have idx: "unat (?v - 1) = i"
      using i by (metis diff_Suc_1 False unat_minus_one)
    obtain t' where t': "queue_list ?t (timer_level t level i) = Inr t'"
        "adds ?t (mset (timer_level t level i)) t'"
      using queue_list_adds [OF cl(3), of "timer_level t level i"] cl(2) "1.prems"(1)
      by (auto simp: now_of_def mid_inv_def)
    then have "adds t {#} t'"
      using pending_level_upd [of level i t "[]"] "1.prems"(2) cl(1) by (simp add: adds_def)
    with t' idx cl(1) "1.prems"(2) False show ?thesis
      by (simp add: tick_level.simps [of t time level] level_clear_def wheel_simps)
  qed
qed

lemma send_list_map: "send_list ns = map timer_send ns"
  by (induction ns) auto

text \<open>The slot a tick clears holds exactly the nodes due now.\<close>

lemma due_now:
  assumes inv: "wheel_inv t"
  defines "i \<equiv> now_of t mod 16384"
  defines "t1 \<equiv> t\<lparr>timer_least := (timer_least t)(i := [])\<rparr>"
  shows "mset (timer_least t i) = {#n \<in># pending t. expire_of n = now_of t#}"
    and "pending t1 = {#n \<in># pending t. expire_of n \<noteq> now_of t#}"
proof -
  have i: "i < 16384" by (simp add: i_def)
  have split: "pending t = mset (timer_least t i) + pending t1"
    using pending_least_upd [OF i, of t "[]"] by (simp add: t1_def add.commute)
  have eq: "expire_of n = now_of t" if "n \<in> set (timer_least t i)" for n
  proof -
    have pl: "placed_least (now_of t) i n" using inv i that by (simp add: wheel_inv_def)
    then have "16384 dvd expire_of n - now_of t"
      using mod_eq_dvd_iff_nat [of "now_of t" "expire_of n" 16384]
      by (simp add: placed_least_def i_def)
    then have "expire_of n - now_of t = 0 \<or> 16384 \<le> expire_of n - now_of t"
      by (auto dest: dvd_imp_le)
    with pl show ?thesis by (auto simp: placed_least_def)
  qed
  have ne: "expire_of n \<noteq> now_of t" if "n \<in># pending t1" for n
  proof -
    from that consider k where "k < 16384" "k \<noteq> i" "n \<in> set (timer_least t k)"
      | l k where "l < 5" "k < 1023" "n \<in> set (timer_level t l k)"
      by (auto simp: set_pending t1_def split: if_splits)
    then show ?thesis
    proof cases
      case 1
      with inv have "placed_least (now_of t) k n" by (simp add: wheel_inv_def)
      with 1(2) show ?thesis by (auto simp: placed_least_def i_def)
    next
      case 2
      then show ?thesis using inv placed_level_now [of "now_of t" l k n] by (auto simp: wheel_inv_def)
    qed
  qed
  have "{#n \<in># mset (timer_least t i). expire_of n = now_of t#} = mset (timer_least t i)"
    using eq by (simp add: filter_mset_eq_conv)
  moreover have "{#n \<in># mset (timer_least t i). expire_of n \<noteq> now_of t#} = {#}"
    using eq by simp
  moreover have "{#n \<in># pending t1. expire_of n = now_of t#} = {#}" using ne by auto
  moreover have "{#n \<in># pending t1. expire_of n \<noteq> now_of t#} = pending t1"
    using ne by (auto simp: filter_mset_eq_conv)
  ultimately show "mset (timer_least t i) = {#n \<in># pending t. expire_of n = now_of t#}"
    and "pending t1 = {#n \<in># pending t. expire_of n \<noteq> now_of t#}"
    by (simp_all add: split)
qed

text \<open>What a tick or a sequence of ticks up to \<open>T\<close> promises.\<close>

definition fires :: "timer \<Rightarrow> nat \<Rightarrow> timer_node list \<Rightarrow> timer \<Rightarrow> bool" where
  "fires t T ns t' \<longleftrightarrow>
     wheel_inv t' \<and> now_of t' = T \<and> sorted (map expire_of ns) \<and>
     mset ns = {#n \<in># pending t. expire_of n < T#} \<and>
     pending t' = {#n \<in># pending t. \<not> expire_of n < T#}"

lemma tick_mid:
  assumes inv: "wheel_inv t" and now2: "unat (timer_time t + 1) = Suc (now_of t)"
  shows "mid_inv (now_of t)
    (t\<lparr>timer_least := (timer_least t)(now_of t mod 16384 := []), timer_time := timer_time t + 1\<rparr>)"
proof -
  have "placed_least (Suc (now_of t)) j n"
    if "j < 16384" "n \<in> set (timer_least t j)" "j \<noteq> now_of t mod 16384" for j n
  proof -
    have pl: "placed_least (now_of t) j n" using inv that by (simp add: wheel_inv_def)
    with that(3) have "expire_of n \<noteq> now_of t" by (auto simp: placed_least_def)
    with pl show ?thesis by (simp add: placed_least_def)
  qed
  with inv now2 show ?thesis by (simp add: mid_inv_def wheel_inv_def now_of_def)
qed

lemma wheel_tick_fires:
  assumes inv: "wheel_inv t" and time: "now_of t + 1 < 2 ^ 64"
  shows "\<exists>ns t'. wheel_tick t = Inr (map timer_send ns, t') \<and> fires t (Suc (now_of t)) ns t'"
proof -
  let ?i = "now_of t mod 16384"
  let ?t1 = "t\<lparr>timer_least := (timer_least t)(?i := [])\<rparr>"
  let ?t2 = "?t1\<lparr>timer_time := timer_time t + 1\<rparr>"
  have now2: "unat (timer_time t + 1) = Suc (now_of t)"
    using unat_Suc_less [of "timer_time t"] time by (simp add: now_of_def)
  have mid: "mid_inv (now_of t) ?t2"
    using inv now2 by (rule tick_mid)
  have pend2: "pending ?t2 = pending ?t1"
    by (simp add: pending_def pending_least_def pending_level_def)
  have le: "expire_of n < Suc (now_of t) \<longleftrightarrow> expire_of n = now_of t" if "n \<in># pending t" for n
    using pending_not_past [OF inv that] by auto
  have fin: "fires t (Suc (now_of t)) (timer_least t ?i) t'" if "adds ?t2 {#} t'" for t'
  proof -
    have "expire_of n = now_of t" if "n \<in> set (timer_least t ?i)" for n
    proof -
      have "n \<in># {#n \<in># pending t. expire_of n = now_of t#}"
        using that unfolding due_now(1) [OF inv, symmetric] by simp
      then show ?thesis by simp
    qed
    then have "sorted (map expire_of (timer_least t ?i))"
      by (simp add: sorted_iff_nth_mono)
    then show ?thesis
      using that due_now [OF inv] now2 pend2 le
      by (simp add: fires_def adds_def now_of_def cong: filter_mset_cong)
  qed
  show ?thesis
  proof (cases "Suc (now_of t) mod 16384 = 0")
    case True
    have "timer_time t + 1 \<noteq> 0" using now2 by (metis Suc_neq_Zero unat_0)
    moreover obtain t' where "tick_level ?t2 (drop_bit TIME_LEAST_SHIFT (timer_time ?t2)) 0 = Inr t'" "adds ?t2 {#} t'"
      using True tick_level_adds [OF mid, of 0 "drop_bit TIME_LEAST_SHIFT (timer_time ?t2)"]
      by (auto simp: level_shift_def TIME_LEAST_SHIFT_def)
    moreover have "(timer_time t + 1) AND TIME_LEAST_MASK = 0"
      using True now2 by (simp add: unat_eq_zero [symmetric] wheel_simps)
    ultimately show ?thesis
      using fin [of t'] by (intro exI [of _ "timer_least t ?i"] exI [of _ t'])
        (simp add: wheel_tick_def least_clear_def wheel_simps now_of_def [symmetric] send_list_map)
  next
    case False
    then have "wheel_inv ?t2" using mid mid_inv_keep by blast
    moreover have "(timer_time t + 1) AND TIME_LEAST_MASK \<noteq> 0"
      using False now2 by (simp add: unat_eq_zero [symmetric] wheel_simps)
    ultimately show ?thesis
      using fin [of ?t2]
      by (auto simp: wheel_tick_def least_clear_def wheel_simps now_of_def [symmetric] send_list_map adds_def)
  qed
qed

section \<open>Updates and timeouts\<close>

lemma fires_self: "wheel_inv t \<Longrightarrow> fires t (now_of t) [] t"
  using pending_not_past [of t] by (auto simp: fires_def not_less filter_mset_all)

lemma fires_trans:
  assumes "fires t T ns t'" "fires t' T' ns' t''" "T \<le> T'"
  shows "fires t T' (ns @ ns') t''"
proof -
  have lo: "\<forall>n\<in>set ns. expire_of n < T"
    using assms(1) by (metis (mono_tags, lifting) fires_def filter_mset_eq_conv set_mset_mset)
  have "set ns' \<subseteq> set_mset (pending t')"
    using assms(2) by (metis (no_types, lifting) fires_def filter_mset_eq_conv set_mset_mset set_mset_mono multiset_filter_subset)
  then have hi: "\<forall>n\<in>set ns'. T \<le> expire_of n"
    using assms(1) by (auto simp: fires_def)
  have "{#n \<in># pending t. expire_of n < T#} + {#n \<in># {#n \<in># pending t. \<not> expire_of n < T#}. expire_of n < T'#}
      = {#n \<in># pending t. expire_of n < T'#}"
    using assms(3) by (intro multiset_eqI) auto
  moreover have "{#n \<in># {#n \<in># pending t. \<not> expire_of n < T#}. \<not> expire_of n < T'#}
      = {#n \<in># pending t. \<not> expire_of n < T'#}"
    using assms(3) by (intro multiset_eqI) auto
  ultimately show ?thesis
    using assms lo hi by (fastforce simp: fires_def sorted_append)
qed

lemma wheel_update_fires:
  "wheel_inv t \<Longrightarrow>
    \<exists>ns t'. wheel_update t time = Inr (map timer_send ns, t') \<and> fires t (max (now_of t) (unat time)) ns t'"
proof (induction t time rule: wheel_update.induct)
  case (1 t time)
  show ?case
  proof (cases "timer_time t < time")
    case True
    then have lt: "now_of t < unat time" by (simp add: word_less_nat_alt now_of_def)
    moreover have "unat time < 2 ^ 64" using unsigned_less [of time] by simp
    ultimately obtain ns t1 where t1: "wheel_tick t = Inr (map timer_send ns, t1)"
        "fires t (Suc (now_of t)) ns t1"
      using wheel_tick_fires [OF "1.prems"] by auto
    then have "wheel_inv t1" "now_of t1 = Suc (now_of t)" by (simp_all add: fires_def)
    with "1.IH" [OF True t1(1) refl] lt obtain ns' t2 where
        "wheel_update t1 time = Inr (map timer_send ns', t2)" "fires t1 (unat time) ns' t2"
      by (auto simp: max_def)
    with t1 True lt show ?thesis
      using fires_trans [OF t1(2), of "unat time" ns' t2]
      by (intro exI [of _ "ns @ ns'"] exI [of _ t2]) (simp add: wheel_update.simps [of t time])
  next
    case False
    then have "max (now_of t) (unat time) = now_of t" by (simp add: word_less_nat_alt now_of_def)
    with False fires_self [OF "1.prems"] show ?thesis
      by (intro exI [of _ "[]"] exI [of _ t]) (simp add: wheel_update.simps [of t time])
  qed
qed

lemma wheel_timeout_adds:
  assumes "wheel_inv t" "now_of t + unat d < 2 ^ 64"
  shows "\<exists>t' n. wheel_timeout t p s d = Inr t' \<and> adds t {#n#} t' \<and>
           expire_of n = now_of t + unat d \<and> timer_send n = (p, s)"
proof -
  let ?n = "\<lparr>node_expire = timer_time t + d, node_source = pid_value p, node_session = sid_value s\<rparr>"
  have e: "expire_of ?n = now_of t + unat d"
    using assms(2) unat_plus_less [of "timer_time t" d] by (simp add: expire_of_def now_of_def)
  with wheel_queue_adds [OF assms(1), of ?n] obtain t' where
      "wheel_queue t ?n = Inr t'" "adds t {#?n#} t'" by auto
  with e show ?thesis
    by (intro exI [of _ t'] exI [of _ ?n]) (simp add: wheel_timeout_def timer_send_def)
qed

lemma wheel_timeout_overflow:
  assumes "2 ^ 64 \<le> now_of t + unat d"
  shows "wheel_timeout t p s d = Inl AssertExpire"
proof -
  have "unat (timer_time t + d) = now_of t + unat d - 2 ^ 64"
    using assms unat_plus_wrap [of "timer_time t" d] by (simp add: now_of_def)
  then have "\<not> timer_time t \<le> timer_time t + d"
    using assms unat_bound [of d] by (simp add: word_le_nat_alt now_of_def)
  then show ?thesis by (simp add: wheel_timeout_def wheel_queue_def)
qed

lemma wheel_inv_init: "wheel_inv timer_init" "pending timer_init = {#}" "now_of timer_init = 0" "timer_time timer_init = 0"
  by (simp_all add: wheel_inv_def timer_init_def pending_def pending_least_def pending_level_def now_of_def)

section \<open>What the wheel guarantees\<close>

lemma expire_less: "expire_of n < unat T \<longleftrightarrow> node_expire n < T"
  by (simp add: expire_of_def word_less_nat_alt)

lemma pending_ge: "wheel_inv t \<Longrightarrow> n \<in># pending t \<Longrightarrow> timer_time t \<le> node_expire n"
  using pending_not_past by (auto simp: word_le_nat_alt now_of_def expire_of_def)

text \<open>A wheel with one sleeper at level 0, for the witnesses.\<close>

lemma one_sleeper:
  "\<exists>t n. wheel_timeout timer_init (process_t 1) (session_t 5) 20000 = Inr t \<and> wheel_inv t \<and>
     timer_time t = 0 \<and> pending t = {#n#} \<and> node_expire n = 20000 \<and>
     timer_send n = (process_t 1, session_t 5)"
proof -
  obtain t n where t: "wheel_timeout timer_init (process_t 1) (session_t 5) 20000 = Inr t"
      "adds timer_init {#n#} t" "expire_of n = 20000" "timer_send n = (process_t 1, session_t 5)"
    using wheel_timeout_adds [OF wheel_inv_init(1), of 20000 "process_t 1" "session_t 5"]
    by (auto simp: wheel_inv_init)
  moreover have "node_expire n = 20000"
    using t(3) by (simp add: expire_of_def word_unat_eq_iff)
  ultimately show ?thesis
    by (intro exI [of _ t] exI [of _ n]) (simp add: adds_def wheel_inv_init)
qed

text \<open>A tick at any time but the last sends, for the pending nodes whose deadline is the current
  time and for no others, one response each; it advances the time by one, keeps the other
  nodes pending wherever the cascade moves them, and keeps the wheel well-formed. At the last
  time it fails the assertion that the time does not wrap.\<close>

theorem wheel_tick_exact:
  assumes "wheel_inv t"
  shows "if timer_time t = - 1 then wheel_tick t = Inl AssertTime
    else \<exists>ns t'. wheel_tick t = Inr (map timer_send ns, t') \<and>
      wheel_inv t' \<and> timer_time t' = timer_time t + 1 \<and>
      mset ns = {#n \<in># pending t. node_expire n = timer_time t#} \<and>
      pending t' = {#n \<in># pending t. node_expire n \<noteq> timer_time t#}"
proof (cases "timer_time t = - 1")
  case True
  then show ?thesis by (simp add: wheel_tick_def least_clear_def wheel_simps)
next
  case False
  then have "now_of t + 1 < 2 ^ 64"
    using now_of_bound [of t] by (simp add: now_of_def unat_max64 word_unat_eq_iff)
  then obtain ns t' where t': "wheel_tick t = Inr (map timer_send ns, t')" "fires t (Suc (now_of t)) ns t'"
    using wheel_tick_fires [OF assms] by auto
  have "expire_of n < Suc (now_of t) \<longleftrightarrow> node_expire n = timer_time t" if "n \<in># pending t" for n
    using pending_not_past [OF assms that] by (auto simp: now_of_def expire_of_def word_unat_eq_iff)
  with t' False wheel_tick_time [OF t'(1)] show ?thesis
    by (auto simp: fires_def cong: filter_mset_cong)
qed

theorem wheel_tick_exact_witness:
  "\<exists>t ns t'. wheel_inv t \<and> size (pending t) = 1 \<and> wheel_tick t = Inr (map timer_send ns, t') \<and> ns = []"
proof -
  obtain t n where t: "wheel_inv t" "timer_time t = 0" "pending t = {#n#}" "node_expire n = 20000"
    using one_sleeper by blast
  with wheel_tick_exact [OF t(1)] obtain ns t' where
      "wheel_tick t = Inr (map timer_send ns, t')" "mset ns = {#}"
    by auto
  with t show ?thesis by (intro exI [of _ t] exI [of _ ns] exI [of _ t']) simp
qed

text \<open>An update to a time that is not in the past terminates without failing an assertion, and
  sends one response for each pending node whose deadline lies before that time, in the
  order of the deadlines; no response is early, none is lost, and the others stay pending.\<close>

theorem wheel_update_exact:
  assumes "wheel_inv t" "timer_time t \<le> T"
  shows "\<exists>ns t'. wheel_update t T = Inr (map timer_send ns, t') \<and>
    wheel_inv t' \<and> timer_time t' = T \<and> sorted (map node_expire ns) \<and>
    mset ns = {#n \<in># pending t. node_expire n < T#} \<and>
    pending t' = {#n \<in># pending t. T \<le> node_expire n#}"
proof -
  have "max (now_of t) (unat T) = unat T" using assms(2) by (simp add: word_le_nat_alt now_of_def)
  then obtain ns t' where t': "wheel_update t T = Inr (map timer_send ns, t')" "fires t (unat T) ns t'"
    using wheel_update_fires [OF assms(1), of T] by auto
  then show ?thesis
    by (intro exI [of _ ns] exI [of _ t'])
      (auto simp: fires_def expire_less not_less now_of_def word_unat_eq_iff sorted_map expire_of_def
        word_le_nat_alt word_less_nat_alt)
qed

theorem wheel_update_exact_witness:
  "\<exists>t t'. wheel_inv t \<and> timer_time t = 0 \<and>
     wheel_update t 20001 = Inr ([(process_t 1, session_t 5)], t') \<and> pending t' = {#}"
proof -
  obtain t n where t: "wheel_inv t" "timer_time t = 0" "pending t = {#n#}" "node_expire n = 20000"
      "timer_send n = (process_t 1, session_t 5)"
    using one_sleeper by blast
  with wheel_update_exact [of t 20001] obtain ns t' where
      "wheel_update t 20001 = Inr (map timer_send ns, t')" "mset ns = {#n#}" "pending t' = {#}"
    by auto
  with t show ?thesis by (intro exI [of _ t] exI [of _ t']) simp
qed

text \<open>Starting a timeout files the node under its deadline, in a slot that is in range and without
  failing an assertion, exactly when the deadline does not exceed the 64-bit time; a longer
  timeout wraps around and fails the assertion \<^verbatim>\<open>expire >= time\<close>.\<close>

theorem wheel_timeout_cases:
  assumes "wheel_inv t"
  shows "if unat (timer_time t) + unat d < 2 ^ 64
    then \<exists>t' n. wheel_timeout t p s d = Inr t' \<and> wheel_inv t' \<and> timer_time t' = timer_time t \<and>
      pending t' = add_mset n (pending t) \<and> node_expire n = timer_time t + d \<and> timer_send n = (p, s)
    else wheel_timeout t p s d = Inl AssertExpire"
proof (cases "unat (timer_time t) + unat d < 2 ^ 64")
  case True
  with wheel_timeout_adds [OF assms, of d p s] obtain t' n where t': "wheel_timeout t p s d = Inr t'"
      "adds t {#n#} t'" "expire_of n = now_of t + unat d" "timer_send n = (p, s)"
    by (auto simp: now_of_def)
  moreover have "node_expire n = timer_time t + d"
    using t'(3) True unat_plus_less [of "timer_time t" d]
    by (simp add: word_unat_eq_iff expire_of_def now_of_def)
  ultimately show ?thesis using True by (auto simp: adds_def)
next
  case False
  then show ?thesis using wheel_timeout_overflow [of t d p s] by (simp add: now_of_def)
qed

theorem wheel_timeout_cases_witness:
  "(\<exists>t'. wheel_timeout timer_init (process_t 1) (session_t 5) 3 = Inr t' \<and> size (pending t') = 1) \<and>
   (\<exists>t. wheel_inv t \<and> timer_time t = 1 \<and> wheel_timeout t (process_t 1) (session_t 5) (- 1) = Inl AssertExpire)"
proof
  show "\<exists>t'. wheel_timeout timer_init (process_t 1) (session_t 5) 3 = Inr t' \<and> size (pending t') = 1"
    using wheel_timeout_cases [OF wheel_inv_init(1), of 3 "process_t 1" "session_t 5"]
    by (auto simp: wheel_inv_init)
next
  obtain t ns where t: "wheel_inv t" "timer_time t = 1"
    using wheel_update_fires [OF wheel_inv_init(1), of 1]
    by (auto simp: fires_def now_of_def timer_init_def word_unat_eq_iff)
  then show "\<exists>t. wheel_inv t \<and> timer_time t = 1 \<and> wheel_timeout t (process_t 1) (session_t 5) (- 1) = Inl AssertExpire"
    using wheel_timeout_cases [OF t(1), of "- 1" "process_t 1" "session_t 5"] by (auto simp: unat_max64)
qed

end
