(* ===== verification/Timer_Service.thy ===== *)
theory Timer_Service
  imports Timer_Spec
begin

text \<open>
  The timer process of \<^verbatim>\<open>src/time.cpp\<close> around the wheel: its message handlers (\<^verbatim>\<open>_main\<close>),
  the thread that feeds it the time (\<^verbatim>\<open>tick\<close>), and the clock functions of the library. What
  the handlers rely on is the contract \<open>deadline_queue\<close>, which the wheel provides.
\<close>

section \<open>The service\<close>

text \<open>
  A message of the service: a request carries the process and session that the runtime gives
  the callback through \<^verbatim>\<open>process::sender()\<close> and \<^verbatim>\<open>process::session()\<close>.
\<close>

datatype service_msg = TimeoutRequest process_t session_t uint64 | UpdateMessage uint64

fun service_handle ::
  "('t \<Rightarrow> process_t \<Rightarrow> session_t \<Rightarrow> uint64 \<Rightarrow> 'e + 't) \<Rightarrow> ('t \<Rightarrow> uint64 \<Rightarrow> 'e + (wakeup_call list \<times> 't)) \<Rightarrow>
    't \<Rightarrow> service_msg \<Rightarrow> 'e + (wakeup_call list \<times> 't)" where
  "service_handle start advance t (TimeoutRequest sender session timeout) =
     (case start t sender session timeout of Inl e \<Rightarrow> Inl e | Inr t' \<Rightarrow> Inr ([], t'))"
| "service_handle start advance t (UpdateMessage timestamp) = advance t timestamp"

fun service_run ::
  "('t \<Rightarrow> process_t \<Rightarrow> session_t \<Rightarrow> uint64 \<Rightarrow> 'e + 't) \<Rightarrow> ('t \<Rightarrow> uint64 \<Rightarrow> 'e + (wakeup_call list \<times> 't)) \<Rightarrow>
    't \<Rightarrow> service_msg list \<Rightarrow> 'e + (wakeup_call list \<times> 't)" where
  "service_run start advance t [] = Inr ([], t)"
| "service_run start advance t (m # ms) =
     (case service_handle start advance t m of
        Inl e \<Rightarrow> Inl e
      | Inr (sent, t') \<Rightarrow>
          (case service_run start advance t' ms of
             Inl e \<Rightarrow> Inl e
           | Inr (sent', t'') \<Rightarrow> Inr (sent @ sent', t'')))"

definition timer_main :: "service_msg list \<Rightarrow> timer_error + (wakeup_call list \<times> timer)" where
  "timer_main ms = service_run wheel_timeout wheel_update timer_init ms"

section \<open>Specification\<close>

text \<open>
  The deadlines the requests of a message sequence ask for, and the time at its end, when the
  service starts at \<open>now\<close>: each request counts from the last update before it.
\<close>

fun requests_of :: "nat \<Rightarrow> service_msg list \<Rightarrow> (nat \<times> wakeup_call) list" where
  "requests_of now [] = []"
| "requests_of now (TimeoutRequest p s d # ms) = (now + unat d, (p, s)) # requests_of now ms"
| "requests_of now (UpdateMessage u # ms) = requests_of (max now (unat u)) ms"

fun end_time :: "nat \<Rightarrow> service_msg list \<Rightarrow> nat" where
  "end_time now [] = now"
| "end_time now (TimeoutRequest p s d # ms) = end_time now ms"
| "end_time now (UpdateMessage u # ms) = end_time (max now (unat u)) ms"

lemma end_time_mono: "now \<le> end_time now ms"
  by (induction now ms rule: end_time.induct) auto

locale deadline_queue =
  fixes ok :: "'t \<Rightarrow> bool"
    and now :: "'t \<Rightarrow> nat"
    and due :: "'t \<Rightarrow> (nat \<times> wakeup_call) multiset"
    and start :: "'t \<Rightarrow> process_t \<Rightarrow> session_t \<Rightarrow> uint64 \<Rightarrow> 'e + 't"
    and advance :: "'t \<Rightarrow> uint64 \<Rightarrow> 'e + (wakeup_call list \<times> 't)"
  assumes due_ahead: "ok t \<Longrightarrow> x \<in># due t \<Longrightarrow> now t \<le> fst x"
    and start_adds: "ok t \<Longrightarrow> now t + unat d < 2 ^ 64 \<Longrightarrow>
      \<exists>t'. start t p s d = Inr t' \<and> ok t' \<and> now t' = now t \<and> due t' = due t + {#(now t + unat d, (p, s))#}"
    and advance_fires: "ok t \<Longrightarrow>
      \<exists>ds t'. advance t T = Inr (map snd ds, t') \<and> ok t' \<and> now t' = max (now t) (unat T) \<and>
        mset ds = {#d \<in># due t. fst d < now t'#} \<and> due t' = {#d \<in># due t. \<not> fst d < now t'#}"
begin

lemma service_run_exact:
  assumes "ok t" "\<forall>r\<in>set (requests_of (now t) ms). fst r < 2 ^ 64"
  defines "all \<equiv> due t + mset (requests_of (now t) ms)"
    and "E \<equiv> end_time (now t) ms"
  shows "\<exists>rs t'. service_run start advance t ms = Inr (map snd rs, t') \<and> ok t' \<and> now t' = E \<and>
    mset rs = {#d \<in># all. fst d < E#} \<and> due t' = {#d \<in># all. \<not> fst d < E#}"
  using assms(1,2) unfolding all_def E_def
proof (induction ms arbitrary: t)
  case Nil
  then show ?case using due_ahead [OF Nil(1)] by (auto simp: not_less filter_mset_all)
next
  case (Cons m ms)
  show ?case
  proof (cases m)
    case (TimeoutRequest p s d)
    with Cons.prems obtain t1 where t1: "start t p s d = Inr t1" "ok t1" "now t1 = now t"
        "due t1 = due t + {#(now t + unat d, (p, s))#}"
      using start_adds [of t d p s] by auto
    obtain rs t2 where t2: "service_run start advance t1 ms = Inr (map snd rs, t2)" "ok t2"
        "now t2 = end_time (now t1) ms"
        "mset rs = {#d \<in># due t1 + mset (requests_of (now t1) ms). fst d < end_time (now t1) ms#}"
        "due t2 = {#d \<in># due t1 + mset (requests_of (now t1) ms). \<not> fst d < end_time (now t1) ms#}"
      using Cons.IH [of t1] t1(2,3) Cons.prems(2) TimeoutRequest by auto
    then show ?thesis
      using t1 TimeoutRequest by (intro exI [of _ rs] exI [of _ t2]) simp
  next
    case (UpdateMessage u)
    obtain ds t1 where t1: "advance t u = Inr (map snd ds, t1)" "ok t1" "now t1 = max (now t) (unat u)"
        "mset ds = {#d \<in># due t. fst d < now t1#}" "due t1 = {#d \<in># due t. \<not> fst d < now t1#}"
      using advance_fires [OF Cons.prems(1)] by blast
    let ?E = "end_time (now t1) ms"
    obtain rs t2 where t2: "service_run start advance t1 ms = Inr (map snd rs, t2)" "ok t2" "now t2 = ?E"
        "mset rs = {#d \<in># due t1 + mset (requests_of (now t1) ms). fst d < ?E#}"
        "due t2 = {#d \<in># due t1 + mset (requests_of (now t1) ms). \<not> fst d < ?E#}"
      using Cons.IH [of t1] t1 Cons.prems(2) UpdateMessage by auto
    have le: "now t1 \<le> ?E" by (rule end_time_mono)
    have "{#d \<in># due t. fst d < now t1#} + {#d \<in># due t1. fst d < ?E#} = {#d \<in># due t. fst d < ?E#}"
      using le by (intro multiset_eqI) (auto simp: t1(5))
    moreover have "{#d \<in># due t1. \<not> fst d < ?E#} = {#d \<in># due t. \<not> fst d < ?E#}"
      using le by (intro multiset_eqI) (auto simp: t1(5))
    ultimately show ?thesis
      using UpdateMessage t1 t2 by (intro exI [of _ "ds @ rs"] exI [of _ t2]) (simp add: ac_simps)
  qed
qed

end

text \<open>The wheel provides the contract.\<close>

definition wheel_due :: "timer \<Rightarrow> (nat \<times> wakeup_call) multiset" where
  "wheel_due t = image_mset (\<lambda>n. (expire_of n, timer_send n)) (pending t)"

lemma wheel_due_filter:
  "{#d \<in># wheel_due t. P (fst d)#} = image_mset (\<lambda>n. (expire_of n, timer_send n)) {#n \<in># pending t. P (expire_of n)#}"
  by (simp add: wheel_due_def filter_mset_image_mset)

interpretation wheel: deadline_queue wheel_inv now_of wheel_due wheel_timeout wheel_update
proof
  show "now_of t \<le> fst d" if "wheel_inv t" "d \<in># wheel_due t" for t d
    using that pending_not_past by (auto simp: wheel_due_def)
next
  fix t p s and d :: uint64 assume "wheel_inv t" "now_of t + unat d < 2 ^ 64"
  then show "\<exists>t'. wheel_timeout t p s d = Inr t' \<and> wheel_inv t' \<and> now_of t' = now_of t \<and>
      wheel_due t' = wheel_due t + {#(now_of t + unat d, (p, s))#}"
    using wheel_timeout_adds [of t d p s] by (fastforce simp: adds_def wheel_due_def now_of_def)
next
  fix t T assume inv: "wheel_inv t"
  let ?f = "\<lambda>n. (expire_of n, timer_send n)"
  obtain ns t' where t': "wheel_update t T = Inr (map timer_send ns, t')"
      "fires t (max (now_of t) (unat T)) ns t'"
    using wheel_update_fires [OF inv] by blast
  have "map snd (map ?f ns) = map timer_send ns" by simp
  moreover have "mset (map ?f ns) = {#d \<in># wheel_due t. fst d < now_of t'#}"
    using t'(2) wheel_due_filter [of "\<lambda>e. e < now_of t'" t] by (simp add: fires_def)
  moreover have "wheel_due t' = {#d \<in># wheel_due t. \<not> fst d < now_of t'#}"
    using t'(2) wheel_due_filter [of "\<lambda>e. \<not> e < now_of t'" t] by (simp add: fires_def wheel_due_def)
  ultimately show "\<exists>ds t'. wheel_update t T = Inr (map snd ds, t') \<and> wheel_inv t' \<and>
      now_of t' = max (now_of t) (unat T) \<and> mset ds = {#d \<in># wheel_due t. fst d < now_of t'#} \<and>
      wheel_due t' = {#d \<in># wheel_due t. \<not> fst d < now_of t'#}"
    using t' by (intro exI [of _ "map ?f ns"] exI [of _ t']) (simp add: fires_def)
qed

section \<open>The time thread and the clock functions\<close>

text \<open>
  \<^verbatim>\<open>tick\<close> reads the clock (the readings are an input of the model), asserts that it has not
  moved before the start, and publishes and sends the time when it has grown.
\<close>

record time_globals =
  TIME :: uint64
  STARTTIME :: uint64
  STARTTIME_REALTIME :: uint64

datatype clock_error = AssertClock

definition time_init :: "uint64 \<Rightarrow> uint64 \<Rightarrow> time_globals" where
  "time_init gettime realtime = \<lparr>TIME = 0, STARTTIME = gettime, STARTTIME_REALTIME = realtime\<rparr>"

definition tick_once :: "time_globals \<Rightarrow> uint64 \<Rightarrow> clock_error + (service_msg list \<times> time_globals)" where
  "tick_once g now =
     (if \<not> now \<ge> STARTTIME g then Inl AssertClock
      else (let time = now - STARTTIME g
            in if time > TIME g then Inr ([UpdateMessage time], g\<lparr>TIME := time\<rparr>)
               else Inr ([], g)))"

fun tick_thread :: "time_globals \<Rightarrow> uint64 list \<Rightarrow> clock_error + (service_msg list \<times> time_globals)" where
  "tick_thread g [] = Inr ([], g)"
| "tick_thread g (now # readings) =
     (case tick_once g now of
        Inl e \<Rightarrow> Inl e
      | Inr (sent, g') \<Rightarrow>
          (case tick_thread g' readings of
             Inl e \<Rightarrow> Inl e
           | Inr (sent', g'') \<Rightarrow> Inr (sent @ sent', g'')))"

definition startup_time :: "time_globals \<Rightarrow> uint64" where
  "startup_time g = STARTTIME_REALTIME g"

definition monotonic_now :: "time_globals \<Rightarrow> uint64" where
  "monotonic_now g = TIME g"

definition monotonic_real_time :: "time_globals \<Rightarrow> uint64" where
  "monotonic_real_time g = startup_time g + monotonic_now g"

lemma tick_thread_run:
  "\<forall>r\<in>set rs. STARTTIME g \<le> r \<Longrightarrow>
    \<exists>ts g'. tick_thread g rs = Inr (map UpdateMessage ts, g') \<and>
      sorted_wrt (<) (TIME g # ts) \<and> TIME g' = last (TIME g # ts) \<and>
      (\<forall>r\<in>set rs. r - STARTTIME g \<le> TIME g') \<and>
      set ts \<subseteq> (\<lambda>r. r - STARTTIME g) ` set rs \<and>
      STARTTIME g' = STARTTIME g \<and> STARTTIME_REALTIME g' = STARTTIME_REALTIME g"
proof (induction rs arbitrary: g)
  case (Cons r rs)
  let ?time = "r - STARTTIME g"
  show ?case
  proof (cases "?time > TIME g")
    case True
    let ?g = "g\<lparr>TIME := ?time\<rparr>"
    obtain ts g' where IH: "tick_thread ?g rs = Inr (map UpdateMessage ts, g')"
        "sorted_wrt (<) (?time # ts)" "TIME g' = last (?time # ts)"
        "\<forall>r\<in>set rs. r - STARTTIME g \<le> TIME g'" "set ts \<subseteq> (\<lambda>r. r - STARTTIME g) ` set rs"
        "STARTTIME g' = STARTTIME g" "STARTTIME_REALTIME g' = STARTTIME_REALTIME g"
      using Cons.IH [of ?g] Cons.prems by auto
    have "?time \<le> TIME g'" using IH(2,3) by (cases ts rule: rev_cases) (auto simp: less_imp_le)
    with IH True Cons.prems show ?thesis
      by (intro exI [of _ "?time # ts"] exI [of _ g']) (auto simp: tick_once_def Let_def dest: less_trans)
  next
    case False
    obtain ts g' where IH: "tick_thread g rs = Inr (map UpdateMessage ts, g')"
        "sorted_wrt (<) (TIME g # ts)" "TIME g' = last (TIME g # ts)"
        "\<forall>r\<in>set rs. r - STARTTIME g \<le> TIME g'" "set ts \<subseteq> (\<lambda>r. r - STARTTIME g) ` set rs"
        "STARTTIME g' = STARTTIME g" "STARTTIME_REALTIME g' = STARTTIME_REALTIME g"
      using Cons.IH [of g] Cons.prems by auto
    have "TIME g \<le> TIME g'" using IH(2,3) by (cases ts rule: rev_cases) (auto simp: less_imp_le)
    with False have "?time \<le> TIME g'" by simp
    with IH False Cons.prems show ?thesis
      by (intro exI [of _ ts] exI [of _ g']) (auto simp: tick_once_def Let_def)
  qed
qed simp

lemma end_time_updates: "sorted_wrt (<) (t # ts) \<Longrightarrow> end_time (unat t) (map UpdateMessage ts) = unat (last (t # ts))"
proof (induction ts arbitrary: t)
  case (Cons u ts)
  then have "max (unat t) (unat u) = unat u" by (simp add: word_less_nat_alt)
  with Cons show ?case by simp
qed simp

section \<open>What the service guarantees\<close>

lemma timer_exact:
  assumes "\<forall>r\<in>set (requests_of 0 ms). fst r < 2 ^ 64"
  shows "\<exists>rs t'. timer_main ms = Inr (map snd rs, t') \<and>
    mset rs = {#r \<in># mset (requests_of 0 ms). fst r < end_time 0 ms#} \<and>
    wheel_due t' = {#r \<in># mset (requests_of 0 ms). end_time 0 ms \<le> fst r#} \<and>
    unat (timer_time t') = end_time 0 ms"
  using wheel.service_run_exact [OF wheel_inv_init(1), of ms] assms
  by (auto simp: timer_main_def wheel_inv_init wheel_due_def not_less now_of_def)

text \<open>C14
  Sleeping is exact. Whatever requests and time updates reach the timer process, if every
  deadline (the time of the last update before the request, plus the timeout) is below
  \<open>2 ^ 64\<close>, the process never fails; it has answered, once each, exactly the requests whose
  deadline lies before the latest update, and every other request is still pending.\<close>

theorem timer_main_exact:
  assumes "\<forall>r\<in>set (requests_of 0 ms). fst r < 2 ^ 64"
  shows "\<exists>rs t'. timer_main ms = Inr (map snd rs, t') \<and>
    mset rs = {#r \<in># mset (requests_of 0 ms). fst r < end_time 0 ms#} \<and>
    wheel_due t' = {#r \<in># mset (requests_of 0 ms). end_time 0 ms \<le> fst r#} \<and>
    unat (timer_time t') = end_time 0 ms"
  using assms by (rule timer_exact)

theorem timer_main_exact_witness:
  "\<exists>t'. timer_main [TimeoutRequest (process_t 1) (session_t 5) 20000, UpdateMessage 7,
        TimeoutRequest (process_t 2) (session_t 6) 100000, UpdateMessage 20001]
      = Inr ([(process_t 1, session_t 5)], t') \<and>
    wheel_due t' = {#(100007, (process_t 2, session_t 6))#}"
  using timer_main_exact [of "[TimeoutRequest (process_t 1) (session_t 5) 20000, UpdateMessage 7,
        TimeoutRequest (process_t 2) (session_t 6) 100000, UpdateMessage 20001]"]
  by auto

text \<open>The published time is monotonic whatever the clock does after the start: if no reading lies
  before the start, the thread never fails its assertion, the updates it sends are strictly
  increasing readings relative to the start, and afterwards \<^verbatim>\<open>now()\<close> is the greatest time read,
  \<^verbatim>\<open>real_time()\<close> is the start's real time plus it, and the time of a timer process that has
  handled the updates is the same.\<close>

theorem tick_thread_monotonic:
  assumes "\<forall>r\<in>set rs. start \<le> r"
  shows "\<exists>ts g. tick_thread (time_init start real) rs = Inr (map UpdateMessage ts, g) \<and>
    sorted_wrt (<) ts \<and> set ts \<subseteq> (\<lambda>r. r - start) ` set rs \<and>
    (\<forall>r\<in>set rs. r - start \<le> monotonic_now g) \<and>
    monotonic_real_time g = real + monotonic_now g \<and>
    end_time 0 (map UpdateMessage ts) = unat (monotonic_now g)"
proof -
  obtain ts g where "tick_thread (time_init start real) rs = Inr (map UpdateMessage ts, g)"
      "sorted_wrt (<) (0 # ts)" "TIME g = last (0 # ts)" "\<forall>r\<in>set rs. r - start \<le> TIME g"
      "set ts \<subseteq> (\<lambda>r. r - start) ` set rs" "STARTTIME_REALTIME g = real"
    using tick_thread_run [of rs "time_init start real"] assms by (auto simp: time_init_def)
  then show ?thesis
    using end_time_updates [of 0 ts]
    by (intro exI [of _ ts] exI [of _ g])
      (simp add: monotonic_now_def monotonic_real_time_def startup_time_def)
qed

theorem tick_thread_monotonic_witness:
  "\<exists>g. tick_thread (time_init 100 5000) [103, 102, 110] = Inr ([UpdateMessage 3, UpdateMessage 10], g) \<and>
    monotonic_now g = 10 \<and> monotonic_real_time g = 5010"
  using tick_thread_monotonic [of "[103, 102, 110]" 100 5000]
  by (auto simp: time_init_def tick_once_def monotonic_now_def monotonic_real_time_def startup_time_def)

end
