(* ===== verification/Sleep.thy ===== *)
theory Sleep
  imports Wakeup Timer_Service
begin

text \<open>
  Sleeping, from the call to the wake-up: \<^verbatim>\<open>time::sleep\<close> as a request to the timer process, the
  handlers of \<^verbatim>\<open>_main\<close> in \<^verbatim>\<open>src/time.cpp\<close> run by that process over the runtime, the responses
  of \<^verbatim>\<open>_send_list\<close>, and the messages of the time thread.
\<close>

section \<open>Messages and handlers of the timer process\<close>

text \<open>
  \<^verbatim>\<open>TimeoutRequest\<close> and \<^verbatim>\<open>UpdateMessage\<close> are values next to those of the application, with types
  of their own; each holds one number. The process stores which of the two lambdas a handler is.
\<close>

type_synonym 'a timed = "uint64 + 'a"

definition timeout_type :: nat where "timeout_type = 0"

definition update_type :: nat where "update_type = 1"

definition timeout_request :: "uint64 \<Rightarrow> 'a timed any" where
  "timeout_request msecs = AppValue timeout_type (Inl msecs)"

definition update_message :: "uint64 \<Rightarrow> 'a timed any" where
  "update_message timestamp = AppValue update_type (Inl timestamp)"

text \<open>The number in a value of the given type; \<open>None\<close> is the null pointer of \<^verbatim>\<open>SharedAny::Cast\<close>.\<close>

definition cast_timed :: "nat \<Rightarrow> 'a timed any \<Rightarrow> uint64 option" where
  "cast_timed type content =
     (case content of AppValue n (Inl u) \<Rightarrow> if n = type then Some u else None | _ \<Rightarrow> None)"

lemma cast_timed [simp]:
  "cast_timed timeout_type (timeout_request d) = Some d"
  "cast_timed update_type (update_message u) = Some u"
  by (simp_all add: cast_timed_def timeout_request_def update_message_def)

datatype timer_handler = OnTimeout | OnUpdate

definition timer_handlers :: "('v, 'l, 'i, timer_handler) process \<Rightarrow> ('v, 'l, 'i, timer_handler) process" where
  "timer_handlers q = message_callback (TypeApp update_type) OnUpdate (message_callback (TypeApp timeout_type) OnTimeout q)"

text \<open>\<^verbatim>\<open>_send\<close> for each timer that a tick has taken, by the coroutine \<open>co\<close> of the timer process.\<close>

fun send_wakeups :: "('l, 'v message) append_ops \<Rightarrow> addr \<Rightarrow> co \<Rightarrow> wakeup_call list \<Rightarrow>
    ('v, 'l, 'i, 'h) runtime \<Rightarrow> ('v, 'l, 'i, 'h) runtime option option" where
  "send_wakeups A running co [] s = Some (Some s)"
| "send_wakeups A running co ((pid, session) # calls) s =
     (case rt_response A (Some (running, co)) pid session EmptyAny s of
        None \<Rightarrow> None
      | Some None \<Rightarrow> Some None
      | Some (Some s1) \<Rightarrow> send_wakeups A running co calls s1)"

text \<open>
  The call of a handler; the local variable \<^verbatim>\<open>t\<close> that both lambdas capture is the wheel. \<open>Inl\<close> is a
  failed assertion, the inner \<open>None\<close> a null pointer or the use of a freed process.
\<close>

definition timer_call :: "('l, 'a timed message) append_ops \<Rightarrow> addr \<Rightarrow> co \<Rightarrow> timer_handler \<Rightarrow> 'a timed any \<Rightarrow>
    timer \<times> ('a timed, 'l, 'i, 'h) runtime \<Rightarrow> (timer_error + timer \<times> ('a timed, 'l, 'i, 'h) runtime) option option" where
  "timer_call A running co h content = (\<lambda>(t, s).
     (case h of
        OnTimeout \<Rightarrow>
          (case cast_timed timeout_type content of
             None \<Rightarrow> Some None
           | Some timeout \<Rightarrow>
               (case rt_message_info running co s of
                  None \<Rightarrow> Some None
                | Some (sender, session) \<Rightarrow>
                    Some (Some (case wheel_timeout t sender session timeout of Inl e \<Rightarrow> Inl e | Inr t1 \<Rightarrow> Inr (t1, s)))))
      | OnUpdate \<Rightarrow>
          (case cast_timed update_type content of
             None \<Rightarrow> Some None
           | Some timestamp \<Rightarrow>
               (case wheel_update t timestamp of
                  Inl e \<Rightarrow> Some (Some (Inl e))
                | Inr (calls, t1) \<Rightarrow> map_option (map_option (\<lambda>s1. Inr (t1, s1))) (send_wakeups A running co calls s)))))"

text \<open>One message of the inbox of the timer process, as \<^verbatim>\<open>serve\<close> handles it.\<close>

definition timer_round :: "('l, 'a timed message) append_ops \<Rightarrow> addr \<Rightarrow> co \<Rightarrow> co \<Rightarrow>
    timer \<times> ('a timed, 'l, 'i, timer_handler) runtime \<Rightarrow>
    (timer_error + timer \<times> ('a timed, 'l, 'i, timer_handler) runtime) option option" where
  "timer_round A running co fresh = (\<lambda>(t, s).
     (case rt_procs s running of
        None \<Rightarrow> Some None
      | Some q \<Rightarrow>
          (case serve_take fresh co q of
             Normal (act, q1) \<Rightarrow>
               (let s1 = s\<lparr>rt_procs := (rt_procs s)(running \<mapsto> q1)\<rparr>
                in case act of
                     Called h content \<Rightarrow> timer_call A running co h content (t, s1)
                   | _ \<Rightarrow> Some (Some (Inr (t, s1))))
           | _ \<Rightarrow> Some None)))"

section \<open>The calls of others\<close>

text \<open>\<^verbatim>\<open>sleep\<close> up to the switch; \<open>request_end\<close> is what follows it. \<open>service\<close> is \<^verbatim>\<open>TIMER_SERVICE\<close>.\<close>

definition sleep_begin :: "('l, 'a timed message) append_ops \<Rightarrow> 'i alloc_ops \<Rightarrow> process_t \<Rightarrow> thread \<Rightarrow> uint64 \<Rightarrow>
    ('a timed, 'l, 'i, 'h) runtime \<Rightarrow> ((exn + session_t \<times> addr) \<times> ('a timed, 'l, 'i, 'h) runtime) option" where
  "sleep_begin A I service cur msecs s = request_begin A I cur service (timeout_request msecs) s"

text \<open>One round of the time thread, which runs outside of any process.\<close>

definition tick_round :: "('l, 'a timed message) append_ops \<Rightarrow> process_t \<Rightarrow> uint64 \<Rightarrow>
    time_globals \<times> ('a timed, 'l, 'i, 'h) runtime \<Rightarrow>
    (clock_error + time_globals \<times> ('a timed, 'l, 'i, 'h) runtime) option option" where
  "tick_round A service now = (\<lambda>(g, s).
     (case tick_once g now of
        Inl e \<Rightarrow> Some (Some (Inl e))
      | Inr ([], g1) \<Rightarrow> Some (Some (Inr (g1, s)))
      | Inr (_, g1) \<Rightarrow> map_option (map_option (\<lambda>s1. Inr (g1, s1)))
          (rt_send A None service (session_t 0) (update_message (TIME g1)) s)))"

section \<open>The wake-ups are sent\<close>

lemma send_wakeups_frame:
  fixes s :: "('v, 'l, 'i, 'h) runtime"
  assumes A: "append_list A (\<lambda>_ _. True) rep"
  shows "mid_turn rep running co H s \<Longrightarrow> rt_procs s running = Some q \<Longrightarrow>
    \<exists>t qr. send_wakeups A running co calls s = Some (Some t) \<and> mid_turn rep running co H t \<and>
      rt_procs t running = Some qr \<and> p_pid qr = p_pid q \<and> p_inbox qr = p_inbox q \<and>
      set (p_requests qr) = set (p_requests q) - set calls \<and> rg_map (rt_reg t) = rg_map (rt_reg s) \<and>
      (\<forall>p. p \<noteq> running \<longrightarrow> rel_option (receives rep (answers (p_pid q) (rt_reg s) p calls)) (rt_procs s p) (rt_procs t p))"
proof (induction calls arbitrary: s q)
  case Nil
  then show ?case by (auto simp: answers_def receives_none intro: option.rel_refl)
next
  case (Cons c calls)
  obtain pid session where c: "c = (pid, session)" by fastforce
  from response_frame [OF A Cons.prems, of pid session EmptyAny] obtain s1 q1 where
    s1: "rt_response A (Some (running, co)) pid session EmptyAny s = Some (Some s1)" "mid_turn rep running co H s1"
      "rt_procs s1 running = Some q1" "p_pid q1 = p_pid q" "p_inbox q1 = p_inbox q"
      "p_requests q1 = removeAll (pid, session) (p_requests q)" "rg_map (rt_reg s1) = rg_map (rt_reg s)"
    and others: "\<forall>p. p \<noteq> running \<longrightarrow> rt_procs s1 p = (if rg_map (rt_reg s) (pid_value pid) = Some p
      then map_option (pushed A (message_create (p_pid q) (sessionForResponse session) EmptyAny)) (rt_procs s p)
      else rt_procs s p)" by metis
  from Cons.IH [OF s1(2,3)] obtain t qr where
    t: "send_wakeups A running co calls s1 = Some (Some t)" "mid_turn rep running co H t"
      "rt_procs t running = Some qr" "p_pid qr = p_pid q1" "p_inbox qr = p_inbox q1"
      "set (p_requests qr) = set (p_requests q1) - set calls" "rg_map (rt_reg t) = rg_map (rt_reg s1)"
    and rest: "\<forall>p. p \<noteq> running \<longrightarrow> rel_option (receives rep (answers (p_pid q1) (rt_reg s1) p calls)) (rt_procs s1 p) (rt_procs t p)"
    by metis
  have "rel_option (receives rep (answers (p_pid q) (rt_reg s) p (c # calls))) (rt_procs s p) (rt_procs t p)"
    if "p \<noteq> running" for p
    using receives_answer [OF A, of s1 p s pid "p_pid q" session calls t] others rest that s1(4,7) c by simp
  moreover have "set (p_requests qr) = set (p_requests q) - set (c # calls)" using t(6) s1(6) c by auto
  ultimately show ?case using s1 t c by auto
qed

section \<open>Sleeping\<close>

lemma timer_starts: "wheel_due timer_init = {#}" "now_of timer_init = 0"
  by (simp add: wheel_due_def wheel_inv_init, simp add: now_of_def timer_init_def)

text \<open>The time thread: a clock that has moved is published and sent to the timer process, behind what is in its mailbox.\<close>

lemma tick_round_sends:
  fixes s :: "('a timed, 'l, 'i, 'h) runtime"
  assumes "append_list A (\<lambda>_ _. True) rep" "reach rt_init (rt_step A I) (s, H)"
    and "rg_map (rt_reg s) (pid_value service) = Some p" "STARTTIME g \<le> now" "TIME g < now - STARTTIME g"
  shows "\<exists>q s'. tick_round A service now (g, s) = Some (Some (Inr (g\<lparr>TIME := now - STARTTIME g\<rparr>, s'))) \<and>
    rt_procs s p = Some q \<and>
    rt_procs s' = (rt_procs s)(p \<mapsto> pushed A (message_create (process_t 0) (session_t 0) (update_message (now - STARTTIME g))) q)"
  using send_delivers [OF assms(1,2), where pid = service and cur = None and session = "session_t 0" and
    content = "update_message (now - STARTTIME g)"] assms(3-5)
  by (auto simp: tick_round_def tick_once_def Let_def rt_self_def pushed_def)

text \<open>
  A request to sleep is scheduled. When the timer process serves the request that \<^verbatim>\<open>sleep(d)\<close> of
  some coroutine has sent, and its deadline does not pass \<open>2 ^ 64\<close>, the wheel gains exactly one timer: for
  the time of the wheel plus \<open>d\<close>, with the process and the session of the caller; nothing is
  answered, and the request stays open.\<close>

theorem sleep_scheduled:
  fixes s :: "('a timed, 'l, 'i, timer_handler) runtime"
  assumes "append_list A (\<lambda>_ _. True) rep" "mid_turn rep running co H s" "rt_procs s running = Some q"
    and "p_handlers q = p_handlers (timer_handlers q0)"
    and "p_inbox q = message_create source session (timeout_request d) # inbox"
    and "wheel_inv t" "now_of t + unat d < 2 ^ 64"
  shows "\<exists>t' s' q'. timer_round A running co fresh (t, s) = Some (Some (Inr (t', s'))) \<and>
    wheel_inv t' \<and> now_of t' = now_of t \<and> wheel_due t' = wheel_due t + {#(now_of t + unat d, (source, session))#} \<and>
    mid_turn rep running co H s' \<and> rt_procs s' = (rt_procs s)(running \<mapsto> q') \<and> p_inbox q' = inbox \<and>
    p_requests q' = p_requests q"
proof -
  have wf: "wf_owned {#co#} q" using mid_turn_process [OF assms(2)] assms(3) by auto
  then obtain c where c: "p_cos q co = Some c" using wf_allocated [OF wf, of co] by auto
  let ?q = "q\<lparr>p_inbox := inbox, p_cos := (p_cos q)(co \<mapsto> set_message_info source session c)\<rparr>"
  let ?s = "s\<lparr>rt_procs := (rt_procs s)(running \<mapsto> ?q)\<rparr>"
  have "serve_take fresh co q = Normal (Called OnTimeout (timeout_request d), ?q)"
    using assms(4,5) c by (simp add: serve_take_def Let_def message_create_def timeout_request_def timer_handlers_def
      message_callback_def update_conv' timeout_type_def update_type_def)
  then have r: "timer_round A running co fresh (t, s) = timer_call A running co OnTimeout (timeout_request d) (t, ?s)"
    using assms(3) by (simp add: timer_round_def Let_def)
  obtain t' where t': "wheel_timeout t source session d = Inr t'" "wheel_inv t'" "now_of t' = now_of t"
    "wheel_due t' = wheel_due t + {#(now_of t + unat d, (source, session))#}"
    using wheel.start_adds [OF assms(6,7)] by blast
  have "rt_message_info running co ?s = Some (source, session)" by (simp add: rt_message_info_def set_message_info_def)
  with t'(1) have "timer_round A running co fresh (t, s) = Some (Some (Inr (t', ?s)))"
    by (simp add: r timer_call_def)
  moreover have "wf_owned {#co#} (q\<lparr>p_inbox := inbox\<rparr>)" using same_tables_wf [OF same_tables_ops(8) wf] .
  then have "wf_owned {#co#} ?q" using wf_heap [of "{#co#}" "q\<lparr>p_inbox := inbox\<rparr>" co] c by simp
  then have "mid_turn rep running co H ?s" by (intro mid_turn_same [OF assms(2,3)]) simp_all
  ultimately show ?thesis using t'(2-4) by (intro exI [of _ t'] exI [of _ ?s] exI [of _ ?q]) simp
qed

theorem sleep_scheduled_witness:
  "\<exists>(s :: (nat timed, nat timed message list, nat, timer_handler) runtime) t' s'.
    timer_round queue_ops 7 3 5 (timer_init, s) = Some (Some (Inr (t', s'))) \<and>
    wheel_due t' = {#(50, (process_t 9, session_t 4))#}"
proof -
  from first_mid_turn obtain s0 :: "(nat timed, nat timed message list, nat, timer_handler) runtime" and q0 where
    s0: "mid_turn (\<lambda>l ms. l = ms) 7 3 {#} s0" "rt_procs s0 7 = Some q0" by blast
  let ?msg = "message_create (process_t 9) (session_t 4) (timeout_request 50) :: nat timed message"
  let ?q = "inbox_push ?msg (timer_handlers (q0\<lparr>p_inbox := []\<rparr>))"
  let ?s = "s0\<lparr>rt_procs := (rt_procs s0)(7 \<mapsto> ?q)\<rparr>"
  have "wf_owned {#3#} q0" using mid_turn_process [OF s0(1)] s0(2) by auto
  then have wf: "wf_owned {#3#} ?q"
    by (rule same_tables_wf [rotated]) (simp add: same_tables_def inbox_push_def timer_handlers_def message_callback_def)
  have m: "mid_turn (\<lambda>l ms. l = ms) 7 3 {#} ?s"
    by (rule mid_turn_same [OF s0 _ _ wf]) (simp_all add: same_mail timer_handlers_def)
  have q: "rt_procs ?s 7 = Some ?q" "p_handlers ?q = p_handlers (timer_handlers (q0\<lparr>p_inbox := []\<rparr>))" "p_inbox ?q = ?msg # []"
    by (simp_all add: inbox_push_def timer_handlers_def message_callback_def)
  have t: "now_of timer_init + unat (50 :: uint64) < 2 ^ 64" by (simp add: timer_starts)
  from sleep_scheduled [OF queue_append_list m q wheel_inv_init(1) t, of 5] show ?thesis
    by (auto simp: timer_starts)
qed

text \<open>C16
  Sleepers are woken on time. When the timer process handles an update to time \<open>u\<close>, it sends exactly the
  timers whose deadline lies before the new time, in one order \<open>fired\<close>, and keeps the others; each
  process that is still registered finds in its mailbox, behind everything else, one empty response for each of
  its sessions among them and nothing more, and no longer waits if there is one; their requests
  are closed, the others are not; and the handler returns, whoever has died meanwhile.\<close>

theorem sleepers_woken:
  fixes s :: "('a timed, 'l, 'i, 'h) runtime"
  assumes "append_list A (\<lambda>_ _. True) rep" "mid_turn rep running co H s" "rt_procs s running = Some q" "wheel_inv t"
  shows "\<exists>fired t' s' qr. timer_call A running co OnUpdate (update_message u) (t, s) = Some (Some (Inr (t', s'))) \<and>
    wheel_inv t' \<and> now_of t' = max (now_of t) (unat u) \<and>
    mset fired = {#d \<in># wheel_due t. fst d < now_of t'#} \<and> wheel_due t' = {#d \<in># wheel_due t. \<not> fst d < now_of t'#} \<and>
    mid_turn rep running co H s' \<and> rt_procs s' running = Some qr \<and>
    set (p_requests qr) = set (p_requests q) - set (map snd fired) \<and>
    (\<forall>p. p \<noteq> running \<longrightarrow>
      rel_option (receives rep (answers (p_pid q) (rt_reg s) p (map snd fired))) (rt_procs s p) (rt_procs s' p))"
proof -
  obtain fired t' where t': "wheel_update t u = Inr (map snd fired, t')" "wheel_inv t'" "now_of t' = max (now_of t) (unat u)"
    "mset fired = {#d \<in># wheel_due t. fst d < now_of t'#}" "wheel_due t' = {#d \<in># wheel_due t. \<not> fst d < now_of t'#}"
    using wheel.advance_fires [OF assms(4)] by blast
  from send_wakeups_frame [OF assms(1-3), of "map snd fired"] obtain s' qr where
    s': "send_wakeups A running co (map snd fired) s = Some (Some s')" "mid_turn rep running co H s'"
      "rt_procs s' running = Some qr" "set (p_requests qr) = set (p_requests q) - set (map snd fired)"
      "\<forall>p. p \<noteq> running \<longrightarrow>
        rel_option (receives rep (answers (p_pid q) (rt_reg s) p (map snd fired))) (rt_procs s p) (rt_procs s' p)"
    by metis
  have "timer_call A running co OnUpdate (update_message u) (t, s) = Some (Some (Inr (t', s')))"
    using t'(1) s'(1) by (simp add: timer_call_def)
  with t'(2-5) s'(2-5) show ?thesis
    by (intro exI [of _ fired] exI [of _ t'] exI [of _ s'] exI [of _ qr]) simp
qed

theorem sleepers_woken_witness:
  "\<exists>(s :: (nat timed, nat timed message list, nat, timer_handler) runtime) t t' s' q8 q8'.
    wheel_due t = {#(50, (process_t 2, session_t 4))#} \<and> rt_procs s 8 = Some q8 \<and> mb_write (p_mailbox q8) = [] \<and>
    timer_call queue_ops 7 3 OnUpdate (update_message 60) (t, s) = Some (Some (Inr (t', s'))) \<and> wheel_due t' = {#} \<and>
    rt_procs s' 8 = Some q8' \<and> map msg_session (mb_write (p_mailbox q8')) = [session_t (- 4)]"
proof -
  from two_processes obtain s :: "(nat timed, nat timed message list, nat, timer_handler) runtime" and q q8 where
    s: "mid_turn (\<lambda>l ms. l = ms) 7 3 {#} s" "rt_procs s 7 = Some q" "rt_procs s 8 = Some q8" "mb_write (p_mailbox q8) = []"
      "rg_map (rt_reg s) = [1 \<mapsto> 7, 2 \<mapsto> 8]" by blast
  obtain t where t: "wheel_inv t" "now_of t = 0" "wheel_due t = {#(50, (process_t 2, session_t 4))#}"
    using wheel.start_adds [OF wheel_inv_init(1), of 50 "process_t 2" "session_t 4"]
    by (auto simp: timer_starts)
  from sleepers_woken [OF queue_append_list s(1,2) t(1), of 60] obtain fired t' s' where
    r: "timer_call queue_ops 7 3 OnUpdate (update_message 60) (t, s) = Some (Some (Inr (t', s')))"
      "mset fired = {#(50, (process_t 2, session_t 4))#}" "wheel_due t' = {#}"
      "rel_option (receives (\<lambda>l ms. l = ms) (answers (p_pid q) (rt_reg s) 8 (map snd fired))) (rt_procs s 8) (rt_procs s' 8)"
    using t(2,3) by auto
  then have "fired = [(50, (process_t 2, session_t 4))]" by simp
  with r(4) s(3-5) obtain q8' where "rt_procs s' 8 = Some q8'" "map msg_session (mb_write (p_mailbox q8')) = [session_t (- 4)]"
    by (auto simp: answers_def receives_def message_create_def sessionForResponse_def option_rel_Some1)
  with r(1,3) s(3,4) t(3) show ?thesis
    by (intro exI [of _ s] exI [of _ t] exI [of _ t'] exI [of _ s'] exI [of _ q8] exI [of _ q8']) simp
qed

end
