(* ===== verification/Process_Limits.thy ===== *)
theory Process_Limits
  imports Process_Props
begin

text \<open>
  Where the promises of \<^verbatim>\<open>class Process\<close> end: coroutines that keep an exit from ending, two servers in
  one process, a server woken by hand, and requests that nobody handles.
\<close>

section \<open>An exit that does not end\<close>

text \<open>Each of the two coroutines 3 and 4 wakes the other one and suspends itself, until it gets an exception.\<close>

definition ping_pong :: "co \<Rightarrow> ('v, 'l, 'i, 'h) process \<Rightarrow> ('v, 'l, 'i, 'h) process option" where
  "ping_pong co p =
     (case p_cos p co of
        None \<Rightarrow> None
      | Some c \<Rightarrow>
          if co_exception c = None then Some (proc_suspend co (proc_wakeup (7 - co) p))
          else Some (p\<lparr>p_cos := (p_cos p)(co := Some (run_finish (co_exception c) c))\<rparr>))"

lemma honest_ping_pong:
  fixes A :: "('l, 'v message) append_ops" and I :: "'i alloc_ops"
  shows "honest A I (ping_pong :: co \<Rightarrow> ('v, 'l, 'i, 'h) process \<Rightarrow> ('v, 'l, 'i, 'h) process option)"
  unfolding honest_def
proof (intro allI impI)
  fix co and p p' :: "('v, 'l, 'i, 'h) process"
  assume "p_cos p co \<noteq> None" "ping_pong co p = Some p'"
  then obtain c where c: "p_cos p co = Some c" and p': "p' = (if co_exception c = None then proc_suspend co (proc_wakeup (7 - co) p)
      else p\<lparr>p_cos := (p_cos p)(co := Some (run_finish (co_exception c) c))\<rparr>)"
    by (auto simp: ping_pong_def split: if_splits)
  show "segment A I co p p'"
  proof (cases "co_exception c = None")
    case True
    have "may_wait co (proc_wakeup (7 - co) p)" using c True by (simp add: may_wait_def proc_wakeup_def)
    then have "switch_back A I co (proc_wakeup (7 - co) p) p'" using p' True by (simp add: by_suspend)
    moreover have "(api A I co)\<^sup>*\<^sup>* p (proc_wakeup (7 - co) p)" by (rule r_into_rtranclp) (rule api_wakeup)
    ultimately show ?thesis by (auto simp: segment_def)
  next
    case False
    with p' by_finish [OF c, of A I "co_exception c"] show ?thesis by (auto simp: segment_def)
  qed
qed

lemma unwinds_ping_pong: "unwinds ping_pong"
  by (auto simp: unwinds_def exc_of_def ping_pong_def split: option.splits)

definition playing :: "('v, 'l, 'i, 'h) process \<Rightarrow> bool" where
  "playing p \<longleftrightarrow> (\<exists>x \<in> {3, 4}. p_wakeup p = [x] \<and> p_suspend p = [7 - x]) \<and> exc_of p 3 = None \<and> exc_of p 4 = None \<and>
     p_cos p 3 \<noteq> None \<and> p_cos p 4 \<noteq> None"

lemma ping_pong_turn:
  assumes "playing p"
  shows "\<exists>co q. p_wakeup p = [co] \<and> resume_co ping_pong exiting co (p\<lparr>p_wakeup := []\<rparr>) = Some (Normal q) \<and> playing q"
  using assms unfolding playing_def
  by (auto simp: resume_co_def ping_pong_def proc_suspend_def proc_wakeup_def get_result_def exc_of_def Let_def split: option.splits)

lemma ping_pong_drain:
  fixes p :: "('v, 'l, 'i, 'h) process"
  assumes play: "playing p"
  shows "drain_wakeup ping_pong exiting p = None"
proof (rule ccontr)
  assume "drain_wakeup ping_pong exiting p \<noteq> None"
  then obtain r where r: "drain_wakeup ping_pong exiting p = Some r" by blast
  have "(ping_pong :: co \<Rightarrow> ('v, 'l, 'i, 'h) process \<Rightarrow> ('v, 'l, 'i, 'h) process option) = ping_pong \<longrightarrow> \<not> playing p"
  proof (rule drain_wakeup.raw_induct [OF _ r, where P = "\<lambda>seg exiting p r. seg = ping_pong \<longrightarrow> \<not> playing p"], intro impI)
    fix rec seg exiting p r
    assume IH: "\<And>seg exiting p r. rec seg exiting p = Some r \<Longrightarrow> seg = ping_pong \<longrightarrow> \<not> playing p"
      and run: "(case p_wakeup p of [] \<Rightarrow> Some (Normal p)
        | co # cos \<Rightarrow> (case resume_co seg exiting co (p\<lparr>p_wakeup := cos\<rparr>) of None \<Rightarrow> None
            | Some r \<Rightarrow> (case r of Normal q \<Rightarrow> rec seg exiting q | ExitThrown q \<Rightarrow> Some (ExitThrown q) | UseAfterFree \<Rightarrow> Some UseAfterFree))) = Some r"
      and seg: "seg = ping_pong"
    show "\<not> playing p"
    proof
      assume "playing p"
      from ping_pong_turn [OF this, of exiting] obtain co q where
        q: "p_wakeup p = [co]" "resume_co ping_pong exiting co (p\<lparr>p_wakeup := []\<rparr>) = Some (Normal q)" "playing q" by blast
      with run seg have "rec seg exiting q = Some r" by simp
      from IH [OF this] seg q(3) show False by simp
    qed
  qed
  with play show False by simp
qed

text \<open>
  Two coroutines that are ready when \<^verbatim>\<open>exit\<close> begins and then keep waking one another are never
  interrupted: the process is sound, its coroutines only use what the library offers, and each finishes
  once it gets an exception, yet the exit never ends.
\<close>

definition both_ready :: "('v, 'l, 'i, 'h) process \<Rightarrow> ('v, 'l, 'i, 'h) process" where
  "both_ready p = p\<lparr>p_spawn := [], p_wakeup := [3, 4], p_zombie := [], p_suspend := [], p_block := [],
     p_cos := [3 \<mapsto> coroutine_new, 4 \<mapsto> coroutine_new]\<rparr>"

theorem exit_never_ends:
  fixes A :: "('l, 'v message) append_ops" and I :: "'i alloc_ops" and p :: "('v, 'l, 'i, 'h) process"
  shows "honest A I (ping_pong :: co \<Rightarrow> ('v, 'l, 'i, 'h) process \<Rightarrow> ('v, 'l, 'i, 'h) process option) \<and>
    unwinds (ping_pong :: co \<Rightarrow> ('v, 'l, 'i, 'h) process \<Rightarrow> ('v, 'l, 'i, 'h) process option) \<and>
    wf_owned {#} (both_ready p) \<and> proc_exit ping_pong (both_ready p) = None"
proof -
  let ?q = "(both_ready p)\<lparr>p_wakeup := [4], p_suspend := [3]\<rparr>"
  have wf: "wf_owned {#} (both_ready p)" by (auto simp: wf_owned_def owned_def both_ready_def)
  have "interrupt_waiting (both_ready p) = Normal (both_ready p)"
    by (simp add: interrupt_waiting_def interrupt_block_coroutines_def interrupt_suspend_coroutines_def both_ready_def)
  moreover have "resume_co ping_pong True 3 ((both_ready p)\<lparr>p_wakeup := [4]\<rparr>) = Some (Normal ?q)"
    by (simp add: resume_co_def ping_pong_def both_ready_def proc_wakeup_def proc_suspend_def get_result_def coroutine_new_def Let_def fun_upd_twist)
  moreover have "playing ?q" by (auto simp: playing_def both_ready_def exc_of_def coroutine_new_def)
  then have "drain_wakeup ping_pong True ?q = None" by (rule ping_pong_drain)
  moreover have "p_wakeup (both_ready p) = [3, 4]" by (simp add: both_ready_def)
  ultimately have "exit_loop ping_pong (both_ready p) = None"
    by (simp add: exit_loop.simps [of ping_pong "both_ready p"] drain_wakeup.simps [of ping_pong True "both_ready p"])
  then have "proc_exit ping_pong (both_ready p) = None" by (simp add: proc_exit_def)
  then show ?thesis by (intro conjI honest_ping_pong unwinds_ping_pong wf)
qed

section \<open>Servers\<close>

text \<open>
  Of two coroutines that wait in \<^verbatim>\<open>serve\<close> only the second is remembered: a message wakes that one, and the
  first stays suspended with nobody to wake it. One that is woken by hand takes from an empty deque.
\<close>

theorem second_server_displaces:
  assumes "serve_enter first p = (True, p1)" "serve_enter second p1 = (True, p2)" "first \<noteq> second"
  shows "p_wakeup (wake_inbox (inbox_push msg p2)) = p_wakeup p @ [second] \<and>
    first \<in> set (p_suspend (wake_inbox (inbox_push msg p2))) \<and> p_inbox_coroutine (wake_inbox (inbox_push msg p2)) = None \<and>
    serve_take fresh first (proc_wakeup first p1) = UseAfterFree"
  using assms by (auto simp: serve_enter_def wake_inbox_def inbox_push_def serve_request_def proc_suspend_def proc_wakeup_def
    serve_take_def split: if_splits)

text \<open>A request whose type has no handler is taken from the inbox and not answered: it stays among the open requests.\<close>

theorem unhandled_request_stays_open:
  assumes "p_inbox p = msg # inbox" "map_of (p_handlers p) (any_type (msg_content msg)) = None"
    and "(msg_source msg, msg_session msg) \<in> set (p_requests p)"
  shows "\<exists>q. serve_take fresh running p = Normal (Ignored, q) \<and> p_inbox q = inbox \<and>
    (msg_source msg, msg_session msg) \<in> set (p_requests q) \<and> p_mailbox q = p_mailbox p"
  using assms by (simp add: serve_take_def Let_def)

end
