(* ===== verification/Switch.thy ===== *)
theory Switch
  imports Process Registry
begin

text \<open>
  Switching between coroutines (\<^verbatim>\<open>class Coroutine\<close> and the scopes of \<^verbatim>\<open>src/process.cpp\<close>, and
  \<^verbatim>\<open>Context::transfer\<close> of \<^verbatim>\<open>src/context.cpp\<close>): which stack a thread executes on, what the
  thread-local variables say there, and where a saved context continues. A worker leaves a coroutine
  where it suspends, and another worker may continue it.
\<close>

section \<open>Threads and contexts\<close>

text \<open>
  The context of a thread (\<^verbatim>\<open>thread_context()\<close>) and the context of a coroutine. What a context holds
  when it is not executing is the point where it goes on; \<open>this\<close> is on its stack.
\<close>

datatype ctx = ThreadContext nat | CoContext co

datatype point =
    AtMain co     \<comment> \<open>\<^verbatim>\<open>makecontext\<close>: the entry of \<^verbatim>\<open>Coroutine::main\<close>\<close>
  | InYield co    \<comment> \<open>after the transfer in \<^verbatim>\<open>Coroutine::yield\<close>\<close>
  | AtEnd co      \<comment> \<open>after the transfer at the end of \<^verbatim>\<open>Coroutine::main\<close>\<close>
  | InResume      \<comment> \<open>after the transfer in \<^verbatim>\<open>Coroutine::resume\<close>\<close>

record switch_state =
  tl_process :: "nat \<Rightarrow> addr option"
  tl_coroutine :: "nat \<Rightarrow> co option"
  on_stack :: "nat \<Rightarrow> ctx"
  saved :: "ctx \<Rightarrow> point option"

datatype switch_error =
    AssertScope       \<comment> \<open>\<^verbatim>\<open>assert(current() == nullptr)\<close>\<close>
  | AssertCurrent     \<comment> \<open>the running coroutine is not the one of the stack\<close>
  | NotSaved          \<comment> \<open>a switch to a context that is running, freed or was never filled\<close>
  | WrongContext      \<comment> \<open>the registers would be saved to a context that is not the running one\<close>
  | FellOffMain       \<comment> \<open>\<^verbatim>\<open>main\<close> returns, without a \<^verbatim>\<open>uc_link\<close>\<close>
  | NullCoroutine

section \<open>Operations\<close>

definition scope_enter :: "nat \<Rightarrow> addr \<Rightarrow> ('z) switch_state_scheme \<Rightarrow> switch_error + 'z switch_state_scheme" where
  "scope_enter td p s = (if tl_process s td \<noteq> None then Inl AssertScope else Inr (s\<lparr>tl_process := (tl_process s)(td \<mapsto> p)\<rparr>))"

definition scope_leave :: "nat \<Rightarrow> 'z switch_state_scheme \<Rightarrow> 'z switch_state_scheme" where
  "scope_leave td s = s\<lparr>tl_process := (tl_process s)(td := None)\<rparr>"

definition set_running :: "nat \<Rightarrow> co option \<Rightarrow> 'z switch_state_scheme \<Rightarrow> 'z switch_state_scheme" where
  "set_running td co s = s\<lparr>tl_coroutine := (tl_coroutine s)(td := co)\<rparr>"

text \<open>What the thread does where the context goes on: the assertions, or the end of the scope in \<^verbatim>\<open>resume\<close>.\<close>

definition continue_at :: "nat \<Rightarrow> point \<Rightarrow> 'z switch_state_scheme \<Rightarrow> switch_error + 'z switch_state_scheme" where
  "continue_at td pt s =
     (case pt of
        AtMain this \<Rightarrow> if tl_coroutine s td = Some this then Inr s else Inl AssertCurrent
      | InYield this \<Rightarrow> if tl_coroutine s td = Some this then Inr s else Inl AssertCurrent
      | AtEnd this \<Rightarrow> Inl FellOffMain
      | InResume \<Rightarrow> Inr (set_running td None s))"

text \<open>\<^verbatim>\<open>swapcontext\<close>: saves the registers to \<open>current\<close> and loads those of \<open>to\<close>.\<close>

definition transfer :: "nat \<Rightarrow> point \<Rightarrow> ctx \<Rightarrow> ctx \<Rightarrow> 'z switch_state_scheme \<Rightarrow> switch_error + 'z switch_state_scheme" where
  "transfer td here current to s =
     (if on_stack s td \<noteq> current then Inl WrongContext
      else case saved s to of
             None \<Rightarrow> Inl NotSaved
           | Some pt \<Rightarrow> continue_at td pt
               (s\<lparr>saved := (saved s)(current \<mapsto> here, to := None), on_stack := (on_stack s)(td := to)\<rparr>))"

definition coroutine_create :: "co \<Rightarrow> 'z switch_state_scheme \<Rightarrow> 'z switch_state_scheme" where
  "coroutine_create co s = s\<lparr>saved := (saved s)(CoContext co \<mapsto> AtMain co)\<rparr>"

definition coroutine_destroy :: "co \<Rightarrow> 'z switch_state_scheme \<Rightarrow> 'z switch_state_scheme" where
  "coroutine_destroy co s = s\<lparr>saved := (saved s)(CoContext co := None)\<rparr>"

definition coroutine_resume :: "nat \<Rightarrow> co \<Rightarrow> 'z switch_state_scheme \<Rightarrow> switch_error + 'z switch_state_scheme" where
  "coroutine_resume td this s = transfer td InResume (ThreadContext td) (CoContext this) (set_running td (Some this) s)"

text \<open>Up to the transfer; \<open>continue_at\<close> is the rest, on the thread that resumes it.\<close>

definition coroutine_yield :: "nat \<Rightarrow> co \<Rightarrow> 'z switch_state_scheme \<Rightarrow> switch_error + 'z switch_state_scheme" where
  "coroutine_yield td this s = transfer td (InYield this) (CoContext this) (ThreadContext td) s"

text \<open>The waiting functions of a process yield the running coroutine.\<close>

definition yield_current :: "nat \<Rightarrow> 'z switch_state_scheme \<Rightarrow> switch_error + 'z switch_state_scheme" where
  "yield_current td s = (case tl_coroutine s td of None \<Rightarrow> Inl NullCoroutine | Some running \<Rightarrow> coroutine_yield td running s)"

text \<open>The end of \<^verbatim>\<open>Coroutine::main\<close>, after \<^verbatim>\<open>run\<close>.\<close>

definition main_end :: "nat \<Rightarrow> co \<Rightarrow> 'z switch_state_scheme \<Rightarrow> switch_error + 'z switch_state_scheme" where
  "main_end td this s =
     (if tl_coroutine s td \<noteq> Some this then Inl AssertCurrent
      else transfer td (AtEnd this) (CoContext this) (ThreadContext td) s)"

section \<open>Threads that run processes\<close>

text \<open>
  \<open>sw_owner\<close> is the process whose tables a coroutine is in, \<open>sw_done\<close> the coroutines whose function has
  returned or thrown. What the steps require is what the other theories provide: a process is run by one
  worker at a time (\<open>Mailbox\<close>), a worker begins a turn outside of any other, and a process resumes and
  destroys its own coroutines from the stack of the worker, and resumes none that has finished
  (\<open>Process_Safety\<close>).
\<close>

record switch_sys = switch_state +
  sw_owner :: "co \<Rightarrow> addr option"
  sw_done :: "co set"

definition switch_start :: switch_sys where
  "switch_start = \<lparr>tl_process = (\<lambda>_. None), tl_coroutine = (\<lambda>_. None), on_stack = ThreadContext, saved = (\<lambda>_. None),
     sw_owner = (\<lambda>_. None), sw_done = {}\<rparr>"

inductive switch_step :: "switch_sys \<Rightarrow> switch_sys \<Rightarrow> bool" where
  sw_turn: "on_stack s td = ThreadContext td \<Longrightarrow> tl_process s td = None \<Longrightarrow> \<forall>td'. tl_process s td' \<noteq> Some p \<Longrightarrow>
    scope_enter td p s = Inr t \<Longrightarrow> switch_step s t"
| sw_turn_end: "on_stack s td = ThreadContext td \<Longrightarrow> tl_process s td \<noteq> None \<Longrightarrow> switch_step s (scope_leave td s)"
| sw_create: "sw_owner s co = None \<Longrightarrow> switch_step s (coroutine_create co s\<lparr>sw_owner := (sw_owner s)(co \<mapsto> p)\<rparr>)"
| sw_resume: "on_stack s td = ThreadContext td \<Longrightarrow> tl_process s td = Some p \<Longrightarrow> sw_owner s co = Some p \<Longrightarrow> co \<notin> sw_done s \<Longrightarrow>
    coroutine_resume td co s = Inr t \<Longrightarrow> switch_step s t"
| sw_yield: "on_stack s td = CoContext co \<Longrightarrow> yield_current td s = Inr t \<Longrightarrow> switch_step s t"
| sw_end: "on_stack s td = CoContext co \<Longrightarrow> main_end td co s = Inr t \<Longrightarrow> switch_step s (t\<lparr>sw_done := insert co (sw_done t)\<rparr>)"
| sw_destroy: "on_stack s td = ThreadContext td \<Longrightarrow> tl_process s td = Some p \<Longrightarrow> sw_owner s co = Some p \<Longrightarrow>
    switch_step s (coroutine_destroy co s\<lparr>sw_owner := (sw_owner s)(co := None), sw_done := sw_done s - {co}\<rparr>)"

section \<open>The invariant\<close>

definition switch_inv :: "switch_sys \<Rightarrow> bool" where
  "switch_inv s \<longleftrightarrow>
     (\<forall>td. case on_stack s td of
        ThreadContext td' \<Rightarrow> td' = td \<and> tl_coroutine s td = None
      | CoContext co \<Rightarrow> tl_coroutine s td = Some co \<and> tl_process s td \<noteq> None \<and> sw_owner s co = tl_process s td \<and>
          co \<notin> sw_done s \<and> saved s (ThreadContext td) = Some InResume) \<and>
     (\<forall>td td' p. tl_process s td = Some p \<longrightarrow> tl_process s td' = Some p \<longrightarrow> td = td') \<and>
     (\<forall>co. sw_owner s co \<noteq> None \<and> co \<notin> sw_done s \<and> (\<forall>td. on_stack s td \<noteq> CoContext co) \<longrightarrow>
        saved s (CoContext co) = Some (AtMain co) \<or> saved s (CoContext co) = Some (InYield co))"

lemma switch_invI:
  assumes "\<And>td td'. on_stack s td = ThreadContext td' \<Longrightarrow> td' = td \<and> tl_coroutine s td = None"
    and "\<And>td co. on_stack s td = CoContext co \<Longrightarrow> tl_coroutine s td = Some co \<and> tl_process s td \<noteq> None \<and>
      sw_owner s co = tl_process s td \<and> co \<notin> sw_done s \<and> saved s (ThreadContext td) = Some InResume"
    and "\<And>td td' p. tl_process s td = Some p \<Longrightarrow> tl_process s td' = Some p \<Longrightarrow> td = td'"
    and "\<And>co. sw_owner s co \<noteq> None \<Longrightarrow> co \<notin> sw_done s \<Longrightarrow> \<forall>td. on_stack s td \<noteq> CoContext co \<Longrightarrow>
      saved s (CoContext co) = Some (AtMain co) \<or> saved s (CoContext co) = Some (InYield co)"
  shows "switch_inv s"
  unfolding switch_inv_def using assms by (auto split: ctx.split)

lemma switch_invD:
  assumes "switch_inv s"
  shows "on_stack s td = ThreadContext td' \<Longrightarrow> td' = td \<and> tl_coroutine s td = None"
    and "on_stack s td = CoContext co \<Longrightarrow> tl_coroutine s td = Some co \<and> tl_process s td \<noteq> None \<and>
      sw_owner s co = tl_process s td \<and> co \<notin> sw_done s \<and> saved s (ThreadContext td) = Some InResume"
    and "tl_process s td = Some p \<Longrightarrow> tl_process s td' = Some p \<Longrightarrow> td = td'"
    and "sw_owner s co \<noteq> None \<Longrightarrow> co \<notin> sw_done s \<Longrightarrow> \<forall>td. on_stack s td \<noteq> CoContext co \<Longrightarrow>
      saved s (CoContext co) = Some (AtMain co) \<or> saved s (CoContext co) = Some (InYield co)"
proof -
  have stack: "case on_stack s td of
        ThreadContext td' \<Rightarrow> td' = td \<and> tl_coroutine s td = None
      | CoContext co \<Rightarrow> tl_coroutine s td = Some co \<and> tl_process s td \<noteq> None \<and> sw_owner s co = tl_process s td \<and>
          co \<notin> sw_done s \<and> saved s (ThreadContext td) = Some InResume"
    using assms unfolding switch_inv_def by blast
  show "on_stack s td = ThreadContext td' \<Longrightarrow> td' = td \<and> tl_coroutine s td = None" using stack by simp
  show "on_stack s td = CoContext co \<Longrightarrow> tl_coroutine s td = Some co \<and> tl_process s td \<noteq> None \<and>
      sw_owner s co = tl_process s td \<and> co \<notin> sw_done s \<and> saved s (ThreadContext td) = Some InResume" using stack by simp
  show "tl_process s td = Some p \<Longrightarrow> tl_process s td' = Some p \<Longrightarrow> td = td'"
    using assms unfolding switch_inv_def by blast
  show "sw_owner s co \<noteq> None \<Longrightarrow> co \<notin> sw_done s \<Longrightarrow> \<forall>td. on_stack s td \<noteq> CoContext co \<Longrightarrow>
      saved s (CoContext co) = Some (AtMain co) \<or> saved s (CoContext co) = Some (InYield co)"
    using assms unfolding switch_inv_def by blast
qed

text \<open>A coroutine of a process that a thread runs on its own stack is executing nowhere.\<close>

lemma not_running:
  assumes "switch_inv s" "on_stack s td = ThreadContext td" "tl_process s td = Some p" "sw_owner s co = Some p"
  shows "on_stack s td' \<noteq> CoContext co"
proof
  assume *: "on_stack s td' = CoContext co"
  from switch_invD(2) [OF assms(1) *] assms(4) have "tl_process s td' = Some p" by auto
  with switch_invD(3) [OF assms(1,3)] have "td = td'" by blast
  with * assms(2) show False by simp
qed

lemma resume_inv:
  assumes inv: "switch_inv s" and g: "on_stack s td = ThreadContext td" "tl_process s td = Some p"
    "sw_owner s co = Some p" "co \<notin> sw_done s"
  shows "\<exists>t. coroutine_resume td co s = Inr t \<and> switch_inv t \<and> on_stack t = (on_stack s)(td := CoContext co) \<and>
    tl_process t = tl_process s"
proof -
  note nr = not_running [OF inv g(1-3)]
  let ?t = "s\<lparr>tl_coroutine := (tl_coroutine s)(td \<mapsto> co), on_stack := (on_stack s)(td := CoContext co),
    saved := (saved s)(ThreadContext td \<mapsto> InResume, CoContext co := None)\<rparr>"
  have "saved s (CoContext co) = Some (AtMain co) \<or> saved s (CoContext co) = Some (InYield co)"
    using switch_invD(4) [OF inv] g(3,4) nr by simp
  then have "coroutine_resume td co s = Inr ?t"
    using g(1) by (auto simp: coroutine_resume_def transfer_def set_running_def continue_at_def)
  moreover have "switch_inv ?t"
  proof (rule switch_invI, goal_cases)
    case (1 a b)
    then show ?case using switch_invD(1) [OF inv, of a b] by (simp split: if_splits)
  next
    case (2 a c)
    then show ?case using switch_invD(2) [OF inv, of a c] g(2-4) by (auto split: if_splits)
  next
    case (3 a b q)
    then show ?case using switch_invD(3) [OF inv, of a q b] by simp
  next
    case (4 c)
    have off: "on_stack s a \<noteq> CoContext c" and c: "c \<noteq> co" for a
      using 4(3) [rule_format, of a] 4(3) [rule_format, of td] g(1) by (auto split: if_splits)
    then have "\<forall>a. on_stack s a \<noteq> CoContext c" by blast
    with switch_invD(4) [OF inv, of c] 4(1,2) c show ?case by simp
  qed
  ultimately show ?thesis by (intro exI [of _ ?t]) simp
qed

lemma leave_inv:
  assumes inv: "switch_inv s" and on: "on_stack s td = CoContext co"
  shows "\<exists>t. coroutine_yield td co s = Inr t \<and> yield_current td s = Inr t \<and> switch_inv t \<and>
      on_stack t = (on_stack s)(td := ThreadContext td) \<and> tl_coroutine t = (tl_coroutine s)(td := None)"
    and "\<exists>t. main_end td co s = Inr t \<and> switch_inv (t\<lparr>sw_done := insert co (sw_done t)\<rparr>) \<and>
      on_stack t = (on_stack s)(td := ThreadContext td) \<and> tl_coroutine t = (tl_coroutine s)(td := None)"
proof -
  note here = switch_invD(2) [OF inv on]
  let ?t = "\<lambda>pt. s\<lparr>tl_coroutine := (tl_coroutine s)(td := None), on_stack := (on_stack s)(td := ThreadContext td),
    saved := (saved s)(CoContext co \<mapsto> pt, ThreadContext td := None)\<rparr>"
  have t: "transfer td pt (CoContext co) (ThreadContext td) s = Inr (?t pt)" for pt
    using on here by (simp add: transfer_def continue_at_def set_running_def)
  have others: "on_stack s a \<noteq> CoContext co" if "a \<noteq> td" for a
  proof
    assume *: "on_stack s a = CoContext co"
    from switch_invD(2) [OF inv *] here have "tl_process s a = tl_process s td" by simp
    with here switch_invD(3) [OF inv] have "a = td" by (metis option.exhaust)
    with that show False by simp
  qed
  have inv_t: "switch_inv (?t pt\<lparr>sw_done := D\<rparr>)"
    if "D = sw_done s \<and> pt = InYield co \<or> D = insert co (sw_done s)" for pt D
  proof (rule switch_invI, goal_cases)
    case (1 a b)
    then show ?case using switch_invD(1) [OF inv, of a b] by (simp split: if_splits)
  next
    case (2 a c)
    then have a: "a \<noteq> td" "on_stack s a = CoContext c" by (simp_all split: if_splits)
    with others have "c \<noteq> co" by auto
    with a that switch_invD(2) [OF inv a(2)] show ?case by auto
  next
    case (3 a b q)
    then show ?case using switch_invD(3) [OF inv, of a q b] by simp
  next
    case (4 c)
    show ?case
    proof (cases "c = co")
      case True
      with that 4(2) show ?thesis by auto
    next
      case False
      have "on_stack s a \<noteq> CoContext c" for a
        using 4(3) [rule_format, of a] False on by (cases "a = td") simp_all
      then have "\<forall>a. on_stack s a \<noteq> CoContext c" by blast
      with 4(1,2) False that switch_invD(4) [OF inv, of c] show ?thesis by auto
    qed
  qed
  have "coroutine_yield td co s = Inr (?t (InYield co))" by (simp add: coroutine_yield_def t)
  moreover from this have "yield_current td s = Inr (?t (InYield co))" using here by (simp add: yield_current_def)
  moreover have "switch_inv (?t (InYield co))" using inv_t [of "sw_done s" "InYield co"] by simp
  ultimately show "\<exists>t. coroutine_yield td co s = Inr t \<and> yield_current td s = Inr t \<and> switch_inv t \<and>
      on_stack t = (on_stack s)(td := ThreadContext td) \<and> tl_coroutine t = (tl_coroutine s)(td := None)"
    by (intro exI [of _ "?t (InYield co)"]) simp
  have "main_end td co s = Inr (?t (AtEnd co))" using here by (simp add: main_end_def t)
  then show "\<exists>t. main_end td co s = Inr t \<and> switch_inv (t\<lparr>sw_done := insert co (sw_done t)\<rparr>) \<and>
      on_stack t = (on_stack s)(td := ThreadContext td) \<and> tl_coroutine t = (tl_coroutine s)(td := None)"
    using inv_t [of "insert co (sw_done s)" "AtEnd co"] by (intro exI [of _ "?t (AtEnd co)"]) simp
qed

lemma switch_step_inv:
  assumes inv: "switch_inv s" and step: "switch_step s t"
  shows "switch_inv t"
  using step
proof cases
  case (sw_turn td p)
  then have t: "t = s\<lparr>tl_process := (tl_process s)(td \<mapsto> p)\<rparr>" by (simp add: scope_enter_def)
  show ?thesis unfolding t
  proof (rule switch_invI, goal_cases)
    case (2 a c)
    with sw_turn(1) switch_invD(2) [OF inv, of a c] show ?case by auto
  next
    case (3 a b q)
    with sw_turn(3) switch_invD(3) [OF inv, of a q b] show ?case by (auto split: if_splits)
  qed (use switch_invD(1,4) [OF inv] in auto)
next
  case (sw_turn_end td)
  show ?thesis unfolding sw_turn_end(1) scope_leave_def
  proof (rule switch_invI, goal_cases)
    case (2 a c)
    with sw_turn_end(2) switch_invD(2) [OF inv, of a c] show ?case by auto
  next
    case (3 a b q)
    with switch_invD(3) [OF inv, of a q b] show ?case by (auto split: if_splits)
  qed (use switch_invD(1,4) [OF inv] in auto)
next
  case (sw_create co p)
  show ?thesis unfolding sw_create(1) coroutine_create_def
  proof (rule switch_invI, goal_cases)
    case (2 a c)
    then have "on_stack s a = CoContext c" by simp
    from switch_invD(2) [OF inv this] sw_create(2) show ?case by auto
  next
    case (4 c)
    with switch_invD(4) [OF inv, of c] show ?case by auto
  qed (use switch_invD(1,3) [OF inv] in auto)
next
  case (sw_resume td p co)
  with resume_inv [OF inv sw_resume(1-4)] show ?thesis by auto
next
  case (sw_yield td co)
  with leave_inv(1) [OF inv sw_yield(1)] show ?thesis by auto
next
  case (sw_end td co t')
  with leave_inv(2) [OF inv sw_end(2)] show ?thesis by auto
next
  case (sw_destroy td p co)
  note nr = not_running [OF inv sw_destroy(2-4)]
  show ?thesis unfolding sw_destroy(1) coroutine_destroy_def
  proof (rule switch_invI, goal_cases)
    case (2 a c)
    then have "on_stack s a = CoContext c" "c \<noteq> co" using nr by auto
    with switch_invD(2) [OF inv this(1)] show ?case by auto
  next
    case (4 c)
    then show ?case using switch_invD(4) [OF inv, of c] by (auto split: if_splits)
  qed (use switch_invD(1,3) [OF inv] in auto)
qed

interpretation switch: invariant_contract "\<lambda>s. s = switch_start" switch_step switch_inv
proof
  show "switch_inv s" if "s = switch_start" for s
    unfolding that by (rule switch_invI) (auto simp: switch_start_def)
qed (rule switch_step_inv)

section \<open>Every switch is right\<close>


text \<open>For the witness: a coroutine of the process 9 has waited in a turn of thread 1; thread 2 runs the next turn.\<close>

lemma next_turn:
  "\<exists>s. reach (\<lambda>s. s = switch_start) switch_step s \<and> on_stack s 2 = ThreadContext 2 \<and> tl_process s 2 = Some 9 \<and>
    sw_owner s 5 = Some 9 \<and> 5 \<notin> sw_done s \<and> saved s (CoContext 5) = Some (InYield 5)"
proof -
  define s1 where "s1 = coroutine_create 5 switch_start\<lparr>sw_owner := (sw_owner switch_start)(5 \<mapsto> 9)\<rparr>"
  define s2 where "s2 = s1\<lparr>tl_process := (tl_process s1)(1 \<mapsto> 9)\<rparr>"
  have init: "reach (\<lambda>s. s = switch_start) switch_step switch_start" by (rule reach_init) simp
  have r1: "reach (\<lambda>s. s = switch_start) switch_step s1"
    unfolding s1_def by (rule reach_step [OF init sw_create]) (simp add: switch_start_def)
  have r2: "reach (\<lambda>s. s = switch_start) switch_step s2"
    by (rule reach_step [OF r1 sw_turn [of _ 1 9]])
      (simp_all add: s2_def s1_def coroutine_create_def switch_start_def scope_enter_def)
  have g: "on_stack s2 1 = ThreadContext 1" "tl_process s2 1 = Some 9" "sw_owner s2 5 = Some 9" "5 \<notin> sw_done s2"
    by (simp_all add: s2_def s1_def coroutine_create_def switch_start_def)
  obtain s3 where s3: "coroutine_resume 1 5 s2 = Inr s3" "on_stack s3 1 = CoContext 5" "sw_owner s3 = sw_owner s2" "sw_done s3 = sw_done s2"
    "on_stack s3 2 = ThreadContext 2" "tl_process s3 = tl_process s2" "tl_coroutine s3 1 = Some 5" "saved s3 (ThreadContext 1) = Some InResume"
    by (simp add: s2_def s1_def coroutine_resume_def set_running_def transfer_def continue_at_def coroutine_create_def switch_start_def)
  have r3: "reach (\<lambda>s. s = switch_start) switch_step s3" by (rule reach_step [OF r2 sw_resume [OF g s3(1)]])
  obtain s4 where s4: "yield_current 1 s3 = Inr s4" "on_stack s4 = (on_stack s3)(1 := ThreadContext 1)" "sw_owner s4 = sw_owner s3"
    "sw_done s4 = sw_done s3" "tl_process s4 = tl_process s3" "saved s4 (CoContext 5) = Some (InYield 5)"
    using s3 by (simp add: yield_current_def coroutine_yield_def transfer_def continue_at_def set_running_def)
  have r4: "reach (\<lambda>s. s = switch_start) switch_step s4" by (rule reach_step [OF r3 sw_yield [OF s3(2) s4(1)]])
  have r5: "reach (\<lambda>s. s = switch_start) switch_step (scope_leave 1 s4)"
    by (rule reach_step [OF r4 sw_turn_end]) (use s4 s3 g in simp_all)
  let ?s6 = "scope_leave 1 s4\<lparr>tl_process := (tl_process (scope_leave 1 s4))(2 \<mapsto> 9)\<rparr>"
  have "reach (\<lambda>s. s = switch_start) switch_step ?s6"
    by (rule reach_step [OF r5 sw_turn [of _ 2 9]])
      (use s4 s3 in \<open>simp_all add: scope_leave_def scope_enter_def s2_def s1_def coroutine_create_def switch_start_def\<close>)
  with s4 s3 g show ?thesis by (intro exI [of _ ?s6]) (simp add: scope_leave_def)
qed


end
