(* ===== verification/Shared_Callable.thy ===== *)
theory Shared_Callable
  imports Prelude
begin

text \<open>
  Callables that can only be moved (\<^verbatim>\<open>src/SharedCallable.hpp\<close>). \<^verbatim>\<open>std::function\<close> copies what it
  holds, so \<^verbatim>\<open>spawn\<close> puts such a functor on the heap, in a \<^verbatim>\<open>MoveonlyCallable\<close>, and copies a
  \<^verbatim>\<open>SharedCallable\<close> that points to it. \<^verbatim>\<open>std::shared_ptr\<close> is the library's: a count next to the
  object, which is deleted with the last pointer.
\<close>

section \<open>Choosing the overload\<close>

definition is_moveonly_callable :: "bool \<Rightarrow> bool \<Rightarrow> bool \<Rightarrow> bool \<Rightarrow> bool" where
  "is_moveonly_callable copy_constructible is_function_type is_std_function convertible \<longleftrightarrow>
     \<not> copy_constructible \<and> \<not> is_function_type \<and> \<not> is_std_function \<and> convertible"

section \<open>Objects and variables\<close>

text \<open>
  The functors on the heap with their counts, and the variables that hold a \<^verbatim>\<open>SharedCallable\<close>. An
  address names one functor: it is not used again. \<open>cb_deleted\<close> and \<open>cb_called\<close> record the functors
  destroyed and called, in order.
\<close>

record 'f callables =
  cb_heap :: "nat \<Rightarrow> (nat \<times> 'f) option"
  cb_vars :: "nat \<Rightarrow> nat option"
  cb_deleted :: "nat list"
  cb_called :: "nat list"

definition no_callables :: "'f callables" where
  "no_callables = \<lparr>cb_heap = (\<lambda>_. None), cb_vars = (\<lambda>_. None), cb_deleted = [], cb_called = []\<rparr>"

text \<open>\<open>None\<close> is a misuse: a variable that is constructed twice or not at all, or an address that is not new.\<close>

definition shared_new :: "nat \<Rightarrow> nat \<Rightarrow> 'f \<Rightarrow> 'f callables \<Rightarrow> 'f callables option" where
  "shared_new v a f st =
     (if cb_vars st v \<noteq> None \<or> cb_heap st a \<noteq> None \<or> a \<in> set (cb_deleted st) then None
      else Some (st\<lparr>cb_heap := (cb_heap st)(a \<mapsto> (1, f)), cb_vars := (cb_vars st)(v \<mapsto> a)\<rparr>))"

definition shared_copy :: "nat \<Rightarrow> nat \<Rightarrow> 'f callables \<Rightarrow> 'f callables option" where
  "shared_copy v w st =
     (case cb_vars st v of
        None \<Rightarrow> None
      | Some a \<Rightarrow>
          (case cb_heap st a of
             None \<Rightarrow> None
           | Some (n, f) \<Rightarrow> if cb_vars st w \<noteq> None then None
               else Some (st\<lparr>cb_heap := (cb_heap st)(a \<mapsto> (n + 1, f)), cb_vars := (cb_vars st)(w \<mapsto> a)\<rparr>)))"

definition shared_destroy :: "nat \<Rightarrow> 'f callables \<Rightarrow> 'f callables option" where
  "shared_destroy v st =
     (case cb_vars st v of
        None \<Rightarrow> None
      | Some a \<Rightarrow>
          (case cb_heap st a of
             None \<Rightarrow> None
           | Some (n, f) \<Rightarrow>
               (let st1 = st\<lparr>cb_vars := (cb_vars st)(v := None)\<rparr>
                in if n = 1 then Some (st1\<lparr>cb_heap := (cb_heap st)(a := None), cb_deleted := cb_deleted st @ [a]\<rparr>)
                   else Some (st1\<lparr>cb_heap := (cb_heap st)(a \<mapsto> (n - 1, f))\<rparr>))))"

text \<open>\<^verbatim>\<open>operator()\<close> runs the one functor in place: \<open>run\<close> is what a call makes of it.\<close>

definition shared_call :: "('f \<Rightarrow> 'f) \<Rightarrow> nat \<Rightarrow> 'f callables \<Rightarrow> 'f callables option" where
  "shared_call run v st =
     (case cb_vars st v of
        None \<Rightarrow> None
      | Some a \<Rightarrow>
          (case cb_heap st a of
             None \<Rightarrow> None
           | Some (n, f) \<Rightarrow> Some (st\<lparr>cb_heap := (cb_heap st)(a \<mapsto> (n, run f)), cb_called := cb_called st @ [a]\<rparr>)))"

datatype 'f callable_cmd = NewCallable nat nat 'f | CopyCallable nat nat | DestroyCallable nat | CallCallable nat

fun callable_step :: "('f \<Rightarrow> 'f) \<Rightarrow> 'f callable_cmd \<Rightarrow> 'f callables \<Rightarrow> 'f callables option" where
  "callable_step run (NewCallable v a f) st = shared_new v a f st"
| "callable_step run (CopyCallable v w) st = shared_copy v w st"
| "callable_step run (DestroyCallable v) st = shared_destroy v st"
| "callable_step run (CallCallable v) st = shared_call run v st"

fun run_callables :: "('f \<Rightarrow> 'f) \<Rightarrow> 'f callable_cmd list \<Rightarrow> 'f callables \<Rightarrow> 'f callables option" where
  "run_callables run [] st = Some st"
| "run_callables run (cmd # cmds) st = Option.bind (callable_step run cmd st) (run_callables run cmds)"

section \<open>One functor, deleted once\<close>

definition sharers :: "'f callables \<Rightarrow> nat \<Rightarrow> nat set" where
  "sharers st a = {v. cb_vars st v = Some a}"

definition callables_inv :: "('f \<Rightarrow> 'f) \<Rightarrow> (nat \<Rightarrow> 'f option) \<Rightarrow> 'f callables \<Rightarrow> bool" where
  "callables_inv run made st \<longleftrightarrow> finite (dom (cb_vars st)) \<and>
     (\<forall>a. case cb_heap st a of
        None \<Rightarrow> sharers st a = {} \<and> count (mset (cb_deleted st)) a = of_bool (made a \<noteq> None)
      | Some (n, f) \<Rightarrow> n = card (sharers st a) \<and> sharers st a \<noteq> {} \<and> a \<notin> set (cb_deleted st) \<and>
          (\<exists>f0. made a = Some f0 \<and> f = (run ^^ count (mset (cb_called st)) a) f0)) \<and>
     (\<forall>a. made a = None \<longrightarrow> a \<notin> set (cb_called st))"

text \<open>The functors a sequence of commands makes, by their addresses.\<close>

fun made_by :: "'f callable_cmd list \<Rightarrow> nat \<Rightarrow> 'f option" where
  "made_by [] = (\<lambda>_. None)"
| "made_by (cmd # cmds) = (case cmd of NewCallable v a f \<Rightarrow> [a \<mapsto> f] ++ made_by cmds | _ \<Rightarrow> made_by cmds)"

lemma finite_sharers: "finite (dom (cb_vars st)) \<Longrightarrow> finite (sharers st a)"
  by (rule finite_subset [of _ "dom (cb_vars st)"]) (auto simp: sharers_def)

lemma callables_invI:
  assumes "finite (dom (cb_vars st))"
    and "\<And>a. cb_heap st a = None \<Longrightarrow> sharers st a = {} \<and> count (mset (cb_deleted st)) a = of_bool (made a \<noteq> None)"
    and "\<And>a n f. cb_heap st a = Some (n, f) \<Longrightarrow> n = card (sharers st a) \<and> sharers st a \<noteq> {} \<and> a \<notin> set (cb_deleted st) \<and>
      (\<exists>f0. made a = Some f0 \<and> f = (run ^^ count (mset (cb_called st)) a) f0)"
    and "\<And>a. made a = None \<Longrightarrow> a \<notin> set (cb_called st)"
  shows "callables_inv run made st"
proof -
  have "case cb_heap st a of
        None \<Rightarrow> sharers st a = {} \<and> count (mset (cb_deleted st)) a = of_bool (made a \<noteq> None)
      | Some (n, f) \<Rightarrow> n = card (sharers st a) \<and> sharers st a \<noteq> {} \<and> a \<notin> set (cb_deleted st) \<and>
          (\<exists>f0. made a = Some f0 \<and> f = (run ^^ count (mset (cb_called st)) a) f0)" for a
  proof (cases "cb_heap st a")
    case None
    then show ?thesis using assms(2) by simp
  next
    case (Some nf)
    then show ?thesis using assms(3) by (cases nf) simp
  qed
  then show ?thesis unfolding callables_inv_def using assms(1,4) by blast
qed

lemma callables_invD:
  assumes "callables_inv run made st"
  shows "finite (dom (cb_vars st))"
    and "cb_heap st a = None \<Longrightarrow> sharers st a = {} \<and> count (mset (cb_deleted st)) a = of_bool (made a \<noteq> None)"
    and "cb_heap st a = Some (n, f) \<Longrightarrow> n = card (sharers st a) \<and> sharers st a \<noteq> {} \<and> a \<notin> set (cb_deleted st) \<and>
      (\<exists>f0. made a = Some f0 \<and> f = (run ^^ count (mset (cb_called st)) a) f0)"
    and "made a = None \<Longrightarrow> a \<notin> set (cb_called st)"
proof -
  have at: "case cb_heap st a of
        None \<Rightarrow> sharers st a = {} \<and> count (mset (cb_deleted st)) a = of_bool (made a \<noteq> None)
      | Some (n, f) \<Rightarrow> n = card (sharers st a) \<and> sharers st a \<noteq> {} \<and> a \<notin> set (cb_deleted st) \<and>
          (\<exists>f0. made a = Some f0 \<and> f = (run ^^ count (mset (cb_called st)) a) f0)"
    using assms unfolding callables_inv_def by blast
  show "finite (dom (cb_vars st))" "made a = None \<Longrightarrow> a \<notin> set (cb_called st)"
    using assms unfolding callables_inv_def by blast+
  show "cb_heap st a = None \<Longrightarrow> sharers st a = {} \<and> count (mset (cb_deleted st)) a = of_bool (made a \<noteq> None)" using at by simp
  show "cb_heap st a = Some (n, f) \<Longrightarrow> n = card (sharers st a) \<and> sharers st a \<noteq> {} \<and> a \<notin> set (cb_deleted st) \<and>
      (\<exists>f0. made a = Some f0 \<and> f = (run ^^ count (mset (cb_called st)) a) f0)" using at by simp
qed

lemma sharers_upd:
  "sharers (st\<lparr>cb_heap := h, cb_vars := (cb_vars st)(v := x)\<rparr>) b = (if x = Some b then insert v (sharers st b) else sharers st b - {v})"
  by (auto simp: sharers_def)

lemma sharers_more [simp]:
  "sharers (st\<lparr>cb_deleted := d\<rparr>) b = sharers st b" "sharers (st\<lparr>cb_heap := h\<rparr>) b = sharers st b"
  "sharers (st\<lparr>cb_called := c\<rparr>) b = sharers st b"
  by (simp_all add: sharers_def)

lemma in_sharers: "v \<in> sharers st a \<longleftrightarrow> cb_vars st v = Some a"
  by (simp add: sharers_def)

lemma shared_new_inv:
  assumes inv: "callables_inv run made st" and new: "shared_new v a f st = Some st'"
  shows "callables_inv run (made(a \<mapsto> f)) st'"
proof -
  note d = callables_invD [OF inv]
  have st: "st' = st\<lparr>cb_heap := (cb_heap st)(a \<mapsto> (1, f)), cb_vars := (cb_vars st)(v \<mapsto> a)\<rparr>"
    and h: "cb_vars st v = None" "cb_heap st a = None" "a \<notin> set (cb_deleted st)"
    using new unfolding shared_new_def by (auto simp del: not_None_eq split: if_splits)
  have a: "sharers st a = {}" "made a = None" "a \<notin> set (cb_called st)"
  proof -
    show "sharers st a = {}" "made a = None" using d(2) [OF h(2)] h(3) by (cases "made a"; simp add: count_eq_zero_iff [THEN iffD2])+
    then show "a \<notin> set (cb_called st)" using d(4) by blast
  qed
  have v: "v \<notin> sharers st b" for b using h(1) by (simp add: in_sharers)
  show ?thesis
  proof (rule callables_invI)
    show "finite (dom (cb_vars st'))" using d(1) by (simp add: st)
    fix b
    show "cb_heap st' b = None \<Longrightarrow>
        sharers st' b = {} \<and> count (mset (cb_deleted st')) b = of_bool ((made(a \<mapsto> f)) b \<noteq> None)"
      using d(2) [of b] v by (cases "b = a") (simp_all add: st sharers_upd)
    show "(made(a \<mapsto> f)) b = None \<Longrightarrow> b \<notin> set (cb_called st')"
      using d(4) [of b] by (simp add: st split: if_splits)
    fix n g
    show "cb_heap st' b = Some (n, g) \<Longrightarrow> n = card (sharers st' b) \<and> sharers st' b \<noteq> {} \<and> b \<notin> set (cb_deleted st') \<and>
        (\<exists>f0. (made(a \<mapsto> f)) b = Some f0 \<and> g = (run ^^ count (mset (cb_called st')) b) f0)"
      using d(3) [of b n g] v [of b] a h(3)
      by (cases "b = a") (simp_all add: st sharers_upd not_in_iff [symmetric] count_eq_zero_iff [THEN iffD2])
  qed
qed

lemma shared_copy_inv:
  assumes inv: "callables_inv run made st" and new: "shared_copy v w st = Some st'"
  shows "callables_inv run made st'"
proof -
  note d = callables_invD [OF inv]
  obtain a n f where h: "cb_vars st v = Some a" "cb_heap st a = Some (n, f)" "cb_vars st w = None"
    and st: "st' = st\<lparr>cb_heap := (cb_heap st)(a \<mapsto> (n + 1, f)), cb_vars := (cb_vars st)(w \<mapsto> a)\<rparr>"
    using new by (auto simp: shared_copy_def split: option.splits if_splits)
  have w: "w \<notin> sharers st b" for b using h(3) by (simp add: in_sharers)
  show ?thesis
  proof (rule callables_invI)
    show "finite (dom (cb_vars st'))" using d(1) by (simp add: st)
    fix b
    show "cb_heap st' b = None \<Longrightarrow> sharers st' b = {} \<and> count (mset (cb_deleted st')) b = of_bool (made b \<noteq> None)"
      using d(2) [of b] w by (cases "b = a") (simp_all add: st sharers_upd)
    show "made b = None \<Longrightarrow> b \<notin> set (cb_called st')" using d(4) [of b] by (simp add: st)
    fix m g
    show "cb_heap st' b = Some (m, g) \<Longrightarrow> m = card (sharers st' b) \<and> sharers st' b \<noteq> {} \<and> b \<notin> set (cb_deleted st') \<and>
        (\<exists>f0. made b = Some f0 \<and> g = (run ^^ count (mset (cb_called st')) b) f0)"
      using d(3) [of b m g] d(3) [OF h(2)] w [of b] finite_sharers [OF d(1), of a]
      by (cases "b = a") (auto simp: st sharers_upd)
  qed
qed

lemma shared_destroy_inv:
  assumes inv: "callables_inv run made st" and new: "shared_destroy v st = Some st'"
  shows "callables_inv run made st'"
proof -
  note d = callables_invD [OF inv]
  obtain a n f where h: "cb_vars st v = Some a" "cb_heap st a = Some (n, f)"
    using new by (auto simp: shared_destroy_def split: option.splits)
  have n: "n = card (sharers st a)" "v \<in> sharers st a" and fin: "finite (sharers st a)" and made: "made a \<noteq> None"
    using d(3) [OF h(2)] finite_sharers [OF d(1)] h(1) by (auto simp: in_sharers)
  have other: "v \<notin> sharers st b" if "b \<noteq> a" for b using h(1) that by (simp add: in_sharers)
  show ?thesis
  proof (cases "n = 1")
    case True
    have st: "st' = st\<lparr>cb_heap := (cb_heap st)(a := None), cb_vars := (cb_vars st)(v := None), cb_deleted := cb_deleted st @ [a]\<rparr>"
      using new h True by (auto simp: shared_destroy_def Let_def)
    have last: "sharers st a = {v}" using n True by (metis card_1_singletonE singletonD)
    show ?thesis
    proof (rule callables_invI)
      show "finite (dom (cb_vars st'))" using d(1) by (simp add: st)
      fix b
      show "cb_heap st' b = None \<Longrightarrow> sharers st' b = {} \<and> count (mset (cb_deleted st')) b = of_bool (made b \<noteq> None)"
        using d(2) [of b] d(3) [OF h(2)] other [of b] last made
        by (cases "b = a") (simp_all add: st sharers_upd count_eq_zero_iff [THEN iffD2])
      show "made b = None \<Longrightarrow> b \<notin> set (cb_called st')" using d(4) [of b] by (simp add: st)
      fix m g
      show "cb_heap st' b = Some (m, g) \<Longrightarrow> m = card (sharers st' b) \<and> sharers st' b \<noteq> {} \<and> b \<notin> set (cb_deleted st') \<and>
          (\<exists>f0. made b = Some f0 \<and> g = (run ^^ count (mset (cb_called st')) b) f0)"
        using d(3) [of b m g] other [of b] by (cases "b = a") (simp_all add: st sharers_upd)
    qed
  next
    case False
    have st: "st' = st\<lparr>cb_heap := (cb_heap st)(a \<mapsto> (n - 1, f)), cb_vars := (cb_vars st)(v := None)\<rparr>"
      using new h False by (auto simp: shared_destroy_def Let_def)
    have rest: "card (sharers st a - {v}) = n - 1" "sharers st a - {v} \<noteq> {}"
    proof -
      show card: "card (sharers st a - {v}) = n - 1" using n fin by simp
      have "n > 0" using n fin by (metis card_gt_0_iff empty_iff)
      then show "sharers st a - {v} \<noteq> {}" using card False by (metis One_nat_def Suc_pred card.empty)
    qed
    show ?thesis
    proof (rule callables_invI)
      show "finite (dom (cb_vars st'))" using d(1) by (simp add: st)
      fix b
      show "cb_heap st' b = None \<Longrightarrow> sharers st' b = {} \<and> count (mset (cb_deleted st')) b = of_bool (made b \<noteq> None)"
        using d(2) [of b] by (cases "b = a") (simp_all add: st sharers_upd)
      show "made b = None \<Longrightarrow> b \<notin> set (cb_called st')" using d(4) [of b] by (simp add: st)
      fix m g
      show "cb_heap st' b = Some (m, g) \<Longrightarrow> m = card (sharers st' b) \<and> sharers st' b \<noteq> {} \<and> b \<notin> set (cb_deleted st') \<and>
          (\<exists>f0. made b = Some f0 \<and> g = (run ^^ count (mset (cb_called st')) b) f0)"
        using d(3) [of b m g] d(3) [OF h(2)] other [of b] rest by (cases "b = a") (simp_all add: st sharers_upd)
    qed
  qed
qed

lemma shared_call_inv:
  assumes inv: "callables_inv run made st" and new: "shared_call run v st = Some st'"
  shows "callables_inv run made st'"
proof -
  note d = callables_invD [OF inv]
  obtain a n f where h: "cb_vars st v = Some a" "cb_heap st a = Some (n, f)"
    and st: "st' = st\<lparr>cb_heap := (cb_heap st)(a \<mapsto> (n, run f)), cb_called := cb_called st @ [a]\<rparr>"
    using new by (auto simp: shared_call_def split: option.splits)
  show ?thesis
  proof (rule callables_invI)
    show "finite (dom (cb_vars st'))" using d(1) by (simp add: st)
    fix b
    show "cb_heap st' b = None \<Longrightarrow> sharers st' b = {} \<and> count (mset (cb_deleted st')) b = of_bool (made b \<noteq> None)"
      using d(2) [of b] by (cases "b = a") (simp_all add: st)
    show "made b = None \<Longrightarrow> b \<notin> set (cb_called st')" using d(3) [OF h(2)] d(4) [of b] by (auto simp: st)
    fix m g
    show "cb_heap st' b = Some (m, g) \<Longrightarrow> m = card (sharers st' b) \<and> sharers st' b \<noteq> {} \<and> b \<notin> set (cb_deleted st') \<and>
        (\<exists>f0. made b = Some f0 \<and> g = (run ^^ count (mset (cb_called st')) b) f0)"
      using d(3) [of b m g] d(3) [OF h(2)] by (cases "b = a") (auto simp: st)
  qed
qed

lemma run_callables_inv:
  assumes "run_callables run cmds st = Some st'" and "callables_inv run made st"
  shows "callables_inv run (made ++ made_by cmds) st'"
  using assms
proof (induction cmds arbitrary: st made)
  case (Cons cmd cmds)
  obtain st1 where st1: "callable_step run cmd st = Some st1" "run_callables run cmds st1 = Some st'"
    using Cons.prems(1) by (auto simp: bind_eq_Some_conv)
  show ?case
  proof (cases cmd)
    case (NewCallable v a f)
    then show ?thesis using Cons.IH [OF st1(2) shared_new_inv [OF Cons.prems(2)]] st1(1)
      by (simp only: made_by.simps callable_cmd.case callable_step.simps map_add_assoc map_add_upd map_add_empty)
  next
    case (CopyCallable v w)
    then show ?thesis using Cons.IH [OF st1(2) shared_copy_inv [OF Cons.prems(2)]] st1(1) by simp
  next
    case (DestroyCallable v)
    then show ?thesis using Cons.IH [OF st1(2) shared_destroy_inv [OF Cons.prems(2)]] st1(1) by simp
  next
    case (CallCallable v)
    then show ?thesis using Cons.IH [OF st1(2) shared_call_inv [OF Cons.prems(2)]] st1(1) by simp
  qed
qed simp

lemma no_callables_inv: "callables_inv run Map.empty no_callables"
  by (simp add: callables_inv_def no_callables_def sharers_def)

text \<open>C31. Over any program of constructions, copies, calls and destructions of the wrapper, a move-only functor is
  never copied: its count is the number of variables that hold it, all calls run the one object in place, it
  exists while a variable holds it, and it is deleted exactly once, with the last of them.\<close>

theorem callable_shared_exact:
  assumes "run_callables run cmds no_callables = Some st" and "made_by cmds a = Some f0"
  shows "if \<exists>v. cb_vars st v = Some a
    then cb_heap st a = Some (card {v. cb_vars st v = Some a}, (run ^^ count (mset (cb_called st)) a) f0)
       \<and> a \<notin> set (cb_deleted st)
    else cb_heap st a = None \<and> count (mset (cb_deleted st)) a = 1"
proof -
  have inv: "callables_inv run (made_by cmds) st"
    using run_callables_inv [OF assms(1) no_callables_inv] by simp
  show ?thesis
  proof (cases "cb_heap st a")
    case None
    then show ?thesis using callables_invD(2) [OF inv None] assms(2) by (auto simp: sharers_def)
  next
    case (Some nf)
    then obtain n f where "cb_heap st a = Some (n, f)" by (cases nf) simp
    then show ?thesis using callables_invD(3) [OF inv, of a n f] assms(2) by (auto simp: sharers_def)
  qed
qed

definition shared_twice :: "nat callable_cmd list" where
  "shared_twice = [NewCallable 0 7 5, CopyCallable 0 1, CallCallable 1, DestroyCallable 0, CallCallable 1, DestroyCallable 1]"

lemma callable_shared_exact_witness:
  "\<exists>st. run_callables Suc shared_twice no_callables = Some st \<and> cb_vars st 0 = None \<and>
     cb_called st = [7, 7] \<and> (if \<exists>v. cb_vars st v = Some 7
    then cb_heap st 7 = Some (card {v. cb_vars st v = Some 7}, (Suc ^^ count (mset (cb_called st)) 7) 5)
       \<and> 7 \<notin> set (cb_deleted st)
    else cb_heap st 7 = None \<and> count (mset (cb_deleted st)) 7 = 1)"
proof -
  let ?st = "the (run_callables Suc shared_twice no_callables)"
  have run: "run_callables Suc shared_twice no_callables = Some ?st"
    and vars: "cb_vars ?st 0 = None" and called: "cb_called ?st = [7, 7]"
    by (simp_all add: shared_twice_def no_callables_def shared_new_def shared_copy_def shared_destroy_def shared_call_def)
  have made: "made_by shared_twice 7 = Some 5" by (simp add: shared_twice_def)
  show ?thesis using callable_shared_exact [OF run made] run vars called by blast
qed

section \<open>Spawning a move-only functor\<close>

text \<open>
  The overload of \<^verbatim>\<open>spawn\<close> up to the call: the temporary wrapper is copied into the \<^verbatim>\<open>std::function\<close>, which
  is copied into the parameter; the local one goes when the overload returns.
\<close>

definition spawn_moveonly :: "nat \<Rightarrow> nat \<Rightarrow> nat \<Rightarrow> nat \<Rightarrow> 'f \<Rightarrow> 'f callable_cmd list" where
  "spawn_moveonly wrapper func param a callable =
     [NewCallable wrapper a callable, CopyCallable wrapper func, DestroyCallable wrapper, CopyCallable func param, DestroyCallable func]"

text \<open>In the end the new process is the only one that holds the functor, which has not been called.\<close>

lemma spawn_moveonly_hands_over:
  assumes "cb_vars st wrapper = None" "cb_vars st func = None" "cb_vars st param = None" "distinct [wrapper, func, param]"
    and "cb_heap st a = None" "a \<notin> set (cb_deleted st)"
  shows "\<exists>t. run_callables run (spawn_moveonly wrapper func param a callable) st = Some t \<and>
    cb_vars t = (cb_vars st)(param \<mapsto> a) \<and> cb_heap t = (cb_heap st)(a \<mapsto> (1, callable)) \<and>
    cb_called t = cb_called st \<and> cb_deleted t = cb_deleted st"
  using assms by (simp add: spawn_moveonly_def shared_new_def shared_copy_def shared_destroy_def fun_upd_twist)
    (auto simp: fun_eq_iff)

end
