(* ===== verification/Scheduler.thy ===== *)
theory Scheduler
  imports Mailbox
begin

text \<open>
  The scheduler (\<^verbatim>\<open>class Scheduler\<close> of \<^verbatim>\<open>src/process.cpp\<close>): a queue that processes are put
  into, a private queue the workers take from, the number of idle workers, and the shutdown.

  The first part is the class: its two critical sections, the signals, and \<^verbatim>\<open>stop\<close>. The
  second is the protocol, the steps of any number of workers and of the threads that resume
  processes, in any interleaving. \<^verbatim>\<open>wild::Signaler\<close> is outside the repository: its two
  operations are parameters, and \<open>counting_signaler\<close> states what the scheduler relies on, that
  every \<^verbatim>\<open>send\<close> lets one \<^verbatim>\<open>wait\<close> return.
\<close>

section \<open>The class\<close>

record 's signal_ops =
  sg_send :: "'s \<Rightarrow> 's"
  sg_wait :: "'s \<Rightarrow> 's option"

record ('l, 's) sched =
  sc_stop :: bool
  sc_stop_fired :: bool
  sc_exitcode :: int
  sc_runq :: "nat list"
  sc_resumeq :: 'l
  sc_idle_workers :: int
  sc_signaler :: 's

definition sched_new :: "('l, nat) append_ops \<Rightarrow> 's \<Rightarrow> ('l, 's) sched" where
  "sched_new A sg = \<lparr>sc_stop = False, sc_stop_fired = False, sc_exitcode = 0, sc_runq = [],
     sc_resumeq = al_empty A, sc_idle_workers = 0, sc_signaler = sg\<rparr>"

text \<open>\<^verbatim>\<open>resume\<close>: its critical section, and the signal it sends when a worker was idle.\<close>

definition resume_push :: "('l, nat) append_ops \<Rightarrow> nat \<Rightarrow> ('l, 's) sched \<Rightarrow> bool \<times> ('l, 's) sched" where
  "resume_push A p sc =
     (let sc1 = sc\<lparr>sc_resumeq := al_push A p (sc_resumeq sc)\<rparr>
      in if sc_idle_workers sc1 \<noteq> 0 then (True, sc1\<lparr>sc_idle_workers := sc_idle_workers sc1 - 1\<rparr>)
         else (False, sc1))"

definition signal_worker :: "'s signal_ops \<Rightarrow> ('l, 's) sched \<Rightarrow> ('l, 's) sched" where
  "signal_worker G sc = sc\<lparr>sc_signaler := sg_send G (sc_signaler sc)\<rparr>"

definition sched_resume :: "('l, nat) append_ops \<Rightarrow> 's signal_ops \<Rightarrow> nat \<Rightarrow> ('l, 's) sched \<Rightarrow> ('l, 's) sched" where
  "sched_resume A G p sc =
     (case resume_push A p sc of (waiting, sc1) \<Rightarrow> if waiting then signal_worker G sc1 else sc1)"

text \<open>\<^verbatim>\<open>run\<close> under \<^verbatim>\<open>_runq_lock\<close>: the next process, or nothing, and the worker counts as idle.\<close>

definition run_fetch :: "('l, nat) append_ops \<Rightarrow> ('l, 's) sched \<Rightarrow> nat option \<times> ('l, 's) sched" where
  "run_fetch A sc =
     (case sc_runq sc of
        [] \<Rightarrow> (case al_clear A (sc_resumeq sc) of
                 ([], q) \<Rightarrow> (None, sc\<lparr>sc_resumeq := q, sc_idle_workers := sc_idle_workers sc + 1\<rparr>)
               | (p # next, q) \<Rightarrow> (Some p, sc\<lparr>sc_resumeq := q, sc_runq := next\<rparr>))
      | p # next \<Rightarrow> (Some p, sc\<lparr>sc_runq := next\<rparr>))"

text \<open>\<^verbatim>\<open>stop\<close>: only the first call goes on; it stores the exit code and raises the flag, then
  sends one signal for each of the \<open>n\<close> workers.\<close>

definition stop_fire :: "('l, 's) sched \<Rightarrow> bool \<times> ('l, 's) sched" where
  "stop_fire sc = (sc_stop_fired sc, sc\<lparr>sc_stop_fired := True\<rparr>)"

definition stop_raise :: "int \<Rightarrow> ('l, 's) sched \<Rightarrow> ('l, 's) sched" where
  "stop_raise code sc = sc\<lparr>sc_exitcode := code, sc_stop := True\<rparr>"

definition sched_stop :: "'s signal_ops \<Rightarrow> nat \<Rightarrow> int \<Rightarrow> ('l, 's) sched \<Rightarrow> ('l, 's) sched" where
  "sched_stop G n code sc =
     (case stop_fire sc of (fired, sc1) \<Rightarrow>
        if fired then sc1 else (signal_worker G ^^ n) (stop_raise code sc1))"

section \<open>The protocol\<close>

text \<open>
  A worker is before the test of \<^verbatim>\<open>_stop\<close>, past it, in the \<^verbatim>\<open>wait\<close> of the signaler, running a
  process, or it has left the loop. \<open>ss_pending\<close> counts the threads between the two parts of
  \<^verbatim>\<open>resume\<close>, \<open>ss_unsent\<close> the signals \<^verbatim>\<open>stop\<close> has still to send and \<open>ss_stopsent\<close> those it has
  sent. \<open>ss_pushed\<close> and \<open>ss_run\<close> record the processes in the order they were resumed and taken.
\<close>

datatype worker = Top | Checked | Sleeping | Running nat | Exited

record ('l, 's) sched_sys =
  ss_sched :: "('l, 's) sched"
  ss_workers :: "worker multiset"
  ss_pending :: nat
  ss_unsent :: nat
  ss_stopsent :: nat
  ss_pushed :: "nat list"
  ss_run :: "nat list"

text \<open>\<^verbatim>\<open>serve\<close> starts \<open>n\<close> workers.\<close>

definition sched_start :: "('l, nat) append_ops \<Rightarrow> 's \<Rightarrow> nat \<Rightarrow> ('l, 's) sched_sys" where
  "sched_start A sg n = \<lparr>ss_sched = sched_new A sg, ss_workers = replicate_mset n Top, ss_pending = 0,
     ss_unsent = 0, ss_stopsent = 0, ss_pushed = [], ss_run = []\<rparr>"

definition move :: "worker \<Rightarrow> worker \<Rightarrow> ('l, 's) sched_sys \<Rightarrow> ('l, 's) sched_sys" where
  "move w w' s = s\<lparr>ss_workers := add_mset w' (ss_workers s - {#w#})\<rparr>"

text \<open>A process is resumed only while it is not in the queues.\<close>

definition in_queue :: "('l, 's) sched_sys \<Rightarrow> nat list" where
  "in_queue s = drop (length (ss_run s)) (ss_pushed s)"

inductive sched_step :: "('l, nat) append_ops \<Rightarrow> (nat \<Rightarrow> nat list \<Rightarrow> bool) \<Rightarrow> 's signal_ops \<Rightarrow>
    ('l, 's) sched_sys \<Rightarrow> ('l, 's) sched_sys \<Rightarrow> bool"
  for A :: "('l, nat) append_ops" and fresh :: "nat \<Rightarrow> nat list \<Rightarrow> bool" and G :: "'s signal_ops" where
  do_push: "fresh p (in_queue s) \<Longrightarrow> resume_push A p (ss_sched s) = (waiting, sc) \<Longrightarrow>
    sched_step A fresh G s (s\<lparr>ss_sched := sc, ss_pushed := ss_pushed s @ [p],
      ss_pending := (if waiting then Suc (ss_pending s) else ss_pending s)\<rparr>)"
| do_signal: "0 < ss_pending s \<Longrightarrow>
    sched_step A fresh G s (s\<lparr>ss_sched := signal_worker G (ss_sched s), ss_pending := ss_pending s - 1\<rparr>)"
| do_check: "Top \<in># ss_workers s \<Longrightarrow>
    sched_step A fresh G s (move Top (if sc_stop (ss_sched s) then Exited else Checked) s)"
| do_fetch: "Checked \<in># ss_workers s \<Longrightarrow> run_fetch A (ss_sched s) = (Some p, sc) \<Longrightarrow>
    sched_step A fresh G s ((move Checked (Running p) s)\<lparr>ss_sched := sc, ss_run := ss_run s @ [p]\<rparr>)"
| do_idle: "Checked \<in># ss_workers s \<Longrightarrow> run_fetch A (ss_sched s) = (None, sc) \<Longrightarrow>
    sched_step A fresh G s ((move Checked Sleeping s)\<lparr>ss_sched := sc\<rparr>)"
| do_wake: "Sleeping \<in># ss_workers s \<Longrightarrow> sg_wait G (sc_signaler (ss_sched s)) = Some sg \<Longrightarrow>
    sched_step A fresh G s ((move Sleeping Top s)\<lparr>ss_sched := (ss_sched s)\<lparr>sc_signaler := sg\<rparr>\<rparr>)"
| do_turn: "Running p \<in># ss_workers s \<Longrightarrow> sched_step A fresh G s (move (Running p) Top s)"
| do_stop_fire: "stop_fire (ss_sched s) = (False, sc) \<Longrightarrow> sched_step A fresh G s (s\<lparr>ss_sched := sc\<rparr>)"
| do_stop_raise: "sc_stop_fired (ss_sched s) \<Longrightarrow> \<not> sc_stop (ss_sched s) \<Longrightarrow>
    sched_step A fresh G s (s\<lparr>ss_sched := stop_raise code (ss_sched s), ss_unsent := size (ss_workers s)\<rparr>)"
| do_stop_signal: "0 < ss_unsent s \<Longrightarrow>
    sched_step A fresh G s (s\<lparr>ss_sched := signal_worker G (ss_sched s), ss_unsent := ss_unsent s - 1,
      ss_stopsent := Suc (ss_stopsent s)\<rparr>)"

definition counting_signaler :: "'s signal_ops \<Rightarrow> ('s \<Rightarrow> nat) \<Rightarrow> bool" where
  "counting_signaler G pend \<longleftrightarrow>
     (\<forall>sg. pend (sg_send G sg) = Suc (pend sg)) \<and>
     (\<forall>sg. sg_wait G sg = None \<longleftrightarrow> pend sg = 0) \<and>
     (\<forall>sg sg'. sg_wait G sg = Some sg' \<longrightarrow> pend sg = Suc (pend sg'))"

section \<open>The invariant\<close>

text \<open>
  Every worker in \<^verbatim>\<open>wait\<close> is counted as idle, or a signal for it is in the signaler or about to
  be sent; the queue is never filled while all workers count as idle; and after the flag is up
  there are signals enough for every worker that can still wait.
\<close>

definition sched_inv :: "('l \<Rightarrow> nat list \<Rightarrow> bool) \<Rightarrow> ('s \<Rightarrow> nat) \<Rightarrow> nat \<Rightarrow> ('l, 's) sched_sys \<Rightarrow> bool" where
  "sched_inv rep pend n s \<longleftrightarrow>
     (let sc = ss_sched s; W = ss_workers s in
       size W = n \<and> 0 \<le> sc_idle_workers sc \<and>
       sc_idle_workers sc + int (ss_pending s) + int (pend (sc_signaler sc)) = int (count W Sleeping) + int (ss_stopsent s) \<and>
       (\<not> sc_stop sc \<longrightarrow> ss_stopsent s = 0 \<and> ss_unsent s = 0) \<and>
       (sc_stop sc \<longrightarrow> sc_stop_fired sc \<and> count W Sleeping + count W Checked \<le> pend (sc_signaler sc) + ss_unsent s) \<and>
       (\<exists>qs. rep (sc_resumeq sc) qs \<and> ss_pushed s = ss_run s @ sc_runq sc @ qs \<and>
          (\<not> sc_stop sc \<and> sc_runq sc @ qs \<noteq> [] \<longrightarrow> sc_idle_workers sc < int n)))"

end
