(* ===== verification/Scheduler_Spec.thy ===== *)
theory Scheduler_Spec
  imports Scheduler
begin

text \<open>
  What the scheduler guarantees: processes are run in the order in which they were resumed, no
  resumed process is left behind while all workers sleep, and after \<^verbatim>\<open>stop\<close> every worker leaves.
\<close>

section \<open>The invariant is kept\<close>

lemma signalerD:
  assumes "counting_signaler G pend"
  shows "pend (sg_send G sg) = Suc (pend sg)" "sg_wait G sg = None \<longleftrightarrow> pend sg = 0"
    "sg_wait G sg = Some sg' \<Longrightarrow> pend sg = Suc (pend sg')"
  using assms unfolding counting_signaler_def by blast+

lemma sched_invI:
  assumes "sc = ss_sched s" "W = ss_workers s" "size W = n" "0 \<le> sc_idle_workers sc"
    "sc_idle_workers sc + int (ss_pending s) + int (pend (sc_signaler sc)) = int (count W Sleeping) + int (ss_stopsent s)"
    "\<not> sc_stop sc \<Longrightarrow> ss_stopsent s = 0 \<and> ss_unsent s = 0"
    "sc_stop sc \<Longrightarrow> sc_stop_fired sc \<and> count W Sleeping + count W Checked \<le> pend (sc_signaler sc) + ss_unsent s"
    "rep (sc_resumeq sc) qs" "ss_pushed s = ss_run s @ sc_runq sc @ qs"
    "\<not> sc_stop sc \<Longrightarrow> sc_runq sc @ qs \<noteq> [] \<Longrightarrow> sc_idle_workers sc < int n"
  shows "sched_inv rep pend n s"
  using assms unfolding sched_inv_def Let_def by blast

lemma sched_invE:
  assumes "sched_inv rep pend n s"
  obtains qs where "size (ss_workers s) = n" "0 \<le> sc_idle_workers (ss_sched s)"
    "sc_idle_workers (ss_sched s) + int (ss_pending s) + int (pend (sc_signaler (ss_sched s)))
      = int (count (ss_workers s) Sleeping) + int (ss_stopsent s)"
    "\<not> sc_stop (ss_sched s) \<longrightarrow> ss_stopsent s = 0 \<and> ss_unsent s = 0"
    "sc_stop (ss_sched s) \<longrightarrow> sc_stop_fired (ss_sched s) \<and>
      count (ss_workers s) Sleeping + count (ss_workers s) Checked \<le> pend (sc_signaler (ss_sched s)) + ss_unsent s"
    "rep (sc_resumeq (ss_sched s)) qs" "ss_pushed s = ss_run s @ sc_runq (ss_sched s) @ qs"
    "\<not> sc_stop (ss_sched s) \<and> sc_runq (ss_sched s) @ qs \<noteq> [] \<longrightarrow> sc_idle_workers (ss_sched s) < int n"
  using assms unfolding sched_inv_def Let_def by blast

text \<open>A worker that moves between states in which it neither sleeps nor is about to.\<close>

lemma move_workers:
  assumes "w \<in># ss_workers s"
  obtains W where "ss_workers s = add_mset w W" "ss_workers (move w w' s) = add_mset w' W"
proof -
  obtain W where "ss_workers s = add_mset w W" using assms by (meson multi_member_split)
  then show thesis by (intro that [of W]) (simp_all add: move_def)
qed

lemma move_fields [simp]:
  "ss_sched (move w w' s) = ss_sched s" "ss_pending (move w w' s) = ss_pending s"
  "ss_unsent (move w w' s) = ss_unsent s" "ss_stopsent (move w w' s) = ss_stopsent s"
  "ss_pushed (move w w' s) = ss_pushed s" "ss_run (move w w' s) = ss_run s"
  by (simp_all add: move_def)

lemma two_counts: "x \<noteq> y \<Longrightarrow> count W x + count W y \<le> size W"
  by (induction W) auto

lemma all_count: "\<forall>w. w \<in># W \<longrightarrow> w = x \<Longrightarrow> count W x = size W"
  by (induction W) auto

lemma sleeping_le_size: "count W Sleeping \<le> size W"
  by (rule count_le_size)

lemma fetch_cases:
  assumes "append_list A fresh rep" "rep (sc_resumeq sc) qs" "run_fetch A sc = (r, sc')"
  obtains (got) p qs' where "r = Some p" "rep (sc_resumeq sc') qs'" "sc_runq sc @ qs = p # sc_runq sc' @ qs'"
      "sc' = sc\<lparr>sc_resumeq := sc_resumeq sc', sc_runq := sc_runq sc'\<rparr>"
  | (idle) "r = None" "sc_runq sc @ qs = []" "rep (sc_resumeq sc') []"
      "sc' = sc\<lparr>sc_resumeq := sc_resumeq sc', sc_idle_workers := sc_idle_workers sc + 1\<rparr>"
proof -
  obtain q where q: "al_clear A (sc_resumeq sc) = (qs, q)" "rep q []"
    using append_list.rep_clear [OF assms(1,2)] by blast
  show thesis
  proof (cases "sc_runq sc")
    case (Cons p ps)
    with assms(2,3) show thesis by (intro got [of p qs]) (auto simp: run_fetch_def)
  next
    case Nil
    show thesis
    proof (cases qs)
      case Nil
      with \<open>sc_runq sc = []\<close> assms(3) q show thesis by (intro idle) (auto simp: run_fetch_def)
    next
      case (Cons p ps)
      with \<open>sc_runq sc = []\<close> assms(3) q show thesis by (intro got [of p "[]"]) (auto simp: run_fetch_def)
    qed
  qed
qed

lemma sched_inv_step:
  assumes A: "append_list A fresh rep" and G: "counting_signaler G pend"
    and n: "0 < n" and inv: "sched_inv rep pend n s" and step: "sched_step A fresh G s t"
  shows "sched_inv rep pend n t"
proof -
  note sig = signalerD [OF G]
  from inv obtain qs where I: "size (ss_workers s) = n" "0 \<le> sc_idle_workers (ss_sched s)"
    "sc_idle_workers (ss_sched s) + int (ss_pending s) + int (pend (sc_signaler (ss_sched s)))
      = int (count (ss_workers s) Sleeping) + int (ss_stopsent s)"
    "\<not> sc_stop (ss_sched s) \<longrightarrow> ss_stopsent s = 0 \<and> ss_unsent s = 0"
    "sc_stop (ss_sched s) \<longrightarrow> sc_stop_fired (ss_sched s) \<and>
      count (ss_workers s) Sleeping + count (ss_workers s) Checked \<le> pend (sc_signaler (ss_sched s)) + ss_unsent s"
    "rep (sc_resumeq (ss_sched s)) qs" "ss_pushed s = ss_run s @ sc_runq (ss_sched s) @ qs"
    "\<not> sc_stop (ss_sched s) \<and> sc_runq (ss_sched s) @ qs \<noteq> [] \<longrightarrow> sc_idle_workers (ss_sched s) < int n"
    by (rule sched_invE)
  from step show ?thesis
  proof cases
    case (do_push p waiting sc)
    have "in_queue s = sc_runq (ss_sched s) @ qs" using I(7) by (simp add: in_queue_def)
    then have "fresh p qs" using append_list.fresh_suffix [OF A] do_push(2) by metis
    with append_list.rep_push [OF A I(6)] have r: "rep (al_push A p (sc_resumeq (ss_sched s))) (qs @ [p])" by blast
    have le: "sc_idle_workers (ss_sched s) \<le> int n" if "\<not> sc_stop (ss_sched s)"
      using I(3) I(4) that sleeping_le_size [of "ss_workers s"] I(1) by linarith
    show ?thesis
    proof (cases "sc_idle_workers (ss_sched s) = 0")
      case True
      with do_push r I n show ?thesis
        by (intro sched_invI [OF refl refl, where s = t and qs = "qs @ [p]"]) (auto simp: resume_push_def Let_def)
    next
      case False
      have f: "ss_sched t = (ss_sched s)\<lparr>sc_resumeq := al_push A p (sc_resumeq (ss_sched s)),
          sc_idle_workers := sc_idle_workers (ss_sched s) - 1\<rparr>"
        "ss_workers t = ss_workers s" "ss_pending t = Suc (ss_pending s)" "ss_stopsent t = ss_stopsent s"
        "ss_unsent t = ss_unsent s" "ss_pushed t = ss_pushed s @ [p]" "ss_run t = ss_run s"
        using do_push(1,3) False by (auto simp: resume_push_def Let_def)
      show ?thesis
      proof (rule sched_invI [OF refl refl, where s = t and qs = "qs @ [p]"], goal_cases)
        case 2
        with False I(2) f(1) show ?case by simp
      next
        case 3
        with I(3) f show ?case by simp
      next
        case 8
        with le f show ?case by simp
      qed (use I f r in simp_all)
    qed
  next
    case do_signal
    with I sig show ?thesis
      by (intro sched_invI [OF refl refl, where s = t and qs = qs]) (auto simp: signal_worker_def)
  next
    case do_check
    obtain W where W: "ss_workers s = add_mset Top W"
        "ss_workers t = add_mset (if sc_stop (ss_sched s) then Exited else Checked) W"
      using do_check by (metis move_workers)
    with do_check(1) I show ?thesis
      by (intro sched_invI [OF refl refl, where s = t and qs = qs]) auto
  next
    case (do_fetch p sc)
    obtain W where W: "ss_workers s = add_mset Checked W" "ss_workers (move Checked (Running p) s) = add_mset (Running p) W"
      using do_fetch(2) by (rule move_workers)
    obtain qs' where f: "rep (sc_resumeq sc) qs'" "sc_runq (ss_sched s) @ qs = p # sc_runq sc @ qs'"
      "sc = (ss_sched s)\<lparr>sc_resumeq := sc_resumeq sc, sc_runq := sc_runq sc\<rparr>"
    proof (cases rule: fetch_cases [OF A I(6) do_fetch(3)])
      case (1 p' qs')
      then have "p' = p" by simp
      with 1 that show thesis by metis
    next
      case 2
      then show thesis by simp
    qed
    have g: "sc_idle_workers sc = sc_idle_workers (ss_sched s)" "sc_stop sc = sc_stop (ss_sched s)"
        "sc_stop_fired sc = sc_stop_fired (ss_sched s)" "sc_signaler sc = sc_signaler (ss_sched s)"
      by (subst f(3), simp)+
    show ?thesis
      using I W do_fetch(1) f(1,2) g
      by (intro sched_invI [OF refl refl, where s = t and qs = qs']) auto
  next
    case (do_idle sc)
    obtain W where W: "ss_workers s = add_mset Checked W" "ss_workers (move Checked Sleeping s) = add_mset Sleeping W"
      using do_idle(2) by (rule move_workers)
    obtain f: "sc_runq (ss_sched s) @ qs = []" "rep (sc_resumeq sc) []"
      "sc = (ss_sched s)\<lparr>sc_resumeq := sc_resumeq sc, sc_idle_workers := sc_idle_workers (ss_sched s) + 1\<rparr>"
    proof (cases rule: fetch_cases [OF A I(6) do_idle(3)])
      case (1 p' qs')
      then show thesis by simp
    next
      case 2
      with that show thesis by metis
    qed
    have g: "sc_idle_workers sc = sc_idle_workers (ss_sched s) + 1" "sc_stop sc = sc_stop (ss_sched s)"
        "sc_stop_fired sc = sc_stop_fired (ss_sched s)" "sc_signaler sc = sc_signaler (ss_sched s)"
        "sc_runq sc = sc_runq (ss_sched s)"
      by (subst f(3), simp)+
    show ?thesis
      using I W do_idle(1) f(1,2) g
      by (intro sched_invI [OF refl refl, where s = t and qs = "[]"]) auto
  next
    case (do_wake sg)
    obtain W where W: "ss_workers s = add_mset Sleeping W" "ss_workers (move Sleeping Top s) = add_mset Top W"
      using do_wake(2) by (rule move_workers)
    with do_wake(1) sig(3) [OF do_wake(3)] I show ?thesis
      by (intro sched_invI [OF refl refl, where s = t and qs = qs]) auto
  next
    case (do_turn p)
    obtain W where W: "ss_workers s = add_mset (Running p) W" "ss_workers (move (Running p) Top s) = add_mset Top W"
      using do_turn(2) by (rule move_workers)
    with do_turn(1) I show ?thesis
      by (intro sched_invI [OF refl refl, where s = t and qs = qs]) auto
  next
    case (do_stop_fire sc)
    with I show ?thesis
      by (intro sched_invI [OF refl refl, where s = t and qs = qs]) (auto simp: stop_fire_def)
  next
    case (do_stop_raise code)
    have "count (ss_workers s) Sleeping + count (ss_workers s) Checked \<le> size (ss_workers s)"
      by (rule two_counts) simp
    with do_stop_raise I show ?thesis
      by (intro sched_invI [OF refl refl, where s = t and qs = qs]) (auto simp: stop_raise_def)
  next
    case do_stop_signal
    with I sig show ?thesis
      by (intro sched_invI [OF refl refl, where s = t and qs = qs]) (auto simp: signal_worker_def)
  qed
qed

lemma sched_inv_start:
  assumes "append_list A fresh rep" "pend sg = 0" "0 < n"
  shows "sched_inv rep pend n (sched_start A sg n)"
  using assms append_list.rep_empty [OF assms(1)]
  by (intro sched_invI [OF refl refl, where s = "sched_start A sg n" and qs = "[]"])
    (simp_all add: sched_start_def sched_new_def)

lemma sched_reach:
  assumes "append_list A fresh rep" "counting_signaler G pend" "pend sg = 0" "0 < n"
    and "reach (\<lambda>s. s = sched_start A sg n) (sched_step A fresh G) s"
  shows "sched_inv rep pend n s"
proof -
  have "invariant_contract (\<lambda>s. s = sched_start A sg n) (sched_step A fresh G) (sched_inv rep pend n)"
    using sched_inv_start [of A fresh rep pend sg n] assms(1,3,4) sched_inv_step [OF assms(1,2,4)] by unfold_locales blast+
  from invariant_contract.inv_reach [OF this assms(5)] show ?thesis .
qed

section \<open>What it means\<close>

text \<open>The progress of a worker towards the end of the loop.\<close>

fun rank :: "worker \<Rightarrow> nat" where
  "rank Exited = 0"
| "rank Top = 1"
| "rank Sleeping = 2"
| "rank (Running p) = 2"
| "rank Checked = 3"

definition ranks :: "('l, 's) sched_sys \<Rightarrow> nat" where
  "ranks s = (\<Sum>w\<in>#ss_workers s. rank w)"

text \<open>A counter, and a run in which a process is resumed while both workers sleep.\<close>

abbreviation counter :: "nat signal_ops" where
  "counter \<equiv> \<lparr>sg_send = Suc, sg_wait = (\<lambda>n. case n of 0 \<Rightarrow> None | Suc m \<Rightarrow> Some m)\<rparr>"

lemma counter_counts: "counting_signaler counter (\<lambda>n. n)"
  by (auto simp: counting_signaler_def split: nat.splits)

abbreviation demo :: "nat list \<Rightarrow> int \<Rightarrow> nat \<Rightarrow> worker multiset \<Rightarrow> nat \<Rightarrow> nat list \<Rightarrow> (nat list, nat) sched_sys" where
  "demo q idle sg W pending pushed \<equiv>
     \<lparr>ss_sched = \<lparr>sc_stop = False, sc_stop_fired = False, sc_exitcode = 0, sc_runq = [], sc_resumeq = q,
        sc_idle_workers = idle, sc_signaler = sg\<rparr>, ss_workers = W, ss_pending = pending, ss_unsent = 0,
      ss_stopsent = 0, ss_pushed = pushed, ss_run = []\<rparr>"

abbreviation demo_reach :: "(nat list, nat) sched_sys \<Rightarrow> bool" where
  "demo_reach \<equiv> reach (\<lambda>s. s = sched_start queue_ops 0 1) (sched_step queue_ops (\<lambda>_ _. True) counter)"

lemma demo_run: "demo_reach (demo [3] 0 1 {#Sleeping#} 0 [3])"
proof -
  have "demo_reach (demo [] 0 0 {#Top#} 0 [])"
    by (rule reach_init) (simp add: sched_start_def sched_new_def)
  moreover have "sched_step queue_ops (\<lambda>_ _. True) counter (demo [] 0 0 {#Top#} 0 []) (demo [] 0 0 {#Checked#} 0 [])"
    using do_check [of "demo [] 0 0 {#Top#} 0 []" queue_ops "\<lambda>_ _. True" counter] by (simp add: move_def)
  ultimately have "demo_reach (demo [] 0 0 {#Checked#} 0 [])" by (rule reach_step)
  moreover have "sched_step queue_ops (\<lambda>_ _. True) counter (demo [] 0 0 {#Checked#} 0 []) (demo [] 1 0 {#Sleeping#} 0 [])"
    using do_idle [of "demo [] 0 0 {#Checked#} 0 []" queue_ops "ss_sched (demo [] 1 0 {#Sleeping#} 0 [])" "\<lambda>_ _. True" counter]
    by (simp add: move_def run_fetch_def)
  ultimately have "demo_reach (demo [] 1 0 {#Sleeping#} 0 [])" by (rule reach_step)
  moreover have "sched_step queue_ops (\<lambda>_ _. True) counter (demo [] 1 0 {#Sleeping#} 0 []) (demo [3] 0 0 {#Sleeping#} 1 [3])"
    using do_push [of "\<lambda>_ _. True" 3 "demo [] 1 0 {#Sleeping#} 0 []" queue_ops True
        "ss_sched (demo [3] 0 0 {#Sleeping#} 1 [3])" counter]
    by (simp add: resume_push_def)
  ultimately have "demo_reach (demo [3] 0 0 {#Sleeping#} 1 [3])" by (rule reach_step)
  moreover have "sched_step queue_ops (\<lambda>_ _. True) counter (demo [3] 0 0 {#Sleeping#} 1 [3]) (demo [3] 0 1 {#Sleeping#} 0 [3])"
    using do_signal [of "demo [3] 0 0 {#Sleeping#} 1 [3]" queue_ops "\<lambda>_ _. True" counter]
    by (simp add: signal_worker_def)
  ultimately show ?thesis by (rule reach_step)
qed

lemma demo_stop:
  "\<exists>s. demo_reach s \<and> sc_stop (ss_sched s) \<and> ss_unsent s = 0 \<and> ss_workers s = {#Sleeping#}"
proof -
  let ?s = "demo [3] 0 1 {#Sleeping#} 0 [3]"
  let ?s1 = "?s\<lparr>ss_sched := snd (stop_fire (ss_sched ?s))\<rparr>"
  let ?s2 = "?s1\<lparr>ss_sched := stop_raise 0 (ss_sched ?s1), ss_unsent := 1\<rparr>"
  let ?s3 = "?s2\<lparr>ss_sched := signal_worker counter (ss_sched ?s2), ss_unsent := 0, ss_stopsent := 1\<rparr>"
  have "sched_step queue_ops (\<lambda>_ _. True) counter ?s ?s1"
    by (rule do_stop_fire) (simp add: stop_fire_def)
  moreover have "sched_step queue_ops (\<lambda>_ _. True) counter ?s1 ?s2"
    using do_stop_raise [of ?s1 queue_ops "\<lambda>_ _. True" counter 0] by (simp add: stop_fire_def)
  moreover have "sched_step queue_ops (\<lambda>_ _. True) counter ?s2 ?s3"
    using do_stop_signal [of ?s2 queue_ops "\<lambda>_ _. True" counter] by (simp add: stop_fire_def)
  ultimately have "demo_reach ?s3" using demo_run by (meson reach_step)
  then show ?thesis
    by (intro exI [of _ ?s3]) (simp add: signal_worker_def stop_raise_def stop_fire_def)
qed

text \<open>Processes are taken by the workers in the order in which they were resumed, each once: what
  has been taken so far is a prefix of what has been resumed, and the rest is in the two queues.\<close>

theorem sched_fifo:
  assumes "append_list A fresh rep" "counting_signaler G pend" "pend sg = 0" "0 < n"
    and "reach (\<lambda>s. s = sched_start A sg n) (sched_step A fresh G) s"
  shows "\<exists>qs. rep (sc_resumeq (ss_sched s)) qs \<and> ss_pushed s = ss_run s @ sc_runq (ss_sched s) @ qs"
  using sched_reach [OF assms] by (elim sched_invE) blast

theorem sched_fifo_witness:
  "demo_reach (demo [3] 0 1 {#Sleeping#} 0 [3]) \<and> (\<exists>qs. [3] = qs \<and> [3] = [] @ [] @ qs)"
  using sched_fifo [OF queue_append_list counter_counts refl _ demo_run] demo_run by simp

text \<open>C11
  No wake-up is lost: while the scheduler is not stopped, if some resumed process has not been
  taken and no thread is between the two parts of \<^verbatim>\<open>resume\<close>, then not all workers are left
  sleeping; one is awake and will look at the queue, or a signal is there that lets one return.\<close>

theorem sched_no_lost_wakeup:
  assumes "append_list A fresh rep" "counting_signaler G pend" "pend sg = 0" "0 < n"
    and "reach (\<lambda>s. s = sched_start A sg n) (sched_step A fresh G) s"
    and "\<not> sc_stop (ss_sched s)" "ss_run s \<noteq> ss_pushed s" "ss_pending s = 0"
  shows "(\<exists>w. w \<in># ss_workers s \<and> w \<noteq> Sleeping) \<or> (\<exists>sg'. sg_wait G (sc_signaler (ss_sched s)) = Some sg')"
proof -
  from sched_reach [OF assms(1-5)] obtain qs where I: "size (ss_workers s) = n"
    "sc_idle_workers (ss_sched s) + int (ss_pending s) + int (pend (sc_signaler (ss_sched s)))
      = int (count (ss_workers s) Sleeping) + int (ss_stopsent s)"
    "\<not> sc_stop (ss_sched s) \<longrightarrow> ss_stopsent s = 0 \<and> ss_unsent s = 0"
    "ss_pushed s = ss_run s @ sc_runq (ss_sched s) @ qs"
    "\<not> sc_stop (ss_sched s) \<and> sc_runq (ss_sched s) @ qs \<noteq> [] \<longrightarrow> sc_idle_workers (ss_sched s) < int n"
    by (rule sched_invE)
  show ?thesis
  proof (cases "\<forall>w. w \<in># ss_workers s \<longrightarrow> w = Sleeping")
    case True
    then have "count (ss_workers s) Sleeping = size (ss_workers s)"
      by (rule all_count)
    with I assms(6-8) have "pend (sc_signaler (ss_sched s)) \<noteq> 0" by auto
    with signalerD(2) [OF assms(2)] show ?thesis by fastforce
  qed blast
qed

theorem sched_no_lost_wakeup_witness:
  "demo_reach (demo [3] 0 1 {#Sleeping#} 0 [3]) \<and> (\<exists>sg'. sg_wait counter 1 = Some sg')"
  using sched_no_lost_wakeup [OF queue_append_list counter_counts refl _ demo_run] demo_run by simp

lemma ranks_move:
  assumes "w \<in># ss_workers s"
  shows "ranks (move w w' s) + rank w = ranks s + rank w'"
proof -
  obtain W where "ss_workers s = add_mset w W" "ss_workers (move w w' s) = add_mset w' W"
    using assms by (rule move_workers)
  then show ?thesis by (simp add: ranks_def)
qed

lemma ranks_cong: "ss_workers t = ss_workers s \<Longrightarrow> ranks t = ranks s"
  by (simp add: ranks_def)

lemma fetch_stop: "run_fetch A sc = (r, sc') \<Longrightarrow> sc_stop sc' = sc_stop sc"
  by (auto simp: run_fetch_def split: list.splits prod.splits)

lemma stopped_step:
  assumes "sched_step A fresh G s t" "sc_stop (ss_sched s)"
  shows "sc_stop (ss_sched t) \<and> ranks t \<le> ranks s"
  using assms(1)
proof cases
  case (do_push p waiting sc)
  with assms(2) show ?thesis by (auto simp: resume_push_def Let_def ranks_def split: if_splits)
next
  case do_check
  with assms(2) ranks_move [of Top s Exited] show ?thesis by simp
next
  case (do_fetch p sc)
  with assms(2) ranks_move [of Checked s "Running p"] fetch_stop [OF do_fetch(3)] show ?thesis
    by (simp add: ranks_def)
next
  case (do_idle sc)
  with assms(2) ranks_move [of Checked s Sleeping] fetch_stop [OF do_idle(3)] show ?thesis
    by (simp add: ranks_def)
next
  case (do_wake sg)
  with assms(2) ranks_move [of Sleeping s Top] show ?thesis by (simp add: ranks_def)
next
  case (do_turn p)
  with assms(2) ranks_move [of "Running p" s Top] show ?thesis by simp
qed (use assms(2) in \<open>auto simp: ranks_def signal_worker_def stop_fire_def stop_raise_def\<close>)

lemma stopped_progress:
  assumes inv: "sched_inv rep pend n s" and G: "counting_signaler G pend"
    and s: "sc_stop (ss_sched s)" "ss_unsent s = 0" and w: "w \<in># ss_workers s" "w \<noteq> Exited"
  shows "\<exists>t. sched_step A fresh G s t \<and> ranks t < ranks s"
proof (cases w)
  case Top
  with w s do_check [of s A fresh G] ranks_move [of Top s Exited] show ?thesis by fastforce
next
  case Checked
  obtain r sc where f: "run_fetch A (ss_sched s) = (r, sc)" by fastforce
  show ?thesis
  proof (cases r)
    case None
    have "ranks ((move Checked Sleeping s)\<lparr>ss_sched := sc\<rparr>) < ranks s"
      using ranks_move [of Checked s Sleeping] w Checked by (simp add: ranks_def)
    with do_idle [of s A sc fresh G] f None w Checked show ?thesis by blast
  next
    case (Some p)
    have "ranks ((move Checked (Running p) s)\<lparr>ss_sched := sc, ss_run := ss_run s @ [p]\<rparr>) < ranks s"
      using ranks_move [of Checked s "Running p"] w Checked by (simp add: ranks_def)
    with do_fetch [of s A p sc fresh G] f Some w Checked show ?thesis by blast
  qed
next
  case Sleeping
  have "count (ss_workers s) Sleeping \<le> pend (sc_signaler (ss_sched s))"
    using inv s by (elim sched_invE) auto
  moreover have "0 < count (ss_workers s) Sleeping" using w Sleeping by simp
  ultimately have "pend (sc_signaler (ss_sched s)) \<noteq> 0" by linarith
  then obtain sg where sg: "sg_wait G (sc_signaler (ss_sched s)) = Some sg"
    using signalerD(2) [OF G] by fastforce
  have "ranks ((move Sleeping Top s)\<lparr>ss_sched := (ss_sched s)\<lparr>sc_signaler := sg\<rparr>\<rparr>) < ranks s"
    using ranks_move [of Sleeping s Top] w Sleeping by (simp add: ranks_def)
  with do_wake [of s G sg A fresh] sg w Sleeping show ?thesis by blast
next
  case (Running p)
  with w do_turn [of p s A fresh G] ranks_move [of "Running p" s Top] show ?thesis by fastforce
qed (use w in simp)



section \<open>Two queues are one\<close>

text \<open>What the threads do to the queues, in the order of the locks, and what the workers are given.\<close>

datatype queue_op = PushProcess nat | FetchProcess

fun two_queues :: "('l, nat) append_ops \<Rightarrow> queue_op list \<Rightarrow> ('l, 's) sched \<Rightarrow> nat option list" where
  "two_queues A [] sc = []"
| "two_queues A (PushProcess p # ops) sc = two_queues A ops (snd (resume_push A p sc))"
| "two_queues A (FetchProcess # ops) sc = (case run_fetch A sc of (r, sc1) \<Rightarrow> r # two_queues A ops sc1)"

fun one_queue :: "queue_op list \<Rightarrow> nat list \<Rightarrow> nat option list" where
  "one_queue [] q = []"
| "one_queue (PushProcess p # ops) q = one_queue ops (q @ [p])"
| "one_queue (FetchProcess # ops) [] = None # one_queue ops []"
| "one_queue (FetchProcess # ops) (p # q) = Some p # one_queue ops q"

text \<open>Every process is pushed only while the list can hold it.\<close>

fun pushes_fresh :: "(nat \<Rightarrow> nat list \<Rightarrow> bool) \<Rightarrow> queue_op list \<Rightarrow> nat list \<Rightarrow> bool" where
  "pushes_fresh fresh [] q = True"
| "pushes_fresh fresh (PushProcess p # ops) q = (fresh p q \<and> pushes_fresh fresh ops (q @ [p]))"
| "pushes_fresh fresh (FetchProcess # ops) q = pushes_fresh fresh ops (tl q)"

text \<open>C29
  The two queues of the scheduler, the one that is filled and the one that is drained, behave as one
  first-in first-out queue: over every sequence of resumes and fetches the workers are given the
  same processes, and find nothing at the same times.\<close>

theorem two_queues_are_one:
  assumes "append_list A fresh rep"
  shows "rep (sc_resumeq sc) qs \<Longrightarrow> pushes_fresh fresh ops (sc_runq sc @ qs) \<Longrightarrow>
    two_queues A ops sc = one_queue ops (sc_runq sc @ qs)"
proof (induction ops arbitrary: sc qs)
  case (Cons a ops)
  show ?case
  proof (cases a)
    case (PushProcess p)
    let ?sc = "snd (resume_push A p sc)"
    have "sc_runq ?sc = sc_runq sc" "sc_resumeq ?sc = al_push A p (sc_resumeq sc)"
      by (simp_all add: resume_push_def Let_def)
    moreover have "rep (al_push A p (sc_resumeq sc)) (qs @ [p])"
      using append_list.rep_push [OF assms Cons.prems(1)] append_list.fresh_suffix [OF assms] Cons.prems(2) PushProcess
      by auto
    ultimately show ?thesis using Cons.IH [of ?sc "qs @ [p]"] Cons.prems(2) PushProcess by simp
  next
    case FetchProcess
    obtain q where q: "al_clear A (sc_resumeq sc) = (qs, q)" "rep q []"
      using append_list.rep_clear [OF assms Cons.prems(1)] by blast
    show ?thesis
    proof (cases "sc_runq sc")
      case Nil
      with q Cons FetchProcess show ?thesis by (cases qs) (simp_all add: run_fetch_def)
    next
      case (Cons p ps)
      with Cons.IH [of "sc\<lparr>sc_runq := ps\<rparr>" qs] Cons.prems FetchProcess show ?thesis by (simp add: run_fetch_def)
    qed
  qed
qed simp

theorem two_queues_are_one_witness:
  "two_queues queue_ops [PushProcess 4, PushProcess 5, FetchProcess, PushProcess 6, FetchProcess, FetchProcess, FetchProcess]
     (sched_new queue_ops ()) = [Some 4, Some 5, Some 6, None]"
  using two_queues_are_one [OF queue_append_list, of "sched_new queue_ops ()" "[]"
    "[PushProcess 4, PushProcess 5, FetchProcess, PushProcess 6, FetchProcess, FetchProcess, FetchProcess]"]
  by (simp add: sched_new_def)

end
