(* ===== verification/Mutex.thy ===== *)
theory Mutex
  imports Process
begin

text \<open>
  The mutex between the coroutines of one process (\<^verbatim>\<open>detail::Mutex\<close> of \<^verbatim>\<open>src/process.cpp\<close>): a
  deque of coroutines whose front holds the lock, and a reference count for its handles.

  The assertions and the undefined erase are errors. \<^verbatim>\<open>lock\<close> is modelled up to the switch away
  from the coroutine, and after it, once for a normal return of \<^verbatim>\<open>suspend\<close> and once for an
  exception. The protocol part runs any number of coroutines through it.
\<close>

section \<open>The class\<close>

datatype mutex_error = AssertRunning | AssertEmpty | AssertFront | AssertRefcnt | UndefinedErase

record mutex =
  mx_refcnt :: int
  mx_coroutines :: "co list"

definition mutex_create :: mutex where
  "mutex_create = \<lparr>mx_refcnt = 1, mx_coroutines = []\<rparr>"

definition mutex_ref :: "mutex \<Rightarrow> mutex" where
  "mutex_ref m = m\<lparr>mx_refcnt := mx_refcnt m + 1\<rparr>"

text \<open>\<^verbatim>\<open>unref\<close>: the count that remains, \<open>None\<close> when the mutex is deleted.\<close>

definition mutex_unref :: "mutex \<Rightarrow> mutex_error + mutex option" where
  "mutex_unref m =
     (if \<not> 0 < mx_refcnt m then Inl AssertRefcnt
      else let m1 = m\<lparr>mx_refcnt := mx_refcnt m - 0\<rparr>
           in if mx_refcnt m1 = 0 then Inr None else Inr (Some m1))"

text \<open>\<open>True\<close>: the lock is held; \<open>False\<close>: the coroutine suspends itself.\<close>

definition mutex_lock :: "co \<Rightarrow> mutex \<Rightarrow> mutex_error + bool \<times> mutex" where
  "mutex_lock running m =
     (case mx_coroutines m of
        [] \<Rightarrow> Inr (True, m\<lparr>mx_coroutines := [running]\<rparr>)
      | front # rest \<Rightarrow>
          (if front = running then Inl AssertFront
           else Inr (False, m\<lparr>mx_coroutines := mx_coroutines m @ [running]\<rparr>)))"

definition lock_resumed :: "co \<Rightarrow> mutex \<Rightarrow> mutex_error + mutex" where
  "lock_resumed running m =
     (case mx_coroutines m of
        [] \<Rightarrow> Inl AssertEmpty
      | front # rest \<Rightarrow> if front \<noteq> running then Inl AssertFront else Inr m)"

text \<open>
  \<^verbatim>\<open>erase(std::remove(...))\<close> with one iterator erases one element at the new end: right when the
  coroutine is there exactly once, undefined when it is not there.
\<close>

definition lock_interrupted :: "co \<Rightarrow> mutex \<Rightarrow> mutex_error + mutex" where
  "lock_interrupted running m =
     (if count_list (mx_coroutines m) running = 1
      then Inr (m\<lparr>mx_coroutines := removeAll running (mx_coroutines m)\<rparr>)
      else Inl UndefinedErase)"

definition mutex_try_lock :: "co \<Rightarrow> mutex \<Rightarrow> bool \<times> mutex" where
  "mutex_try_lock running m =
     (if mx_coroutines m = [] then (True, m\<lparr>mx_coroutines := [running]\<rparr>) else (False, m))"

text \<open>\<^verbatim>\<open>unlock\<close> also returns the coroutine it wakes.\<close>

definition mutex_unlock :: "co \<Rightarrow> mutex \<Rightarrow> mutex_error + co option \<times> mutex" where
  "mutex_unlock running m =
     (case mx_coroutines m of
        [] \<Rightarrow> Inl AssertEmpty
      | front # rest \<Rightarrow>
          (if front \<noteq> running then Inl AssertFront
           else Inr ((case rest of [] \<Rightarrow> None | pending # _ \<Rightarrow> Some pending), m\<lparr>mx_coroutines := rest\<rparr>)))"

section \<open>Handles\<close>

text \<open>The copies and destructions of \<^verbatim>\<open>Mutex\<close> handles that share one mutex.\<close>

datatype handle_op = CopyHandle | DestroyHandle

fun run_handles :: "handle_op list \<Rightarrow> mutex \<Rightarrow> mutex_error + mutex option" where
  "run_handles [] m = Inr (Some m)"
| "run_handles (CopyHandle # ops) m = run_handles ops (mutex_ref m)"
| "run_handles (DestroyHandle # ops) m =
     (case mutex_unref m of
        Inl e \<Rightarrow> Inl e
      | Inr None \<Rightarrow> (if ops = [] then Inr None else Inl AssertRefcnt)
      | Inr (Some m1) \<Rightarrow> run_handles ops m1)"

section \<open>The protocol\<close>

text \<open>
  \<open>ms_suspended\<close>, \<open>ms_ready\<close> and \<open>ms_interrupted\<close> are the coroutines inside \<^verbatim>\<open>lock\<close>: suspended,
  woken by an \<^verbatim>\<open>unlock\<close>, or handed an exception by the exit of the process, which interrupts all
  suspended coroutines together (\<open>ms_exiting\<close>). \<open>ms_owner\<close> is the coroutine whose \<^verbatim>\<open>lock\<close> or
  \<^verbatim>\<open>try_lock\<close> has returned and that has not unlocked; \<open>ms_failed\<close> is set when an assertion fails
  or the erase is undefined. \<open>ms_arrived\<close> and \<open>ms_granted\<close> record the coroutines in the order
  in which they entered \<^verbatim>\<open>lock\<close> and got the mutex.
\<close>

record mutex_sys =
  ms_mutex :: mutex
  ms_suspended :: "co set"
  ms_ready :: "co set"
  ms_interrupted :: "co set"
  ms_exiting :: bool
  ms_owner :: "co option"
  ms_failed :: bool
  ms_arrived :: "co list"
  ms_granted :: "co list"

definition mutex_start :: mutex_sys where
  "mutex_start = \<lparr>ms_mutex = mutex_create, ms_suspended = {}, ms_ready = {}, ms_interrupted = {},
     ms_exiting = False, ms_owner = None, ms_failed = False, ms_arrived = [], ms_granted = []\<rparr>"

definition acquire :: "co \<Rightarrow> mutex_sys \<Rightarrow> mutex_sys" where
  "acquire c s = s\<lparr>ms_owner := Some c, ms_granted := ms_granted s @ [c]\<rparr>"

text \<open>A coroutine that holds the mutex or waits for it does not enter \<^verbatim>\<open>lock\<close> again.\<close>

definition outside :: "co \<Rightarrow> mutex_sys \<Rightarrow> bool" where
  "outside c s \<longleftrightarrow> ms_owner s \<noteq> Some c \<and> c \<notin> ms_suspended s \<union> ms_ready s \<union> ms_interrupted s"

fun enter_lock :: "co \<Rightarrow> mutex_sys \<Rightarrow> mutex_sys" where
  "enter_lock c s =
     (case mutex_lock c (ms_mutex s) of
        Inl e \<Rightarrow> s\<lparr>ms_failed := True\<rparr>
      | Inr (held, m) \<Rightarrow>
          (let s1 = s\<lparr>ms_mutex := m, ms_arrived := ms_arrived s @ [c]\<rparr>
           in if held then acquire c s1 else s1\<lparr>ms_suspended := insert c (ms_suspended s1)\<rparr>))"

fun resume_lock :: "co \<Rightarrow> mutex_sys \<Rightarrow> mutex_sys" where
  "resume_lock c s =
     (case lock_resumed c (ms_mutex s) of
        Inl e \<Rightarrow> s\<lparr>ms_failed := True\<rparr>
      | Inr m \<Rightarrow> acquire c (s\<lparr>ms_mutex := m, ms_ready := ms_ready s - {c}\<rparr>))"

fun leave_lock :: "co \<Rightarrow> mutex_sys \<Rightarrow> mutex_sys" where
  "leave_lock c s =
     (case lock_interrupted c (ms_mutex s) of
        Inl e \<Rightarrow> s\<lparr>ms_failed := True\<rparr>
      | Inr m \<Rightarrow> s\<lparr>ms_mutex := m, ms_interrupted := ms_interrupted s - {c}\<rparr>)"

fun do_unlock :: "co \<Rightarrow> mutex_sys \<Rightarrow> mutex_sys" where
  "do_unlock c s =
     (case mutex_unlock c (ms_mutex s) of
        Inl e \<Rightarrow> s\<lparr>ms_failed := True\<rparr>
      | Inr (woken, m) \<Rightarrow>
          (let s1 = s\<lparr>ms_mutex := m, ms_owner := None\<rparr>
           in case woken of
                None \<Rightarrow> s1
              | Some w \<Rightarrow>
                  (if w \<in> ms_suspended s1
                   then s1\<lparr>ms_suspended := ms_suspended s1 - {w}, ms_ready := insert w (ms_ready s1)\<rparr>
                   else s1)))"

inductive mutex_step :: "mutex_sys \<Rightarrow> mutex_sys \<Rightarrow> bool" where
  mx_lock: "outside c s \<Longrightarrow> mutex_step s (enter_lock c s)"
| mx_try: "outside c s \<Longrightarrow> mutex_try_lock c (ms_mutex s) = (held, m) \<Longrightarrow>
    mutex_step s (if held then acquire c (s\<lparr>ms_mutex := m, ms_arrived := ms_arrived s @ [c]\<rparr>) else s\<lparr>ms_mutex := m\<rparr>)"
| mx_resumed: "c \<in> ms_ready s \<Longrightarrow> mutex_step s (resume_lock c s)"
| mx_interrupted: "c \<in> ms_interrupted s \<Longrightarrow> mutex_step s (leave_lock c s)"
| mx_unlock: "ms_owner s = Some c \<Longrightarrow> mutex_step s (do_unlock c s)"
| mx_exit: "mutex_step s (s\<lparr>ms_exiting := True, ms_interrupted := ms_interrupted s \<union> ms_suspended s, ms_suspended := {}\<rparr>)"

section \<open>The invariant\<close>

definition mutex_inv :: "mutex_sys \<Rightarrow> bool" where
  "mutex_inv s \<longleftrightarrow>
     (let cs = mx_coroutines (ms_mutex s); waiting = (case ms_owner s of None \<Rightarrow> cs | Some c \<Rightarrow> tl cs) in
       distinct cs \<and> \<not> ms_failed s \<and>
       (\<forall>c. ms_owner s = Some c \<longrightarrow> cs \<noteq> [] \<and> hd cs = c) \<and>
       set waiting = ms_suspended s \<union> ms_ready s \<union> ms_interrupted s \<and>
       ms_suspended s \<inter> ms_ready s = {} \<and> ms_suspended s \<inter> ms_interrupted s = {} \<and> ms_ready s \<inter> ms_interrupted s = {} \<and>
       (\<forall>c\<in>ms_ready s. ms_owner s = None \<and> cs \<noteq> [] \<and> hd cs = c) \<and>
       (\<not> ms_exiting s \<longrightarrow> ms_interrupted s = {} \<and> ms_arrived s = ms_granted s @ waiting \<and>
          (ms_owner s = None \<and> cs \<noteq> [] \<longrightarrow> hd cs \<in> ms_ready s)))"

end
