(* ===== verification/Mutex_Spec.thy ===== *)
theory Mutex_Spec
  imports Mutex
begin

text \<open>
  The mutex is one: at most one coroutine holds it, it is handed over in the order of arrival,
  no assertion of its code fails, and it is always going to be handed on. Its reference count
  never goes down.
\<close>

section \<open>The invariant is kept\<close>

lemma mutex_inv_start: "mutex_inv mutex_start"
  by (simp add: mutex_inv_def mutex_start_def mutex_create_def)

lemma mutex_invE:
  assumes "mutex_inv s"
  obtains (free) "ms_owner s = None" "distinct (mx_coroutines (ms_mutex s))" "\<not> ms_failed s"
      "set (mx_coroutines (ms_mutex s)) = ms_suspended s \<union> ms_ready s \<union> ms_interrupted s"
      "ms_suspended s \<inter> ms_ready s = {}" "ms_suspended s \<inter> ms_interrupted s = {}" "ms_ready s \<inter> ms_interrupted s = {}"
      "\<forall>c\<in>ms_ready s. mx_coroutines (ms_mutex s) \<noteq> [] \<and> hd (mx_coroutines (ms_mutex s)) = c"
      "\<not> ms_exiting s \<longrightarrow> ms_interrupted s = {} \<and> ms_arrived s = ms_granted s @ mx_coroutines (ms_mutex s) \<and>
        (mx_coroutines (ms_mutex s) \<noteq> [] \<longrightarrow> hd (mx_coroutines (ms_mutex s)) \<in> ms_ready s)"
  | (held) c cs where "ms_owner s = Some c" "mx_coroutines (ms_mutex s) = c # cs" "distinct (c # cs)" "\<not> ms_failed s"
      "set cs = ms_suspended s \<union> ms_interrupted s" "ms_ready s = {}" "ms_suspended s \<inter> ms_interrupted s = {}"
      "\<not> ms_exiting s \<longrightarrow> ms_interrupted s = {} \<and> ms_arrived s = ms_granted s @ cs"
proof (cases "ms_owner s")
  case None
  with assms show thesis by (intro free) (simp_all add: mutex_inv_def Let_def)
next
  case (Some c)
  with assms obtain cs where "mx_coroutines (ms_mutex s) = c # cs"
    by (cases "mx_coroutines (ms_mutex s)") (auto simp: mutex_inv_def Let_def)
  with Some assms show thesis by (intro held [of c cs]) (auto simp: mutex_inv_def Let_def)
qed

lemma free_inv:
  assumes "ms_owner s = None" "mx_coroutines (ms_mutex s) = cs" "distinct cs" "\<not> ms_failed s"
    "set cs = ms_suspended s \<union> ms_ready s \<union> ms_interrupted s"
    "ms_suspended s \<inter> ms_ready s = {}" "ms_suspended s \<inter> ms_interrupted s = {}" "ms_ready s \<inter> ms_interrupted s = {}"
    "\<forall>c\<in>ms_ready s. cs \<noteq> [] \<and> hd cs = c"
    "\<not> ms_exiting s \<longrightarrow> ms_interrupted s = {} \<and> ms_arrived s = ms_granted s @ cs \<and> (cs \<noteq> [] \<longrightarrow> hd cs \<in> ms_ready s)"
  shows "mutex_inv s"
  using assms by (simp add: mutex_inv_def Let_def)

lemma held_inv:
  assumes "ms_owner s = Some c" "mx_coroutines (ms_mutex s) = c # cs" "distinct (c # cs)" "\<not> ms_failed s"
    "set cs = ms_suspended s \<union> ms_interrupted s" "ms_ready s = {}" "ms_suspended s \<inter> ms_interrupted s = {}"
    "\<not> ms_exiting s \<longrightarrow> ms_interrupted s = {} \<and> ms_arrived s = ms_granted s @ cs"
  shows "mutex_inv s"
  using assms by (simp add: mutex_inv_def Let_def)

lemma count_once: "distinct xs \<Longrightarrow> x \<in> set xs \<Longrightarrow> count_list xs x = 1"
  by (induction xs) auto

lemma lock_inv:
  assumes inv: "mutex_inv s" and out: "outside c s"
  shows "mutex_inv (enter_lock c s)"
  using inv
proof (cases rule: mutex_invE)
  case free
  show ?thesis
  proof (cases "mx_coroutines (ms_mutex s)")
    case Nil
    with free have "ms_suspended s = {}" "ms_ready s = {}" "ms_interrupted s = {}" by simp_all
    with Nil free show ?thesis
      by (intro held_inv [of _ c "[]"]) (simp_all add: mutex_lock_def acquire_def Let_def)
  next
    case (Cons d ds)
    with out free have c: "c \<notin> set (d # ds)" by (simp add: outside_def)
    have e: "enter_lock c s = s\<lparr>ms_mutex := (ms_mutex s)\<lparr>mx_coroutines := (d # ds) @ [c]\<rparr>,
        ms_arrived := ms_arrived s @ [c], ms_suspended := insert c (ms_suspended s)\<rparr>"
      using Cons c by (auto simp: mutex_lock_def Let_def)
    show ?thesis
      unfolding e using free Cons c out
      by (intro free_inv [of _ "(d # ds) @ [c]"]) (auto simp: outside_def)
  qed
next
  case (held d ds)
  with out have c: "c \<notin> set (d # ds)" by (auto simp: outside_def)
  have e: "enter_lock c s = s\<lparr>ms_mutex := (ms_mutex s)\<lparr>mx_coroutines := (d # ds) @ [c]\<rparr>,
      ms_arrived := ms_arrived s @ [c], ms_suspended := insert c (ms_suspended s)\<rparr>"
    using held c by (auto simp: mutex_lock_def Let_def)
  show ?thesis
    unfolding e using held c out
    by (intro held_inv [of _ d "ds @ [c]"]) (auto simp: outside_def)
qed

lemma try_inv:
  assumes inv: "mutex_inv s" and out: "outside c s" and t: "mutex_try_lock c (ms_mutex s) = (held, m)"
  shows "mutex_inv (if held then acquire c (s\<lparr>ms_mutex := m, ms_arrived := ms_arrived s @ [c]\<rparr>) else s\<lparr>ms_mutex := m\<rparr>)"
proof (cases held)
  case False
  with t have "m = ms_mutex s" by (simp add: mutex_try_lock_def split: if_splits)
  with False inv show ?thesis by simp
next
  case True
  with t have e: "mx_coroutines (ms_mutex s) = []" "m = (ms_mutex s)\<lparr>mx_coroutines := [c]\<rparr>"
    by (auto simp: mutex_try_lock_def split: if_splits)
  from inv show ?thesis
  proof (cases rule: mutex_invE)
    case free
    with e have "ms_suspended s = {}" "ms_ready s = {}" "ms_interrupted s = {}" by simp_all
    with e True free show ?thesis
      by (intro held_inv [of _ c "[]"]) (simp_all add: acquire_def)
  next
    case held
    with e show ?thesis by simp
  qed
qed

lemma resumed_inv:
  assumes inv: "mutex_inv s" and c: "c \<in> ms_ready s"
  shows "mutex_inv (resume_lock c s)"
  using inv
proof (cases rule: mutex_invE)
  case free
  from free(8) c obtain ds where ds: "mx_coroutines (ms_mutex s) = c # ds"
    by (cases "mx_coroutines (ms_mutex s)") auto
  have "x = c" if "x \<in> ms_ready s" for x using free(8) that ds by simp
  with c have r: "ms_ready s = {c}" by blast
  have "insert c (set ds) = insert c (ms_suspended s \<union> ms_interrupted s)" "c \<notin> set ds"
      "c \<notin> ms_suspended s \<union> ms_interrupted s"
    using free(2,4,5,7) r ds by auto
  then have "set ds = ms_suspended s \<union> ms_interrupted s" by (metis insert_ident)
  with free ds r show ?thesis
    by (intro held_inv [of _ c ds]) (simp_all add: lock_resumed_def acquire_def)
next
  case held
  with c show ?thesis by simp
qed

lemma interrupted_inv:
  assumes inv: "mutex_inv s" and c: "c \<in> ms_interrupted s"
  shows "mutex_inv (leave_lock c s)"
  using inv
proof (cases rule: mutex_invE)
  case free
  let ?cs = "mx_coroutines (ms_mutex s)"
  have "c \<in> set ?cs" using free c by simp
  then have one: "count_list ?cs c = 1" using free by (simp add: count_once)
  have nr: "c \<notin> ms_ready s" "c \<notin> ms_suspended s" "ms_exiting s" using free c by auto
  have e: "leave_lock c s = s\<lparr>ms_mutex := (ms_mutex s)\<lparr>mx_coroutines := removeAll c ?cs\<rparr>,
      ms_interrupted := ms_interrupted s - {c}\<rparr>"
    using one by (simp add: lock_interrupted_def)
  have "\<forall>d\<in>ms_ready s. removeAll c ?cs \<noteq> [] \<and> hd (removeAll c ?cs) = d"
    using free(8) nr(1) by (cases ?cs) auto
  with free nr show ?thesis
    unfolding e by (intro free_inv [of _ "removeAll c ?cs"]) (auto simp: distinct_removeAll)
next
  case (held d ds)
  then have "c \<in> set (d # ds)" using c by simp
  then have one: "count_list (d # ds) c = 1" using held by (intro count_once) simp_all
  have nr: "c \<noteq> d" "c \<notin> ms_suspended s" "ms_exiting s" using held c by auto
  have e: "leave_lock c s = s\<lparr>ms_mutex := (ms_mutex s)\<lparr>mx_coroutines := d # removeAll c ds\<rparr>,
      ms_interrupted := ms_interrupted s - {c}\<rparr>"
    using one held nr by (simp add: lock_interrupted_def)
  show ?thesis
    unfolding e using held nr by (intro held_inv [of _ d "removeAll c ds"]) (auto simp: distinct_removeAll)
qed

lemma unlock_inv:
  assumes inv: "mutex_inv s" and c: "ms_owner s = Some c"
  shows "mutex_inv (do_unlock c s)"
  using inv
proof (cases rule: mutex_invE)
  case free
  with c show ?thesis by simp
next
  case (held d ds)
  with c have d: "d = c" by simp
  show ?thesis
  proof (cases ds)
    case Nil
    with held d show ?thesis
      by (intro free_inv [of _ "[]"]) (simp_all add: mutex_unlock_def)
  next
    case (Cons w ws)
    show ?thesis
    proof (cases "w \<in> ms_suspended s")
      case True
      then have e: "do_unlock c s = s\<lparr>ms_mutex := (ms_mutex s)\<lparr>mx_coroutines := w # ws\<rparr>, ms_owner := None,
          ms_suspended := ms_suspended s - {w}, ms_ready := {w}\<rparr>"
        using held d Cons by (simp add: mutex_unlock_def Let_def)
      show ?thesis
        unfolding e using held Cons True by (intro free_inv [of _ "w # ws"]) auto
    next
      case False
      then have e: "do_unlock c s = s\<lparr>ms_mutex := (ms_mutex s)\<lparr>mx_coroutines := w # ws\<rparr>, ms_owner := None\<rparr>"
        using held d Cons by (simp add: mutex_unlock_def Let_def)
      have "ms_exiting s" using held(5,8) Cons False by auto
      then show ?thesis
        unfolding e using held Cons by (intro free_inv [of _ "w # ws"]) auto
    qed
  qed
qed

lemma exit_inv:
  assumes inv: "mutex_inv s"
  shows "mutex_inv (s\<lparr>ms_exiting := True, ms_interrupted := ms_interrupted s \<union> ms_suspended s, ms_suspended := {}\<rparr>)"
  using inv
proof (cases rule: mutex_invE)
  case free
  then show ?thesis by (intro free_inv [OF _ refl]) auto
next
  case (held c cs)
  then show ?thesis by (intro held_inv [of _ c cs]) auto
qed

lemma mutex_inv_step: "mutex_inv s \<Longrightarrow> mutex_step s t \<Longrightarrow> mutex_inv t"
  by (erule mutex_step.cases)
    (simp_all only: lock_inv try_inv resumed_inv interrupted_inv unlock_inv exit_inv)

interpretation mutex_run: invariant_contract "\<lambda>s. s = mutex_start" mutex_step mutex_inv
  by unfold_locales (auto intro: mutex_inv_start mutex_inv_step)

section \<open>What it means\<close>

lemma owner_kept:
  assumes "mutex_inv s" "mutex_step s t" "ms_owner s = Some c"
  shows "ms_owner t = Some c \<or> t = do_unlock c s"
proof -
  from assms(1,3) obtain cs where cs: "mx_coroutines (ms_mutex s) = c # cs" "ms_ready s = {}"
    by (cases rule: mutex_invE) auto
  from assms(2) show ?thesis
  proof cases
    case (mx_lock d)
    with cs assms(3) show ?thesis by (simp add: mutex_lock_def Let_def)
  next
    case (mx_try d h m)
    with cs assms(3) show ?thesis by (auto simp: mutex_try_lock_def)
  next
    case (mx_resumed d)
    with cs show ?thesis by simp
  next
    case (mx_interrupted d)
    with assms(3) show ?thesis by (simp add: lock_interrupted_def)
  qed (use assms(3) in simp_all)
qed

text \<open>A run for the witnesses: one coroutine takes the mutex, a second waits for it.\<close>

lemma mutex_demo:
  "\<exists>s. reach (\<lambda>s. s = mutex_start) mutex_step s \<and> ms_owner s = Some 1 \<and> ms_suspended s = {2} \<and> \<not> ms_exiting s"
proof -
  have "reach (\<lambda>s. s = mutex_start) mutex_step mutex_start" by (rule reach_init) simp
  moreover have "mutex_step mutex_start (enter_lock 1 mutex_start)"
    by (rule mx_lock) (simp add: outside_def mutex_start_def)
  moreover have "mutex_step (enter_lock 1 mutex_start) (enter_lock 2 (enter_lock 1 mutex_start))"
    by (rule mx_lock) (simp add: outside_def mutex_start_def mutex_create_def mutex_lock_def acquire_def)
  ultimately have "reach (\<lambda>s. s = mutex_start) mutex_step (enter_lock 2 (enter_lock 1 mutex_start))"
    by (meson reach_step)
  then show ?thesis
    by (intro exI conjI) (assumption, simp_all add: mutex_start_def mutex_create_def mutex_lock_def acquire_def)
qed

text \<open>C24
  Mutual exclusion, with any number of coroutines, \<^verbatim>\<open>try_lock\<close>, and an exit of the process that
  interrupts the waiting ones: no assertion of the mutex fails and its erase is never undefined;
  while a coroutine holds the mutex it is the front of the deque, all that wait are behind it,
  each once, and no step makes another coroutine the holder before it has unlocked.\<close>

theorem mutex_exclusive:
  assumes "reach (\<lambda>s. s = mutex_start) mutex_step s"
  shows "\<not> ms_failed s \<and> (\<forall>c. ms_owner s = Some c \<longrightarrow>
    (\<exists>waiting. mx_coroutines (ms_mutex s) = c # waiting \<and> distinct (c # waiting) \<and>
      set waiting = ms_suspended s \<union> ms_interrupted s) \<and>
    (\<forall>t. mutex_step s t \<longrightarrow> ms_owner t = Some c \<or> t = do_unlock c s))"
proof -
  have inv: "mutex_inv s" using assms by (rule mutex_run.inv_reach)
  then show ?thesis using owner_kept [OF inv] by (cases rule: mutex_invE) auto
qed

theorem mutex_exclusive_witness:
  "\<exists>s. reach (\<lambda>s. s = mutex_start) mutex_step s \<and> ms_owner s = Some 1 \<and> ms_suspended s = {2} \<and>
    (\<exists>waiting. mx_coroutines (ms_mutex s) = 1 # waiting \<and> 2 \<in> set waiting)"
proof -
  obtain s where s: "reach (\<lambda>s. s = mutex_start) mutex_step s" "ms_owner s = Some 1" "ms_suspended s = {2}"
    using mutex_demo by blast
  from mutex_exclusive [OF s(1)] s show ?thesis by auto
qed

text \<open>The mutex is fair and never stuck: as long as the process is not exiting, the coroutines that
  have got the mutex and those that wait are, in this order, the coroutines that came; and
  whenever nobody holds it and some coroutine waits, the first of these has been woken.\<close>

theorem mutex_fair:
  assumes "reach (\<lambda>s. s = mutex_start) mutex_step s" "\<not> ms_exiting s"
  shows "\<exists>waiting. ms_arrived s = ms_granted s @ waiting \<and> set waiting = ms_suspended s \<union> ms_ready s \<and>
    (ms_owner s = None \<and> waiting \<noteq> [] \<longrightarrow> hd waiting \<in> ms_ready s)"
proof -
  have "mutex_inv s" using assms(1) by (rule mutex_run.inv_reach)
  then show ?thesis
  proof (cases rule: mutex_invE)
    case free
    with assms(2) show ?thesis by (intro exI [of _ "mx_coroutines (ms_mutex s)"]) simp
  next
    case (held c cs)
    with assms(2) show ?thesis by (intro exI [of _ cs]) simp
  qed
qed

theorem mutex_fair_witness:
  "\<exists>s waiting. reach (\<lambda>s. s = mutex_start) mutex_step s \<and> ms_owner s = Some 1 \<and>
    ms_arrived s = ms_granted s @ waiting \<and> 2 \<in> set waiting"
proof -
  obtain s where s: "reach (\<lambda>s. s = mutex_start) mutex_step s" "ms_owner s = Some 1" "ms_suspended s = {2}"
      "\<not> ms_exiting s"
    using mutex_demo by blast
  from mutex_fair [OF s(1,4)] s show ?thesis by auto
qed

lemma run_handles_count:
  "0 < mx_refcnt m \<Longrightarrow> \<exists>m'. run_handles ops m = Inr (Some m') \<and>
    mx_refcnt m' = mx_refcnt m + int (count_list ops CopyHandle)"
proof (induction ops arbitrary: m)
  case (Cons op ops)
  show ?case
  proof (cases op)
    case CopyHandle
    with Cons.IH [of "mutex_ref m"] Cons.prems show ?thesis by (auto simp: mutex_ref_def)
  next
    case DestroyHandle
    with Cons.IH [of m] Cons.prems show ?thesis by (auto simp: mutex_unref_def Let_def)
  qed
qed simp

text \<open>A mutex is never freed: \<^verbatim>\<open>unref\<close> subtracts nothing, so however many handles are copied and
  destroyed, the count is one more than the number of copies and the mutex is still there, also
  when every handle is gone.\<close>

theorem mutex_never_freed:
  "\<exists>m. run_handles ops mutex_create = Inr (Some m) \<and> mx_refcnt m = 1 + int (count_list ops CopyHandle)"
  using run_handles_count [of mutex_create ops] by (simp add: mutex_create_def)

end
