(* ===== verification/Session_Handle.thy ===== *)
theory Session_Handle
  imports Dispatch
begin

text \<open>
  The move-only handle \<^verbatim>\<open>Session\<close> (\<^verbatim>\<open>src/process.hpp\<close>, \<^verbatim>\<open>src/process.cpp\<close>) that gives a
  session back to its process: construction, move construction, move assignment (which may be
  to itself) and destruction, over a store of variables.
\<close>

section \<open>The class\<close>

record session_handle =
  sh_process :: nat
  sh_session :: session_t

definition null_handle :: session_handle where
  "null_handle = \<lparr>sh_process = 0, sh_session = session_t 0\<rparr>"

text \<open>The releases are recorded in the order of the calls of \<^verbatim>\<open>Session::close\<close>.\<close>

record handle_store =
  hs_vars :: "nat \<Rightarrow> session_handle option"
  hs_released :: "(nat \<times> session_t) list"

definition handle_close :: "session_handle \<Rightarrow> handle_store \<Rightarrow> handle_store" where
  "handle_close h st = st\<lparr>hs_released := hs_released st @ [(sh_process h, sh_session h)]\<rparr>"

definition close_if_set :: "session_handle \<Rightarrow> handle_store \<Rightarrow> handle_store" where
  "close_if_set h st = (if sid_set (sh_session h) then handle_close h st else st)"

definition handle_construct :: "nat \<Rightarrow> nat \<Rightarrow> session_t \<Rightarrow> handle_store \<Rightarrow> handle_store" where
  "handle_construct v process session st =
     st\<lparr>hs_vars := (hs_vars st)(v := Some \<lparr>sh_process = process, sh_session = session\<rparr>)\<rparr>"

definition handle_move :: "nat \<Rightarrow> nat \<Rightarrow> handle_store \<Rightarrow> handle_store option" where
  "handle_move v other st =
     (case hs_vars st other of
        None \<Rightarrow> None
      | Some h \<Rightarrow> Some (st\<lparr>hs_vars := (hs_vars st)(v := Some h, other := Some null_handle)\<rparr>))"

definition handle_assign :: "nat \<Rightarrow> nat \<Rightarrow> handle_store \<Rightarrow> handle_store option" where
  "handle_assign v other st =
     (case hs_vars st v of
        None \<Rightarrow> None
      | Some t \<Rightarrow>
          (let st1 = close_if_set t st
           in case hs_vars st1 other of
                None \<Rightarrow> None
              | Some h \<Rightarrow> Some (st1\<lparr>hs_vars := (hs_vars st1)(v := Some h, other := Some null_handle)\<rparr>)))"

definition handle_destroy :: "nat \<Rightarrow> handle_store \<Rightarrow> handle_store option" where
  "handle_destroy v st =
     (case hs_vars st v of
        None \<Rightarrow> None
      | Some h \<Rightarrow> Some ((close_if_set h st)\<lparr>hs_vars := (hs_vars st)(v := None)\<rparr>))"

section \<open>Programs over handles\<close>

datatype handle_cmd =
    NewHandle nat nat session_t
  | MoveConstruct nat nat
  | MoveAssign nat nat
  | DestroyVar nat

text \<open>A variable is constructed once before it is destroyed.\<close>

fun run_cmds :: "handle_cmd list \<Rightarrow> handle_store \<Rightarrow> handle_store option" where
  "run_cmds [] st = Some st"
| "run_cmds (NewHandle v process session # cmds) st =
     (if hs_vars st v \<noteq> None then None else run_cmds cmds (handle_construct v process session st))"
| "run_cmds (MoveConstruct v other # cmds) st =
     (if hs_vars st v \<noteq> None then None else Option.bind (handle_move v other st) (run_cmds cmds))"
| "run_cmds (MoveAssign v other # cmds) st = Option.bind (handle_assign v other st) (run_cmds cmds)"
| "run_cmds (DestroyVar v # cmds) st = Option.bind (handle_destroy v st) (run_cmds cmds)"

definition no_handles :: handle_store where
  "no_handles = \<lparr>hs_vars = (\<lambda>_. None), hs_released = []\<rparr>"

text \<open>The sessions that the handles of a program were made for.\<close>

fun issued :: "handle_cmd list \<Rightarrow> (nat \<times> session_t) list" where
  "issued [] = []"
| "issued (NewHandle v process session # cmds) =
     (if sid_set session then (process, session) # issued cmds else issued cmds)"
| "issued (_ # cmds) = issued cmds"

section \<open>Every session is given back once\<close>

fun owns :: "session_handle option \<Rightarrow> (nat \<times> session_t) multiset" where
  "owns None = {#}"
| "owns (Some h) = (if sid_set (sh_session h) then {#(sh_process h, sh_session h)#} else {#})"

fun vars_of :: "handle_cmd \<Rightarrow> nat set" where
  "vars_of (NewHandle v _ _) = {v}"
| "vars_of (MoveConstruct v w) = {v, w}"
| "vars_of (MoveAssign v w) = {v, w}"
| "vars_of (DestroyVar v) = {v}"

definition live :: "nat set \<Rightarrow> handle_store \<Rightarrow> (nat \<times> session_t) multiset" where
  "live V st = (\<Sum>v\<in>V. owns (hs_vars st v))"

lemma live_upd:
  assumes "finite V" "v \<in> V"
  shows "(\<Sum>w\<in>V. owns ((f(v := x)) w)) + owns (f v) = (\<Sum>w\<in>V. owns (f w)) + owns x"
  using assms by (simp add: sum.remove [of V v] ac_simps)

lemma owns_null [simp]: "owns (Some null_handle) = {#}"
  by (simp add: null_handle_def sid_set_def)

lemma close_released: "mset (hs_released (close_if_set h st)) = mset (hs_released st) + owns (Some h)"
  by (simp add: close_if_set_def handle_close_def)

lemma close_vars [simp]: "hs_vars (close_if_set h st) = hs_vars st"
  by (simp add: close_if_set_def handle_close_def)

definition account :: "nat set \<Rightarrow> handle_store \<Rightarrow> (nat \<times> session_t) multiset" where
  "account V st = mset (hs_released st) + live V st"

lemma account_construct:
  assumes "finite V" "v \<in> V" "hs_vars st v = None"
  shows "account V (handle_construct v process session st) =
    account V st + (if sid_set session then {#(process, session)#} else {#})"
  using live_upd [OF assms(1,2), of "hs_vars st" "Some \<lparr>sh_process = process, sh_session = session\<rparr>"] assms(3)
  by (simp add: account_def live_def handle_construct_def ac_simps)

lemma swap_cancel: "S2 + H = S1 \<Longrightarrow> S1 + F = S + H \<Longrightarrow> S2 + F = S" for S :: "'a multiset"
proof -
  assume "S2 + H = S1" "S1 + F = S + H"
  then have "(S2 + F) + H = S + H" by (simp only: ac_simps)
  then show "S2 + F = S" by (rule add_right_imp_eq)
qed

text \<open>Two updates, the second with the null handle: the moves.\<close>

lemma live_move:
  assumes "finite V" "v \<in> V" "w \<in> V" "f w = Some h"
  shows "(\<Sum>u\<in>V. owns ((f(v := Some h, w := Some null_handle)) u)) + (if v = w then owns (Some h) else owns (f v))
    = (\<Sum>u\<in>V. owns (f u))"
proof -
  have w: "(f(v := Some h)) w = Some h" using assms(4) by simp
  have "(\<Sum>u\<in>V. owns ((f(v := Some h, w := Some null_handle)) u)) + owns (Some h)
      = (\<Sum>u\<in>V. owns ((f(v := Some h)) u))"
    using live_upd [OF assms(1,3), of "f(v := Some h)" "Some null_handle"]
    by (simp only: owns_null add.right_neutral w)
  then have sum: "(\<Sum>u\<in>V. owns ((f(v := Some h, w := Some null_handle)) u)) + owns (f v) = (\<Sum>u\<in>V. owns (f u))"
    using live_upd [OF assms(1,2), of f "Some h"] by (rule swap_cancel)
  have same: "(if v = w then owns (Some h) else owns (f v)) = owns (f v)" using assms(4) by (simp del: owns.simps)
  show ?thesis unfolding same by (rule sum)
qed

lemma account_move:
  assumes "finite V" "v \<in> V" "w \<in> V" "hs_vars st v = None" "handle_move v w st = Some st'"
  shows "account V st' = account V st"
proof -
  obtain h where h: "hs_vars st w = Some h" "st' = st\<lparr>hs_vars := (hs_vars st)(v := Some h, w := Some null_handle)\<rparr>"
    using assms(5) by (auto simp: handle_move_def split: option.splits)
  with assms(4) have "v \<noteq> w" by auto
  with live_move [where f = "hs_vars st", OF assms(1-3) h(1)] assms(4) show ?thesis by (simp add: account_def live_def h(2))
qed

lemma account_assign:
  assumes "finite V" "v \<in> V" "w \<in> V" "handle_assign v w st = Some st'"
  shows "account V st' = account V st"
proof -
  obtain t h where h: "hs_vars st v = Some t" "hs_vars st w = Some h"
      "st' = (close_if_set t st)\<lparr>hs_vars := (hs_vars st)(v := Some h, w := Some null_handle)\<rparr>"
    using assms(4) by (auto simp: handle_assign_def Let_def split: option.splits)
  have "(if v = w then owns (Some h) else owns (hs_vars st v)) = owns (Some t)" using h(1,2) by auto
  then have "(\<Sum>u\<in>V. owns (((hs_vars st)(v := Some h, w := Some null_handle)) u)) + owns (Some t)
      = (\<Sum>u\<in>V. owns (hs_vars st u))"
    using live_move [where f = "hs_vars st", OF assms(1-3) h(2)] by (simp only:)
  then show ?thesis by (simp add: account_def live_def h(3) close_released ac_simps del: fun_upd_apply owns.simps)
qed

lemma account_destroy:
  assumes "finite V" "v \<in> V" "handle_destroy v st = Some st'"
  shows "account V st' = account V st"
proof -
  obtain h where h: "hs_vars st v = Some h" "st' = (close_if_set h st)\<lparr>hs_vars := (hs_vars st)(v := None)\<rparr>"
    using assms(3) by (auto simp: handle_destroy_def split: option.splits)
  have "(\<Sum>u\<in>V. owns (((hs_vars st)(v := None)) u)) + owns (Some h) = (\<Sum>u\<in>V. owns (hs_vars st u))"
    using live_upd [OF assms(1,2), of "hs_vars st" None] h(1) by simp
  then show ?thesis by (simp add: account_def live_def h(2) close_released ac_simps del: fun_upd_apply owns.simps)
qed

lemma account_run:
  assumes "finite V" "run_cmds cmds st = Some st'" "\<Union> (vars_of ` set cmds) \<subseteq> V"
  shows "account V st' = account V st + mset (issued cmds)"
  using assms(2,3)
proof (induction cmds arbitrary: st)
  case (Cons cmd cmds)
  have sub: "\<Union> (vars_of ` set cmds) \<subseteq> V" using Cons.prems(2) by simp
  show ?case
  proof (cases cmd)
    case (NewHandle v process session)
    with Cons.prems have "run_cmds cmds (handle_construct v process session st) = Some st'" "hs_vars st v = None" "v \<in> V"
      by (auto split: if_splits)
    with Cons.IH [OF this(1) sub] account_construct [OF assms(1)] NewHandle show ?thesis by simp
  next
    case (MoveConstruct v w)
    with Cons.prems obtain st1 where "handle_move v w st = Some st1" "run_cmds cmds st1 = Some st'" "hs_vars st v = None"
        "v \<in> V" "w \<in> V"
      by (auto simp: bind_eq_Some_conv split: if_splits)
    with Cons.IH [OF this(2) sub] account_move [OF assms(1)] MoveConstruct show ?thesis by simp
  next
    case (MoveAssign v w)
    with Cons.prems obtain st1 where "handle_assign v w st = Some st1" "run_cmds cmds st1 = Some st'" "v \<in> V" "w \<in> V"
      by (auto simp: bind_eq_Some_conv)
    with Cons.IH [OF this(2) sub] account_assign [OF assms(1)] MoveAssign show ?thesis by simp
  next
    case (DestroyVar v)
    with Cons.prems obtain st1 where "handle_destroy v st = Some st1" "run_cmds cmds st1 = Some st'" "v \<in> V"
      by (auto simp: bind_eq_Some_conv)
    with Cons.IH [OF this(2) sub] account_destroy [OF assms(1)] DestroyVar show ?thesis by simp
  qed
qed simp

text \<open>C30
  Sessions do not leak and are not given back twice: however handles are created, moved,
  assigned (also to themselves) and destroyed, when no handle is left the sessions that were
  released are exactly those that were issued, each once.\<close>

theorem sessions_released_once:
  assumes "run_cmds cmds no_handles = Some st" "\<forall>v. hs_vars st v = None"
  shows "mset (hs_released st) = mset (issued cmds)"
proof -
  let ?V = "\<Union> (vars_of ` set cmds)"
  have "finite (vars_of cmd)" for cmd by (cases cmd) simp_all
  then have "account ?V st = account ?V no_handles + mset (issued cmds)"
    by (intro account_run [OF _ assms(1)]) auto
  with assms(2) show ?thesis by (simp add: account_def live_def no_handles_def)
qed

theorem sessions_released_once_witness:
  "\<exists>st. run_cmds [NewHandle 1 9 (session_t 7), NewHandle 2 9 (session_t 8), MoveAssign 1 2, MoveConstruct 3 1,
      MoveAssign 3 3, DestroyVar 2, DestroyVar 1, DestroyVar 3] no_handles = Some st \<and>
    hs_released st = [(9, session_t 7), (9, session_t 8)] \<and> mset (hs_released st) = {#(9, session_t 7), (9, session_t 8)#}"
proof -
  let ?cmds = "[NewHandle 1 9 (session_t 7), NewHandle 2 9 (session_t 8), MoveAssign 1 2, MoveConstruct 3 1,
      MoveAssign 3 3, DestroyVar 2, DestroyVar 1, DestroyVar 3]"
  have "\<exists>st. run_cmds ?cmds no_handles = Some st \<and> hs_released st = [(9, session_t 7), (9, session_t 8)] \<and>
      (\<forall>v. hs_vars st v = None)"
    by (simp add: no_handles_def handle_construct_def handle_assign_def handle_move_def handle_destroy_def
        close_if_set_def handle_close_def null_handle_def sid_set_def Let_def)
  then obtain st where st: "run_cmds ?cmds no_handles = Some st" "hs_released st = [(9, session_t 7), (9, session_t 8)]"
      "\<forall>v. hs_vars st v = None" by blast
  from sessions_released_once [OF st(1,3)] st(1,2) show ?thesis by (auto simp: sid_set_def)
qed

end
