(* ===== verification/Free_List.thy ===== *)
theory Free_List
  imports Prelude
begin

text \<open>
  Memory that is recycled. The interface \<open>free_list\<close> is what the code relies on in
  \<^verbatim>\<open>wild::FreeList\<close>, a library outside the repository. Messages and contexts are kept in two
  levels of them, one list for each thread and one for all: the interface \<open>object_pool\<close>, whose
  clients show that no object is handed out twice.
\<close>

section \<open>Free lists\<close>

record ('f, 'n) free_ops =
  fl_empty :: 'f
  fl_take :: "'f \<Rightarrow> 'n option \<times> 'f"
  fl_push :: "'n \<Rightarrow> 'f \<Rightarrow> 'f"
  fl_size :: "'f \<Rightarrow> nat"

locale free_list =
  fixes F :: "('f, 'n) free_ops"
    and items :: "'f \<Rightarrow> 'n multiset"
  assumes items_empty: "items (fl_empty F) = {#}"
    and items_take_some: "fl_take F l = (Some n, l') \<Longrightarrow> items l = add_mset n (items l')"
    and items_take_none: "fl_take F l = (None, l') \<Longrightarrow> items l = {#} \<and> items l' = {#}"
    and items_push: "items (fl_push F n l) = add_mset n (items l)"
    and size_items: "fl_size F l = size (items l)"

section \<open>Two levels\<close>

text \<open>The list of each thread, by the number of the thread, and the one under the lock.\<close>

record 'f pools =
  pl_local :: "nat \<Rightarrow> 'f"
  pl_global :: 'f

definition pools_start :: "('f, 'n) free_ops \<Rightarrow> 'f pools" where
  "pools_start F = \<lparr>pl_local = (\<lambda>_. fl_empty F), pl_global = fl_empty F\<rparr>"

text \<open>The free objects by the place they are kept in: a thread, or \<open>None\<close> for the shared list.\<close>

definition bag_of :: "('f \<Rightarrow> 'n multiset) \<Rightarrow> 'f pools \<Rightarrow> nat option \<Rightarrow> 'n multiset" where
  "bag_of items ps i = (case i of None \<Rightarrow> items (pl_global ps) | Some td \<Rightarrow> items (pl_local ps td))"

lemma bag_of_simps [simp]:
  "bag_of items ps None = items (pl_global ps)"
  "bag_of items ps (Some td) = items (pl_local ps td)"
  by (simp_all add: bag_of_def)

text \<open>No object is free twice, and none is free and in use.\<close>

definition exclusive :: "(nat option \<Rightarrow> 'n multiset) \<Rightarrow> 'n set \<Rightarrow> bool" where
  "exclusive bag L \<longleftrightarrow>
     (\<forall>i x. count (bag i) x \<le> 1 \<and> (x \<in># bag i \<longrightarrow> x \<notin> L \<and> (\<forall>j. j \<noteq> i \<longrightarrow> x \<notin># bag j)))"

definition free_items :: "(nat option \<Rightarrow> 'n multiset) \<Rightarrow> 'n set" where
  "free_items bag = {x. \<exists>i. x \<in># bag i}"

lemma exclusiveI:
  assumes "\<And>i x. count (bag i) x \<le> 1" "\<And>i x. x \<in># bag i \<Longrightarrow> x \<notin> L"
    and "\<And>i j x. x \<in># bag i \<Longrightarrow> j \<noteq> i \<Longrightarrow> x \<notin># bag j"
  shows "exclusive bag L"
  using assms by (simp add: exclusive_def)

lemma exclusive_empty: "(\<And>i. bag i = {#}) \<Longrightarrow> exclusive bag L"
  by (simp add: exclusive_def)

lemma exclusive_insert:
  "exclusive bag L \<Longrightarrow> x \<notin> free_items bag \<Longrightarrow> exclusive bag (insert x L)"
  by (auto simp: exclusive_def free_items_def)

locale object_pool =
  fixes take :: "nat \<Rightarrow> 'p \<Rightarrow> 'n option \<times> 'p"
    and put :: "nat \<Rightarrow> 'n \<Rightarrow> 'p \<Rightarrow> 'p"
    and bag :: "'p \<Rightarrow> nat option \<Rightarrow> 'n multiset"
    and limit :: nat
  assumes take_some: "take td ps = (Some x, ps') \<Longrightarrow>
      \<exists>i. bag ps i = add_mset x (bag ps' i) \<and> (\<forall>j. j \<noteq> i \<longrightarrow> bag ps' j = bag ps j)"
    and take_none: "take td ps = (None, ps') \<Longrightarrow> bag ps' i = bag ps i"
    and put_one: "\<exists>i. bag (put td x ps) i = add_mset x (bag ps i) \<and>
      (\<forall>j. j \<noteq> i \<longrightarrow> bag (put td x ps) j = bag ps j) \<and> (i \<noteq> None \<longrightarrow> size (bag ps i) < limit)"
begin

lemma take_exclusive:
  assumes t: "take td ps = (Some x, ps')" and ex: "exclusive (bag ps) L"
  shows "x \<notin> L \<and> exclusive (bag ps') (insert x L) \<and> free_items (bag ps) = insert x (free_items (bag ps')) \<and>
    x \<notin> free_items (bag ps')"
proof -
  obtain i where i: "bag ps i = add_mset x (bag ps' i)" "\<And>j. j \<noteq> i \<Longrightarrow> bag ps' j = bag ps j"
    using take_some [OF t] by blast
  have one: "count (bag ps j) y \<le> 1" and out: "y \<in># bag ps j \<Longrightarrow> y \<notin> L \<and> (\<forall>k. k \<noteq> j \<longrightarrow> y \<notin># bag ps k)" for j y
    using ex unfolding exclusive_def by blast+
  have le: "bag ps' j \<subseteq># bag ps j" for j using i by (cases "j = i") simp_all
  have gone: "x \<notin># bag ps' j" for j
  proof (cases "j = i")
    case True
    with one [of i x] i(1) show ?thesis by (simp add: not_in_iff)
  next
    case False
    with out [of x i] i show ?thesis by simp
  qed
  have sub: "count (bag ps' j) y \<le> count (bag ps j) y" for j y by (rule mset_subset_eq_count [OF le])
  have in_sub: "y \<in># bag ps' j \<Longrightarrow> y \<in># bag ps j" for j y by (rule mset_subset_eqD [OF le])
  have "exclusive (bag ps') (insert x L)"
  proof (rule exclusiveI)
    fix j y
    show "count (bag ps' j) y \<le> 1" using sub [of j y] one [of j y] by linarith
    assume y: "y \<in># bag ps' j"
    have "y \<noteq> x" using y gone by blast
    then show "y \<notin> insert x L" using out [OF in_sub [OF y]] by simp
    fix k assume "k \<noteq> j"
    then show "y \<notin># bag ps' k" using out [OF in_sub [OF y]] in_sub by blast
  qed
  moreover have "free_items (bag ps) = insert x (free_items (bag ps'))"
  proof -
    have "y \<in># bag ps j \<Longrightarrow> y = x \<or> y \<in># bag ps' j" for j y using i by (cases "j = i") auto
    moreover have "x \<in># bag ps i" using i(1) by simp
    ultimately show ?thesis unfolding free_items_def using in_sub by blast
  qed
  moreover have "x \<notin> L" using out [of x i] i(1) by simp
  ultimately show ?thesis using gone by (simp add: free_items_def)
qed

lemma take_none_bag: "take td ps = (None, ps') \<Longrightarrow> bag ps' = bag ps"
  using take_none by (intro ext)

lemma take_limit:
  assumes "take td ps = (r, ps')" "\<forall>t. size (bag ps (Some t)) \<le> limit"
  shows "size (bag ps' (Some t)) \<le> limit"
proof (cases r)
  case None
  with take_none_bag assms show ?thesis by auto
next
  case (Some x)
  then obtain i where i: "bag ps i = add_mset x (bag ps' i)" "\<And>j. j \<noteq> i \<Longrightarrow> bag ps' j = bag ps j"
    using take_some assms(1) by blast
  have "size (bag ps' (Some t)) \<le> size (bag ps (Some t))" using i by (cases "Some t = i") simp_all
  with assms(2) show ?thesis using le_trans by blast
qed

lemma put_exclusive:
  assumes ex: "exclusive (bag ps) L" and x: "x \<in> L"
  shows "exclusive (bag (put td x ps)) (L - {x}) \<and> free_items (bag (put td x ps)) = insert x (free_items (bag ps))"
proof -
  obtain i where i: "bag (put td x ps) i = add_mset x (bag ps i)" "\<And>j. j \<noteq> i \<Longrightarrow> bag (put td x ps) j = bag ps j"
    using put_one by blast
  have one: "count (bag ps j) y \<le> 1" and out: "y \<in># bag ps j \<Longrightarrow> y \<notin> L \<and> (\<forall>k. k \<noteq> j \<longrightarrow> y \<notin># bag ps k)" for j y
    using ex unfolding exclusive_def by blast+
  have new: "x \<notin># bag ps j" for j using out x by blast
  have mem: "y \<in># bag (put td x ps) j \<longleftrightarrow> y \<in># bag ps j \<or> (y = x \<and> j = i)" for j y
    using i by (cases "j = i") auto
  have "exclusive (bag (put td x ps)) (L - {x})"
  proof (rule exclusiveI)
    fix j y
    show "count (bag (put td x ps) j) y \<le> 1"
    proof (cases "j = i")
      case True
      have "count (bag ps i) x = 0" using new by (simp add: not_in_iff)
      with one [of i y] True show ?thesis by (auto simp: i(1))
    next
      case False
      from one [of j y] show ?thesis by (simp only: i(2) [OF False])
    qed
    assume y: "y \<in># bag (put td x ps) j"
    then show "y \<notin> L - {x}" using mem out by blast
    fix k assume "k \<noteq> j"
    then show "y \<notin># bag (put td x ps) k" using y mem out new by metis
  qed
  moreover have "free_items (bag (put td x ps)) = insert x (free_items (bag ps))"
    using mem by (auto simp: free_items_def)
  ultimately show ?thesis ..
qed

lemma put_limit:
  assumes "\<forall>t. size (bag ps (Some t)) \<le> limit"
  shows "size (bag (put td x ps) (Some t)) \<le> limit"
proof -
  obtain i where "bag (put td x ps) i = add_mset x (bag ps i)" "\<And>j. j \<noteq> i \<Longrightarrow> bag (put td x ps) j = bag ps j"
      "i \<noteq> None \<longrightarrow> size (bag ps i) < limit" using put_one by blast
  with assms show ?thesis by (cases "Some t = i") auto
qed

end

section \<open>The two levels as a pool\<close>

text \<open>Take from the own list, then from the shared one; put into the own list up to a limit.\<close>

definition take_two :: "('f, 'n) free_ops \<Rightarrow> nat \<Rightarrow> 'f pools \<Rightarrow> 'n option \<times> 'f pools" where
  "take_two F td ps =
     (case fl_take F (pl_local ps td) of
        (Some x, l) \<Rightarrow> (Some x, ps\<lparr>pl_local := (pl_local ps)(td := l)\<rparr>)
      | (None, l) \<Rightarrow>
          (let ps1 = ps\<lparr>pl_local := (pl_local ps)(td := l)\<rparr>
           in case fl_take F (pl_global ps1) of
                (Some x, g) \<Rightarrow> (Some x, ps1\<lparr>pl_global := g\<rparr>)
              | (None, g) \<Rightarrow> (None, ps1\<lparr>pl_global := g\<rparr>)))"

definition put_two :: "('f, 'n) free_ops \<Rightarrow> nat \<Rightarrow> nat \<Rightarrow> 'n \<Rightarrow> 'f pools \<Rightarrow> 'f pools" where
  "put_two F limit td x ps =
     (if fl_size F (pl_local ps td) \<ge> limit then ps\<lparr>pl_global := fl_push F x (pl_global ps)\<rparr>
      else ps\<lparr>pl_local := (pl_local ps)(td := fl_push F x (pl_local ps td))\<rparr>)"

context free_list
begin

lemma take_cases:
  assumes "take_two F td ps = (r, ps')"
  obtains x l where "fl_take F (pl_local ps td) = (Some x, l)" "r = Some x" "ps' = ps\<lparr>pl_local := (pl_local ps)(td := l)\<rparr>"
    | x l g where "fl_take F (pl_local ps td) = (None, l)" "fl_take F (pl_global ps) = (Some x, g)" "r = Some x"
        "ps' = ps\<lparr>pl_local := (pl_local ps)(td := l), pl_global := g\<rparr>"
    | l g where "fl_take F (pl_local ps td) = (None, l)" "fl_take F (pl_global ps) = (None, g)" "r = None"
        "ps' = ps\<lparr>pl_local := (pl_local ps)(td := l), pl_global := g\<rparr>"
  using assms by (auto simp: take_two_def Let_def split: prod.splits option.splits)

lemma two_take_some:
  assumes "take_two F td ps = (Some x, ps')"
  shows "\<exists>i. bag_of items ps i = add_mset x (bag_of items ps' i) \<and> (\<forall>j. j \<noteq> i \<longrightarrow> bag_of items ps' j = bag_of items ps j)"
  using assms
proof (cases rule: take_cases)
  case (1 y l)
  then show ?thesis by (intro exI [of _ "Some td"]) (auto simp: bag_of_def items_take_some split: option.splits)
next
  case (2 y l g)
  then show ?thesis
    using items_take_none [OF 2(1)] by (intro exI [of _ None]) (auto simp: bag_of_def items_take_some split: option.splits)
qed simp

lemma two_take_none:
  assumes "take_two F td ps = (None, ps')"
  shows "bag_of items ps' i = bag_of items ps i"
  using assms
proof (cases rule: take_cases)
  case (3 l g)
  then show ?thesis
    using items_take_none [OF 3(1)] items_take_none [OF 3(2)] by (auto simp: bag_of_def split: option.splits)
qed simp_all

lemma two_put:
  "\<exists>i. bag_of items (put_two F limit td x ps) i = add_mset x (bag_of items ps i) \<and>
    (\<forall>j. j \<noteq> i \<longrightarrow> bag_of items (put_two F limit td x ps) j = bag_of items ps j) \<and>
    (i \<noteq> None \<longrightarrow> size (bag_of items ps i) < limit)"
proof (cases "fl_size F (pl_local ps td) \<ge> limit")
  case True
  then show ?thesis
    by (intro exI [of _ None]) (auto simp: put_two_def bag_of_def items_push split: option.splits)
next
  case False
  then show ?thesis
    by (intro exI [of _ "Some td"]) (auto simp: put_two_def bag_of_def items_push size_items split: option.splits)
qed

lemma two_levels: "object_pool (take_two F) (put_two F limit) (bag_of items) limit"
  by unfold_locales (rule two_take_some two_take_none two_put, assumption?)+

end

end
