(* ===== verification/Context_Stack.thy ===== *)
theory Context_Stack
  imports Free_List
begin

text \<open>
  The stacks of the coroutines (\<^verbatim>\<open>mstack\<close> and \<^verbatim>\<open>munstack\<close> of \<^verbatim>\<open>src/context.cpp\<close>): the size of a
  stack, rounded up to pages in 64-bit arithmetic, and the 32 free lists of stacks by number of
  pages. \<^verbatim>\<open>mmap\<close> and \<^verbatim>\<open>munmap\<close> are the operating system's: parameters, with \<open>mmap_contract\<close>.
  Switching between contexts (\<^verbatim>\<open>ucontext\<close>) is not modelled.
\<close>

section \<open>Sizes\<close>

definition stack_size :: "uint64 \<Rightarrow> uint64 \<Rightarrow> uint64" where
  "stack_size page addstack =
     (let stackmask = page - 1;
          addstack1 = (if addstack \<noteq> 0 then (addstack + stackmask) AND (NOT stackmask) else addstack)
      in 8 * page + addstack1)"

section \<open>The pools\<close>

record 'o vm_ops =
  vm_map :: "uint64 \<Rightarrow> 'o \<Rightarrow> (uint64 \<times> 'o) option"
  vm_unmap :: "uint64 \<Rightarrow> uint64 \<Rightarrow> 'o \<Rightarrow> 'o option"

record 'o stacks =
  st_lists :: "nat \<Rightarrow> uint64 list"
  st_vm :: 'o

datatype stack_error = AssertSize | AssertMap | AssertUnmap

definition pool_count :: nat where
  "pool_count = 32"

text \<open>
  The chain of free stacks of one size, which are linked through their first word: \<^verbatim>\<open>First\<close> is the
  head of the list, and taking or pushing moves it.
\<close>

definition link_ops :: "('a list, 'a) free_ops" where
  "link_ops =
     \<lparr>fl_empty = [],
      fl_take = (\<lambda>first. case first of [] \<Rightarrow> (None, []) | stk # link \<Rightarrow> (Some stk, link)),
      fl_push = (\<lambda>stk first. stk # first),
      fl_size = length\<rparr>"

interpretation stack_links: free_list link_ops mset
  by unfold_locales (auto simp: link_ops_def split: list.splits)

definition mstack :: "'o vm_ops \<Rightarrow> uint64 \<Rightarrow> uint64 \<Rightarrow> 'o stacks \<Rightarrow> stack_error + (uint64 \<times> uint64) \<times> 'o stacks" where
  "mstack V page addstack st =
     (let stacksize = stack_size page addstack; index = unat (stacksize div page)
      in if stacksize mod page \<noteq> 0 then Inl AssertSize
         else case (if index < pool_count then fl_take link_ops (st_lists st index) else (None, [])) of
           (Some stackbase, first) \<Rightarrow>
             Inr ((stackbase, stacksize), st\<lparr>st_lists := (st_lists st)(index := first)\<rparr>)
         | (None, _) \<Rightarrow>
             (case vm_map V (stacksize + 2 * page) (st_vm st) of
                None \<Rightarrow> Inl AssertMap
              | Some (lowPage, vm) \<Rightarrow> Inr ((lowPage + page, stacksize), st\<lparr>st_vm := vm\<rparr>)))"

definition munstack :: "'o vm_ops \<Rightarrow> uint64 \<Rightarrow> uint64 \<times> uint64 \<Rightarrow> 'o stacks \<Rightarrow> stack_error + 'o stacks" where
  "munstack V page stk st =
     (let stackbase = fst stk; stacksize = snd stk; index = unat (stacksize div page)
      in if stacksize mod page \<noteq> 0 then Inl AssertSize
         else if index < pool_count
         then Inr (st\<lparr>st_lists := (st_lists st)(index := fl_push link_ops stackbase (st_lists st index))\<rparr>)
         else case vm_unmap V (stackbase - page) (stacksize + 2 * page) (st_vm st) of
           None \<Rightarrow> Inl AssertUnmap
         | Some vm \<Rightarrow> Inr (st\<lparr>st_vm := vm\<rparr>))"

lemma mstack_eq:
  "mstack V page addstack st =
     (let stacksize = stack_size page addstack; index = unat (stacksize div page)
      in if stacksize mod page \<noteq> 0 then Inl AssertSize
         else if index < pool_count \<and> st_lists st index \<noteq> []
         then Inr ((hd (st_lists st index), stacksize),
                st\<lparr>st_lists := (st_lists st)(index := tl (st_lists st index))\<rparr>)
         else case vm_map V (stacksize + 2 * page) (st_vm st) of
           None \<Rightarrow> Inl AssertMap
         | Some (lowPage, vm) \<Rightarrow> Inr ((lowPage + page, stacksize), st\<lparr>st_vm := vm\<rparr>))"
  by (auto simp: mstack_def link_ops_def Let_def split: list.splits)

lemma munstack_eq:
  "munstack V page stk st =
     (let stackbase = fst stk; stacksize = snd stk; index = unat (stacksize div page)
      in if stacksize mod page \<noteq> 0 then Inl AssertSize
         else if index < pool_count
         then Inr (st\<lparr>st_lists := (st_lists st)(index := stackbase # st_lists st index)\<rparr>)
         else case vm_unmap V (stackbase - page) (stacksize + 2 * page) (st_vm st) of
           None \<Rightarrow> Inl AssertUnmap
         | Some vm \<Rightarrow> Inr (st\<lparr>st_vm := vm\<rparr>))"
  by (simp add: munstack_def link_ops_def Let_def)

section \<open>The size of a stack\<close>

lemma round_down: "unat (x AND NOT (mask k)) = unat x div 2 ^ k * 2 ^ k" for x :: uint64
proof -
  have "(x AND mask k) AND (x AND NOT (mask k)) = 0" "(x AND mask k) OR (x AND NOT (mask k)) = x"
    by (rule bit_word_eqI; auto simp: bit_simps)+
  with word_plus_and_or [of "x AND mask k" "x AND NOT (mask k)"]
  have "(x AND mask k) + (x AND NOT (mask k)) = x" by simp
  then have "x AND NOT (mask k) = x - (x AND mask k)" by (metis add_diff_cancel_left')
  moreover have "x AND mask k \<le> x" by (simp add: word_le_nat_alt unat_AND_mask)
  ultimately have "unat (x AND NOT (mask k)) = unat x - unat x mod 2 ^ k"
    by (simp add: unat_sub unat_AND_mask)
  then show ?thesis by (simp add: minus_mod_eq_div_mult)
qed

lemma unat_page: "k < 60 \<Longrightarrow> unat (2 ^ k :: uint64) = 2 ^ k"
proof -
  assume "k < 60"
  then have "(2::nat) ^ k < 2 ^ LENGTH(64)" by (intro power_strict_increasing) simp_all
  then have "unat (of_nat (2 ^ k) :: uint64) = 2 ^ k" by (simp only: unat_of_nat mod_less)
  then show ?thesis by simp
qed

lemma page_mask: "(2 ^ k :: uint64) - 1 = mask k"
  by (simp add: mask_eq_exp_minus_1)

lemma unat_8page: "k < 60 \<Longrightarrow> unat (8 * 2 ^ k :: uint64) = 8 * 2 ^ k"
proof -
  assume k: "k < 60"
  have "(2::nat) ^ k < 2 ^ 60" using k by (intro power_strict_increasing) simp_all
  then have "8 * 2 ^ k < (2::nat) ^ LENGTH(64)" by simp
  moreover have "unat (8 * 2 ^ k :: uint64) = unat (8 :: uint64) * unat (2 ^ k :: uint64) mod 2 ^ LENGTH(64)"
    by (rule unat_word_ariths)
  ultimately show ?thesis using unat_page [OF k] by simp
qed

lemma stack_size_unat:
  assumes "k < 60" "unat addstack + 9 * 2 ^ k \<le> 2 ^ 64"
  shows "unat (stack_size (2 ^ k) addstack) = 8 * 2 ^ k + (unat addstack + (2 ^ k - 1)) div 2 ^ k * 2 ^ k"
proof (cases "addstack = 0")
  case True
  then show ?thesis using unat_8page [OF assms(1)] by (simp add: stack_size_def)
next
  case False
  let ?m = "mask k :: uint64"
  have m: "unat ?m = 2 ^ k - 1"
    using assms(1) unat_page [OF assms(1)] by (simp add: mask_eq_exp_minus_1 unat_sub word_le_nat_alt unat_gt_0 flip: unat_1)
  have pos: "(0::nat) < 2 ^ k" by simp
  have "unat addstack + unat ?m < 2 ^ LENGTH(64)" using assms(2) m pos by simp
  then have s: "unat (addstack + ?m) = unat addstack + (2 ^ k - 1)" using m by (metis unat_plus_less)
  let ?r = "(unat addstack + (2 ^ k - 1)) div 2 ^ k * 2 ^ k"
  have r: "unat ((addstack + ?m) AND NOT ?m) = ?r" by (simp only: round_down s)
  have "?r \<le> unat addstack + (2 ^ k - 1)" by (rule div_times_less_eq_dividend)
  moreover have "(2::nat) ^ LENGTH(64) = 2 ^ 64" by simp
  ultimately have "unat (8 * 2 ^ k :: uint64) + unat ((addstack + ?m) AND NOT ?m) < 2 ^ LENGTH(64)"
    unfolding r unat_8page [OF assms(1)] using assms(2) pos by linarith
  then have "unat (8 * 2 ^ k + ((addstack + ?m) AND NOT ?m)) = 8 * 2 ^ k + ?r"
    using r unat_8page [OF assms(1)] by (metis unat_plus_less)
  with False show ?thesis by (simp add: stack_size_def page_mask Let_def)
qed

lemma round_up_bounds: "0 < p \<Longrightarrow> a \<le> (a + (p - 1)) div p * p \<and> (a + (p - 1)) div p * p < a + p" for a p :: nat
proof -
  assume p: "0 < p"
  have "(a + (p - 1)) div p * p + (a + (p - 1)) mod p = a + (p - 1)" by (rule div_mult_mod_eq)
  moreover have "(a + (p - 1)) mod p < p" using p by simp
  ultimately show ?thesis by linarith
qed

text \<open>C40
  A stack is as large as asked for: eight pages and the requested bytes, rounded up to whole
  pages and by less than one page, for every page size that is a power of two, as long as the
  sum fits in 64 bits; the assertion on the size holds.\<close>

theorem stack_size_bounds:
  assumes "page = 2 ^ k" "k < 60" "unat addstack + 9 * unat page \<le> 2 ^ 64"
  shows "8 * unat page + unat addstack \<le> unat (stack_size page addstack) \<and>
    unat (stack_size page addstack) < 9 * unat page + unat addstack \<and>
    stack_size page addstack mod page = 0 \<and> 8 \<le> unat (stack_size page addstack div page)"
proof -
  have page: "unat page = 2 ^ k" using assms(1,2) unat_page by simp
  let ?r = "(unat addstack + (2 ^ k - 1)) div 2 ^ k * 2 ^ k"
  have u: "unat (stack_size page addstack) = 8 * 2 ^ k + ?r"
    using stack_size_unat [OF assms(2), of addstack] assms(1,3) page by simp
  have "unat addstack \<le> ?r \<and> ?r < unat addstack + 2 ^ k" by (rule round_up_bounds) simp
  moreover have "unat (stack_size page addstack mod page) = 0"
    by (simp only: unat_mod u page) simp
  moreover have "8 \<le> unat (stack_size page addstack div page)"
    by (simp add: unat_div u page)
  ultimately show ?thesis
    using u page by (simp add: unat_eq_zero)
qed

theorem stack_size_bounds_witness:
  "stack_size 4096 5000 = 40960 \<and> 8 * 4096 + 5000 \<le> unat (stack_size 4096 5000)"
proof -
  have "stack_size 4096 5000 = 40960" by (simp add: stack_size_def Let_def)
  then show ?thesis using stack_size_bounds [of 4096 12 5000] by simp
qed

text \<open>The bound is needed: a request within one page of \<open>2 ^ 64\<close> wraps around when it is rounded up,
  and the stack has eight pages, the size of a request for nothing.\<close>

theorem stack_size_wraps:
  assumes "page = 2 ^ k" "k < 60" "2 ^ 64 < unat addstack + unat page"
  shows "stack_size page addstack = 8 * page \<and> stack_size page addstack = stack_size page 0"
proof -
  have page: "unat page = 2 ^ k" using assms(1,2) unat_page by simp
  let ?m = "mask k :: uint64"
  have m: "unat ?m = 2 ^ k - 1"
    using assms(2) unat_page [OF assms(2)] by (simp add: mask_eq_exp_minus_1 unat_sub word_le_nat_alt unat_gt_0 flip: unat_1)
  have "2 ^ LENGTH(64) \<le> unat addstack + unat ?m" using assms(3) page m by simp
  then have "unat (addstack + ?m) = unat addstack + unat ?m - 2 ^ LENGTH(64)" by (rule unat_plus_wrap)
  then have "unat (addstack + ?m) < 2 ^ k"
    using m unat_bound [of addstack] \<open>2 ^ LENGTH(64) \<le> unat addstack + unat ?m\<close> by linarith
  then have "unat ((addstack + ?m) AND NOT ?m) = 0" by (simp add: round_down)
  then have "(addstack + ?m) AND NOT ?m = 0" by (simp only: unat_eq_zero)
  then show ?thesis using assms(1) by (simp add: stack_size_def page_mask Let_def)
qed

theorem stack_size_wraps_witness: "stack_size 4096 (- 1) = 32768"
  using stack_size_wraps [of 4096 12 "- 1"] by (simp add: unat_max64)

end
