(* ===== verification/Message_Pool.thy ===== *)
theory Message_Pool
  imports Context_Stack Coroutine
begin

text \<open>
  The memory of messages (\<^verbatim>\<open>namespace message\<close> of \<^verbatim>\<open>src/process.cpp\<close>): a message may be created
  by one thread and destroyed by another; its memory goes to a list of the thread that destroys
  it, or to the shared list when that holds 10000.
\<close>

section \<open>Allocation\<close>

text \<open>\<open>mem\<close> is what \<^verbatim>\<open>malloc\<close> would return, \<open>None\<close> for the null pointer.\<close>

definition allocMessage :: "('f, 'n) free_ops \<Rightarrow> 'n option \<Rightarrow> nat \<Rightarrow> 'f pools \<Rightarrow> 'n option \<times> 'f pools" where
  "allocMessage F mem td ps =
     (case fl_take F (pl_local ps td) of
        (Some m, l) \<Rightarrow> (Some m, ps\<lparr>pl_local := (pl_local ps)(td := l)\<rparr>)
      | (None, l) \<Rightarrow>
          (let ps1 = ps\<lparr>pl_local := (pl_local ps)(td := l)\<rparr>
           in case fl_take F (pl_global ps1) of
                (Some m, g) \<Rightarrow> (Some m, ps1\<lparr>pl_global := g\<rparr>)
              | (None, g) \<Rightarrow> (mem, ps1\<lparr>pl_global := g\<rparr>)))"

definition message_limit :: nat where
  "message_limit = 10000"

definition deallocMessage :: "('f, 'n) free_ops \<Rightarrow> nat \<Rightarrow> 'n \<Rightarrow> 'f pools \<Rightarrow> 'f pools" where
  "deallocMessage F td m ps =
     (if fl_size F (pl_local ps td) \<ge> message_limit then ps\<lparr>pl_global := fl_push F m (pl_global ps)\<rparr>
      else ps\<lparr>pl_local := (pl_local ps)(td := fl_push F m (pl_local ps td))\<rparr>)"

section \<open>Creation and destruction\<close>

record ('n, 'v, 'f) message_store =
  ms_pools :: "'f pools"
  ms_heap :: "'n \<Rightarrow> 'v message option"

text \<open>\<^verbatim>\<open>create\<close> constructs in place; on the null pointer that is undefined, here \<open>None\<close>.\<close>

definition message_construct :: "('f, 'n) free_ops \<Rightarrow> 'n option \<Rightarrow> nat \<Rightarrow> 'v message \<Rightarrow>
    ('n, 'v, 'f) message_store \<Rightarrow> ('n \<times> ('n, 'v, 'f) message_store) option" where
  "message_construct F mem td msg st =
     (case allocMessage F mem td (ms_pools st) of
        (None, ps) \<Rightarrow> None
      | (Some m, ps) \<Rightarrow> Some (m, \<lparr>ms_pools = ps, ms_heap = (ms_heap st)(m := Some msg)\<rparr>))"

text \<open>Destroying what is not a message is \<open>None\<close> as well.\<close>

definition message_destroy :: "('f, 'n) free_ops \<Rightarrow> nat \<Rightarrow> 'n \<Rightarrow> ('n, 'v, 'f) message_store \<Rightarrow>
    ('n, 'v, 'f) message_store option" where
  "message_destroy F td m st =
     (case ms_heap st m of
        None \<Rightarrow> None
      | Some _ \<Rightarrow> Some \<lparr>ms_pools = deallocMessage F td m (ms_pools st), ms_heap = (ms_heap st)(m := None)\<rparr>)"

text \<open>All threads; \<open>my_malloced\<close> is the memory that \<^verbatim>\<open>malloc\<close> has given out, which is never returned to it.\<close>

record ('n, 'v, 'f) message_sys =
  my_store :: "('n, 'v, 'f) message_store"
  my_malloced :: "'n set"

definition message_start :: "('f, 'n) free_ops \<Rightarrow> ('n, 'v, 'f) message_sys" where
  "message_start F = \<lparr>my_store = \<lparr>ms_pools = pools_start F, ms_heap = (\<lambda>_. None)\<rparr>, my_malloced = {}\<rparr>"

inductive message_step :: "('f, 'n) free_ops \<Rightarrow> ('n, 'v, 'f) message_sys \<Rightarrow> ('n, 'v, 'f) message_sys \<Rightarrow> bool"
  for F :: "('f, 'n) free_ops" where
  construct: "a \<notin> my_malloced s \<Longrightarrow> message_construct F (Some a) td msg (my_store s) = Some (m, st) \<Longrightarrow>
    message_step F s \<lparr>my_store = st, my_malloced = (if m = a then insert a (my_malloced s) else my_malloced s)\<rparr>"
| destroy: "message_destroy F td m (my_store s) = Some st \<Longrightarrow> message_step F s (s\<lparr>my_store := st\<rparr>)"

inductive_cases message_stepE: "message_step F s t"

section \<open>The pool of messages\<close>

lemma allocMessage_malloc:
  "allocMessage F mem td ps =
     (case allocMessage F None td ps of (Some m, ps') \<Rightarrow> (Some m, ps') | (None, ps') \<Rightarrow> (mem, ps'))"
  by (simp add: allocMessage_def Let_def split: prod.splits option.splits)

lemma allocMessage_two: "allocMessage F None = take_two F"
  by (intro ext) (simp add: allocMessage_def take_two_def)

lemma deallocMessage_two: "deallocMessage F = put_two F message_limit"
  by (intro ext) (simp add: deallocMessage_def put_two_def)

sublocale free_list < messages: object_pool "allocMessage F None" "deallocMessage F" "bag_of items" message_limit
  unfolding allocMessage_two deallocMessage_two by (rule two_levels)

text \<open>
  Every piece of memory that \<^verbatim>\<open>malloc\<close> has given out is a message in use or free in one list,
  once, and the lists of the threads stay within their limit.
\<close>

definition message_inv :: "('f \<Rightarrow> 'n multiset) \<Rightarrow> ('n, 'v, 'f) message_sys \<Rightarrow> bool" where
  "message_inv items s \<longleftrightarrow>
     (let st = my_store s; bag = bag_of items (ms_pools st) in
      exclusive bag (dom (ms_heap st)) \<and> my_malloced s = dom (ms_heap st) \<union> free_items bag \<and>
      (\<forall>td. size (bag (Some td)) \<le> message_limit))"

context free_list
begin

lemma construct_inv:
  assumes inv: "message_inv items s" and a: "a \<notin> my_malloced s"
    and c: "message_construct F (Some a) td msg (my_store s) = Some (m, st)"
  shows "ms_heap (my_store s) m = None" "ms_heap st = (ms_heap (my_store s))(m \<mapsto> msg)"
    "message_inv items \<lparr>my_store = st, my_malloced = (if m = a then insert a (my_malloced s) else my_malloced s)\<rparr>"
proof -
  let ?ps = "ms_pools (my_store s)" and ?L = "dom (ms_heap (my_store s))"
  have I: "exclusive (bag_of items ?ps) ?L" "my_malloced s = ?L \<union> free_items (bag_of items ?ps)"
      "\<forall>td. size (bag_of items ?ps (Some td)) \<le> message_limit"
    using inv by (simp_all add: message_inv_def Let_def)
  obtain r ps where t: "allocMessage F None td ?ps = (r, ps)" by (metis surj_pair)
  have lim: "\<forall>t. size (bag_of items ps (Some t)) \<le> message_limit"
    using messages.take_limit [OF t I(3)] by blast
  have st: "st = \<lparr>ms_pools = ps, ms_heap = (ms_heap (my_store s))(m \<mapsto> msg)\<rparr>" "m = (case r of None \<Rightarrow> a | Some x \<Rightarrow> x)"
    using c allocMessage_malloc [of F "Some a" td ?ps] t by (auto simp: message_construct_def split: option.splits)
  have "ms_heap (my_store s) m = None \<and> exclusive (bag_of items ps) (insert m ?L) \<and>
      (if m = a then insert a (my_malloced s) else my_malloced s) = insert m ?L \<union> free_items (bag_of items ps)"
  proof (cases r)
    case None
    then have "bag_of items ps = bag_of items ?ps" using messages.take_none_bag t by simp
    with None st a I show ?thesis by (auto intro: exclusive_insert)
  next
    case (Some x)
    then have T: "x \<notin> ?L" "exclusive (bag_of items ps) (insert x ?L)"
        "free_items (bag_of items ?ps) = insert x (free_items (bag_of items ps))"
      using messages.take_exclusive [OF _ I(1)] t by blast+
    then have "x \<noteq> a" using a I(2) by blast
    with T Some st I(2) show ?thesis by auto
  qed
  with st lim show "ms_heap (my_store s) m = None" "ms_heap st = (ms_heap (my_store s))(m \<mapsto> msg)"
    "message_inv items \<lparr>my_store = st, my_malloced = (if m = a then insert a (my_malloced s) else my_malloced s)\<rparr>"
    by (simp_all add: message_inv_def Let_def)
qed

lemma message_destroy_inv:
  assumes inv: "message_inv items s" and d: "message_destroy F td m (my_store s) = Some st"
  shows "message_inv items (s\<lparr>my_store := st\<rparr>)"
proof -
  let ?ps = "ms_pools (my_store s)" and ?L = "dom (ms_heap (my_store s))"
  have I: "exclusive (bag_of items ?ps) ?L" "my_malloced s = ?L \<union> free_items (bag_of items ?ps)"
      "\<forall>td. size (bag_of items ?ps (Some td)) \<le> message_limit"
    using inv by (simp_all add: message_inv_def Let_def)
  have m: "m \<in> ?L" and st: "st = \<lparr>ms_pools = deallocMessage F td m ?ps, ms_heap = (ms_heap (my_store s))(m := None)\<rparr>"
    using d by (auto simp: message_destroy_def split: option.splits)
  show ?thesis
    using messages.put_exclusive [OF I(1) m, of td] messages.put_limit [OF I(3), of td m] m I(2)
    by (auto simp: message_inv_def st)
qed

lemma message_reach: "reach (\<lambda>s. s = message_start F) (message_step F) s \<Longrightarrow> message_inv items s"
proof (induction rule: reach.induct)
  case (reach_init s)
  then show ?case
    by (simp add: message_inv_def message_start_def pools_start_def bag_of_def items_empty exclusive_def
        free_items_def split: option.splits)
next
  case (reach_step s t)
  from reach_step.hyps(2) show ?case
    by (cases rule: message_stepE) (use reach_step.IH construct_inv(3) message_destroy_inv in blast)+
qed

end

text \<open>C27
  Messages are never confused: whatever threads create and destroy messages, all memory that was
  allocated is a message in use or free in exactly one list, a new message never takes the memory
  of one that is in use and leaves all others as they are, and no thread keeps more than 10000.\<close>

theorem message_memory_exclusive:
  assumes "free_list F items" "reach (\<lambda>s. s = message_start F) (message_step F) s"
  shows "my_malloced s = dom (ms_heap (my_store s)) \<union> free_items (bag_of items (ms_pools (my_store s))) \<and>
    exclusive (bag_of items (ms_pools (my_store s))) (dom (ms_heap (my_store s))) \<and>
    size (items (pl_local (ms_pools (my_store s)) td)) \<le> 10000 \<and>
    (a \<notin> my_malloced s \<and> message_construct F (Some a) td msg (my_store s) = Some (m, st) \<longrightarrow>
      ms_heap (my_store s) m = None \<and> ms_heap st = (ms_heap (my_store s))(m \<mapsto> msg))"
  using free_list.message_reach [OF assms] free_list.construct_inv(1,2) [OF assms(1) free_list.message_reach [OF assms]]
  by (fastforce simp: message_inv_def Let_def message_limit_def)

theorem message_memory_exclusive_witness:
  "\<exists>s st. reach (\<lambda>s. s = message_start link_ops) (message_step link_ops) s \<and>
    message_construct link_ops (Some 9) 1 (message_create (process_t 1) (session_t 7) (AppValue 0 (8::nat))) (my_store s) =
      Some (4::nat, st) \<and> ms_heap (my_store s) 4 = None \<and> size (mset (pl_local (ms_pools (my_store s)) 1)) \<le> 10000"
proof -
  let ?msg = "message_create (process_t 1) (session_t 7) (AppValue 0 (8::nat))"
  let ?s0 = "message_start link_ops :: (nat, nat, nat list) message_sys"
  let ?ps = "\<lparr>pl_local = (\<lambda>_. [])(0 := []), pl_global = []\<rparr>"
  let ?s1 = "\<lparr>my_store = \<lparr>ms_pools = ?ps, ms_heap = [4 \<mapsto> ?msg]\<rparr>, my_malloced = {4}\<rparr> :: (nat, nat, nat list) message_sys"
  let ?st = "\<lparr>ms_pools = ?ps\<lparr>pl_local := (pl_local ?ps)(1 := [4])\<rparr>, ms_heap = [4 \<mapsto> ?msg](4 := None)\<rparr> :: (nat, nat, nat list) message_store"
  let ?s2 = "?s1\<lparr>my_store := ?st\<rparr>"
  have "message_construct link_ops (Some 4) 0 ?msg (my_store ?s0) = Some (4, my_store ?s1)"
    by (simp add: message_construct_def allocMessage_def message_start_def pools_start_def link_ops_def Let_def)
  then have 1: "message_step link_ops ?s0 ?s1"
    using message_step.construct [of 4 ?s0 link_ops 0 ?msg 4 "my_store ?s1"] by (simp add: message_start_def)
  have "message_destroy link_ops 1 4 (my_store ?s1) = Some ?st"
    by (simp add: message_destroy_def deallocMessage_def message_limit_def link_ops_def)
  then have 2: "message_step link_ops ?s1 ?s2" by (rule message_step.destroy)
  have "reach (\<lambda>s. s = message_start link_ops) (message_step link_ops) ?s0" by (rule reach_init) simp
  then have "reach (\<lambda>s. s = message_start link_ops) (message_step link_ops) ?s1" using 1 by (rule reach_step)
  then have r: "reach (\<lambda>s. s = message_start link_ops) (message_step link_ops) ?s2" using 2 by (rule reach_step)
  let ?st3 = "\<lparr>ms_pools = (ms_pools ?st)\<lparr>pl_local := (pl_local (ms_pools ?st))(1 := [])\<rparr>, ms_heap = (ms_heap ?st)(4 \<mapsto> ?msg)\<rparr>"
  have c: "message_construct link_ops (Some 9) 1 ?msg (my_store ?s2) = Some (4, ?st3)"
    by (simp add: message_construct_def allocMessage_def link_ops_def Let_def)
  have "9 \<notin> my_malloced ?s2" by simp
  with message_memory_exclusive [OF stack_links.free_list_axioms r]  c
  have "ms_heap (my_store ?s2) 4 = None \<and> size (mset (pl_local (ms_pools (my_store ?s2)) 1)) \<le> 10000" by blast
  with r c show ?thesis by blast
qed

end
