(* ===== verification/Stack_Pool.thy ===== *)
theory Stack_Pool
  imports Context_Stack
begin

text \<open>
  The free lists of stacks, over any sequence of creations and destructions of contexts: a stack
  is in use once or in a free list once, and always in the list of its size.
\<close>

section \<open>The system\<close>

type_synonym stack = "uint64 \<times> uint64"

definition bytes :: "stack \<Rightarrow> nat set" where
  "bytes r = {unat (fst r)..<unat (fst r) + unat (snd r)}"

text \<open>What \<^verbatim>\<open>mmap\<close> and \<^verbatim>\<open>munmap\<close> promise about the regions \<open>mapped\<close>, as base and length.\<close>

definition mmap_contract :: "'o vm_ops \<Rightarrow> ('o \<Rightarrow> stack set) \<Rightarrow> bool" where
  "mmap_contract V mapped \<longleftrightarrow>
     (\<forall>vm. finite (mapped vm)) \<and>
     (\<forall>vm. \<forall>r\<in>mapped vm. unat (fst r) + unat (snd r) \<le> 2 ^ 64) \<and>
     (\<forall>vm. \<forall>r\<in>mapped vm. \<forall>r'\<in>mapped vm. r \<noteq> r' \<longrightarrow> bytes r \<inter> bytes r' = {}) \<and>
     (\<forall>vm len low vm'. vm_map V len vm = Some (low, vm') \<longrightarrow>
        (low, len) \<notin> mapped vm \<and> mapped vm' = insert (low, len) (mapped vm)) \<and>
     (\<forall>vm low len. (low, len) \<in> mapped vm \<longrightarrow>
        (\<exists>vm'. vm_unmap V low len vm = Some vm' \<and> mapped vm' = mapped vm - {(low, len)}))"

record 'o stack_sys =
  ks_stacks :: "'o stacks"
  ks_live :: "stack multiset"

definition stack_start :: "'o \<Rightarrow> 'o stack_sys" where
  "stack_start vm = \<lparr>ks_stacks = \<lparr>st_lists = (\<lambda>_. []), st_vm = vm\<rparr>, ks_live = {#}\<rparr>"

inductive stack_step :: "'o vm_ops \<Rightarrow> uint64 \<Rightarrow> 'o stack_sys \<Rightarrow> 'o stack_sys \<Rightarrow> bool"
  for V :: "'o vm_ops" and page :: uint64 where
  context_create: "unat addstack + 11 * unat page < 2 ^ 64 \<Longrightarrow>
    mstack V page addstack (ks_stacks s) = Inr (stk, st) \<Longrightarrow>
    stack_step V page s \<lparr>ks_stacks = st, ks_live = add_mset stk (ks_live s)\<rparr>"
| context_destroy: "stk \<in># ks_live s \<Longrightarrow> munstack V page stk (ks_stacks s) = Inr st \<Longrightarrow>
    stack_step V page s \<lparr>ks_stacks = st, ks_live = ks_live s - {#stk#}\<rparr>"

section \<open>The invariant\<close>

definition pooled :: "uint64 \<Rightarrow> 'o stacks \<Rightarrow> stack multiset" where
  "pooled page st = (\<Sum>i<pool_count. mset (map (\<lambda>b. (b, of_nat i * page)) (st_lists st i)))"

definition region :: "uint64 \<Rightarrow> stack \<Rightarrow> stack" where
  "region page stk = (fst stk - page, snd stk + 2 * page)"

definition sized :: "uint64 \<Rightarrow> stack \<Rightarrow> bool" where
  "sized page stk \<longleftrightarrow> snd stk mod page = 0 \<and> unat (snd stk) + 2 * unat page < 2 ^ 64"

definition stack_inv :: "('o \<Rightarrow> stack set) \<Rightarrow> uint64 \<Rightarrow> 'o stack_sys \<Rightarrow> bool" where
  "stack_inv mapped page s \<longleftrightarrow>
     mset_set (mapped (st_vm (ks_stacks s))) = image_mset (region page) (ks_live s + pooled page (ks_stacks s)) \<and>
     (\<forall>stk. stk \<in># ks_live s + pooled page (ks_stacks s) \<longrightarrow> sized page stk)"

lemma pooled_upd:
  assumes "i < pool_count"
  shows "pooled page (st\<lparr>st_lists := (st_lists st)(i := bs)\<rparr>) + mset (map (\<lambda>b. (b, of_nat i * page)) (st_lists st i))
    = pooled page st + mset (map (\<lambda>b. (b, of_nat i * page)) bs)"
  using assms by (simp add: pooled_def sum.remove [of "{..<pool_count}" i] ac_simps)

lemma whole_pages: "s mod page = 0 \<Longrightarrow> of_nat (unat (s div page)) * page = s" for s page :: uint64
  using div_mult_mod_eq [of s page] by simp

lemma contractD:
  assumes "mmap_contract V mapped"
  shows "finite (mapped vm)" "r \<in> mapped vm \<Longrightarrow> unat (fst r) + unat (snd r) \<le> 2 ^ 64"
    "r \<in> mapped vm \<Longrightarrow> r' \<in> mapped vm \<Longrightarrow> r \<noteq> r' \<Longrightarrow> bytes r \<inter> bytes r' = {}"
    "vm_map V len vm = Some (low, vm') \<Longrightarrow> (low, len) \<notin> mapped vm \<and> mapped vm' = insert (low, len) (mapped vm)"
    "(low, len) \<in> mapped vm \<Longrightarrow> \<exists>vm'. vm_unmap V low len vm = Some vm' \<and> mapped vm' = mapped vm - {(low, len)}"
  using assms unfolding mmap_contract_def by (elim conjE; simp)+

lemma create_inv:
  assumes C: "mmap_contract V mapped" and page: "page = 2 ^ k" "k < 60" and inv: "stack_inv mapped page s"
    and small: "unat addstack + 11 * unat page < 2 ^ 64" and m: "mstack V page addstack (ks_stacks s) = Inr (stk, st)"
  shows "stack_inv mapped page \<lparr>ks_stacks = st, ks_live = add_mset stk (ks_live s)\<rparr>"
proof -
  let ?st = "ks_stacks s" and ?size = "stack_size page addstack"
  let ?i = "unat (?size div page)"
  have b: "unat ?size < 9 * unat page + unat addstack" "?size mod page = 0"
    using stack_size_bounds [OF page, of addstack] small by simp_all
  then have sz: "sized page (x, ?size)" for x using small by (simp add: sized_def)
  have eq: "mset_set (mapped (st_vm ?st)) = image_mset (region page) (ks_live s + pooled page ?st)"
    and all: "\<And>stk. stk \<in># ks_live s + pooled page ?st \<Longrightarrow> sized page stk"
    using inv by (auto simp: stack_inv_def)
  show ?thesis
  proof (cases "?i < pool_count \<and> st_lists ?st ?i \<noteq> []")
    case True
    then obtain c cs where cs: "st_lists ?st ?i = c # cs" by (meson neq_Nil_conv)
    have st: "stk = (c, ?size)" "st = ?st\<lparr>st_lists := (st_lists ?st)(?i := cs)\<rparr>"
      using m b(2) True cs by (auto simp: mstack_eq Let_def)
    have "pooled page ?st = add_mset stk (pooled page st)"
      using pooled_upd [of ?i page ?st cs] True cs whole_pages [OF b(2)] st by (simp add: ac_simps)
    then show ?thesis using eq all st by (auto simp: stack_inv_def)
  next
    case False
    then obtain low vm where v: "vm_map V (?size + 2 * page) (st_vm ?st) = Some (low, vm)"
        "stk = (low + page, ?size)" "st = ?st\<lparr>st_vm := vm\<rparr>"
      using m b(2) by (auto simp: mstack_eq Let_def split: option.splits)
    have M: "(low, ?size + 2 * page) \<notin> mapped (st_vm ?st)" "mapped vm = insert (low, ?size + 2 * page) (mapped (st_vm ?st))"
      using contractD(4) [OF C v(1)] by simp_all
    have "region page stk = (low, ?size + 2 * page)" by (simp add: v(2) region_def)
    moreover have "pooled page st = pooled page ?st" by (simp add: v(3) pooled_def)
    ultimately show ?thesis
      using eq all M sz contractD(1) [OF C] by (auto simp: stack_inv_def v(2,3))
  qed
qed

lemma destroy_inv:
  assumes C: "mmap_contract V mapped" and inv: "stack_inv mapped page s" and live: "stk \<in># ks_live s"
  shows "\<exists>st. munstack V page stk (ks_stacks s) = Inr st \<and>
    stack_inv mapped page \<lparr>ks_stacks = st, ks_live = ks_live s - {#stk#}\<rparr>"
proof -
  let ?st = "ks_stacks s" and ?i = "unat (snd stk div page)"
  obtain L where L: "ks_live s = add_mset stk L" using live by (meson multi_member_split)
  have eq: "mset_set (mapped (st_vm ?st)) = image_mset (region page) (ks_live s + pooled page ?st)"
    and all: "\<And>stk. stk \<in># ks_live s + pooled page ?st \<Longrightarrow> sized page stk"
    using inv by (auto simp: stack_inv_def)
  have sz: "snd stk mod page = 0" using all [of stk] live by (simp add: sized_def)
  show ?thesis
  proof (cases "?i < pool_count")
    case True
    let ?st' = "?st\<lparr>st_lists := (st_lists ?st)(?i := fst stk # st_lists ?st ?i)\<rparr>"
    have "pooled page ?st' = add_mset stk (pooled page ?st)"
      using pooled_upd [OF True, of page ?st "fst stk # st_lists ?st ?i"] whole_pages [OF sz] by simp
    moreover have "munstack V page stk ?st = Inr ?st'" using sz True by (simp add: munstack_eq Let_def)
    ultimately show ?thesis using eq all L by (auto simp: stack_inv_def)
  next
    case False
    have "region page stk \<in># mset_set (mapped (st_vm ?st))" using eq live by simp
    then have "(fst stk - page, snd stk + 2 * page) \<in> mapped (st_vm ?st)"
      using contractD(1) [OF C] by (simp add: region_def)
    from contractD(5) [OF C this] obtain vm where vm: "vm_unmap V (fst stk - page) (snd stk + 2 * page) (st_vm ?st) = Some vm"
        "mapped vm = mapped (st_vm ?st) - {region page stk}" by (auto simp: region_def)
    have "munstack V page stk ?st = Inr (?st\<lparr>st_vm := vm\<rparr>)" using sz False vm(1) by (simp add: munstack_eq Let_def)
    moreover have "mset_set (mapped vm) = mset_set (mapped (st_vm ?st)) - {#region page stk#}"
      using vm(2) contractD(1) [OF C] \<open>region page stk \<in># mset_set (mapped (st_vm ?st))\<close> by (simp add: mset_set_Diff)
    moreover have "pooled page (?st\<lparr>st_vm := vm\<rparr>) = pooled page ?st" by (simp add: pooled_def)
    ultimately show ?thesis using eq all L by (auto simp: stack_inv_def)
  qed
qed

lemma stack_reach:
  assumes "mmap_contract V mapped" "page = 2 ^ k" "k < 60" "mapped vm = {}"
    and "reach (\<lambda>s. s = stack_start vm) (stack_step V page) s"
  shows "stack_inv mapped page s"
proof -
  have "stack_inv mapped page (stack_start vm)"
    using assms(4) by (simp add: stack_inv_def stack_start_def pooled_def)
  moreover have "stack_inv mapped page t" if "stack_inv mapped page s" "stack_step V page s t" for s t
    using that(2,1)
  proof cases
    case (context_create addstack stk st)
    with create_inv [OF assms(1-3) that(1)] show ?thesis by blast
  next
    case (context_destroy stk st)
    with destroy_inv [OF assms(1) that(1)] show ?thesis by fastforce
  qed
  ultimately have "invariant_contract (\<lambda>s. s = stack_start vm) (stack_step V page) (stack_inv mapped page)"
    by unfold_locales blast+
  from invariant_contract.inv_reach [OF this assms(5)] show ?thesis .
qed

section \<open>Stacks do not overlap\<close>

lemma stack_in_region:
  assumes "sized page stk" "unat (fst (region page stk)) + unat (snd (region page stk)) \<le> 2 ^ 64" "0 < unat page"
  shows "bytes stk \<subseteq> bytes (region page stk)"
proof -
  have p2: "unat (2 * page) = 2 * unat page"
  proof -
    have "unat page + unat page < 2 ^ LENGTH(64)" using assms(1) by (simp add: sized_def)
    then have "unat (page + page) = unat page + unat page" by (rule unat_plus_less)
    then show ?thesis by (simp only: mult_2)
  qed
  have "unat (snd stk) + unat (2 * page) < 2 ^ LENGTH(64)" using assms(1) p2 by (simp add: sized_def)
  then have "unat (snd stk + 2 * page) = unat (snd stk) + unat (2 * page)" by (rule unat_plus_less)
  then have len: "unat (snd stk + 2 * page) = unat (snd stk) + 2 * unat page" using p2 by (simp only:)
  have "unat (fst stk - page) + unat page < 2 ^ LENGTH(64)"
    using assms(2,3) len by (simp add: region_def)
  then have "unat (fst stk - page + page) = unat (fst stk - page) + unat page" by (rule unat_plus_less)
  then have base: "unat (fst stk) = unat (fst stk - page) + unat page" by simp
  show ?thesis using len base by (auto simp: bytes_def region_def)
qed

lemma two_regions:
  assumes C: "mmap_contract V mapped" and inv: "stack_inv mapped page s" and p: "0 < unat page"
    and sub: "{#x, y#} \<subseteq># ks_live s + pooled page (ks_stacks s)"
  shows "bytes x \<inter> bytes y = {}"
proof -
  let ?M = "mapped (st_vm (ks_stacks s))"
  have eq: "mset_set ?M = image_mset (region page) (ks_live s + pooled page (ks_stacks s))"
    and all: "\<And>stk. stk \<in># ks_live s + pooled page (ks_stacks s) \<Longrightarrow> sized page stk"
    using inv by (auto simp: stack_inv_def)
  have two: "{#region page x, region page y#} \<subseteq># mset_set ?M"
    using image_mset_subseteq_mono [OF sub, of "region page"] eq by simp
  have "region page x \<in># mset_set ?M" "region page y \<in># mset_set ?M"
    using mset_subset_eqD [OF two] by simp_all
  then have M: "region page x \<in> ?M" "region page y \<in> ?M" using contractD(1) [OF C] by simp_all
  have "region page x \<noteq> region page y"
  proof
    assume same: "region page x = region page y"
    have "count (mset_set ?M) (region page y) \<le> 1" using count_mset_set(1) [OF contractD(1) [OF C]] by (simp add: count_mset_set')
    moreover have "count {#region page x, region page y#} (region page y) \<le> count (mset_set ?M) (region page y)"
      using two by (rule mset_subset_eq_count)
    ultimately show False using same by simp
  qed
  then have "bytes (region page x) \<inter> bytes (region page y) = {}" using contractD(3) [OF C M] by blast
  moreover have "x \<in># ks_live s + pooled page (ks_stacks s)" "y \<in># ks_live s + pooled page (ks_stacks s)"
    using mset_subset_eqD [OF sub] by simp_all
  then have "bytes x \<subseteq> bytes (region page x)" "bytes y \<subseteq> bytes (region page y)"
    using all stack_in_region p contractD(2) [OF C] M by blast+
  ultimately show ?thesis by blast
qed

text \<open>However contexts are created and destroyed, two stacks in use never share a byte, a stack in
  use shares none with a stack in a free list, every stack in the list of index \<open>i\<close> is mapped
  with exactly \<open>i\<close> pages, and giving a stack back always succeeds.\<close>

theorem stacks_disjoint:
  assumes "mmap_contract V mapped" "page = 2 ^ k" "k < 60" "mapped vm = {}"
    and "reach (\<lambda>s. s = stack_start vm) (stack_step V page) s"
  shows "(x \<in># ks_live s \<and> y \<in># ks_live s - {#x#} \<longrightarrow> bytes x \<inter> bytes y = {}) \<and>
    (x \<in># ks_live s \<and> i < pool_count \<and> b \<in> set (st_lists (ks_stacks s) i) \<longrightarrow>
       bytes x \<inter> bytes (b, of_nat i * page) = {} \<and>
       (b - page, of_nat i * page + 2 * page) \<in> mapped (st_vm (ks_stacks s))) \<and>
    (x \<in># ks_live s \<longrightarrow> (\<exists>st. munstack V page x (ks_stacks s) = Inr st))"
proof -
  have inv: "stack_inv mapped page s" using assms by (rule stack_reach)
  have p: "0 < unat page" using assms(2,3) unat_page by simp
  have pool: "(b, of_nat i * page) \<in># pooled page (ks_stacks s)" if "i < pool_count" "b \<in> set (st_lists (ks_stacks s) i)" for i b
    using that by (auto simp: pooled_def set_mset_sum)
  show ?thesis
  proof (intro conjI impI; (elim conjE)?)
    assume xy: "x \<in># ks_live s" "y \<in># ks_live s - {#x#}"
    then obtain L where L: "ks_live s = add_mset x L" by (meson multi_member_split)
    then have "{#x, y#} \<subseteq># ks_live s + pooled page (ks_stacks s)" using xy(2) by simp
    then show "bytes x \<inter> bytes y = {}" by (rule two_regions [OF assms(1) inv p])
  next
    assume x: "x \<in># ks_live s" "i < pool_count" "b \<in> set (st_lists (ks_stacks s) i)"
    obtain L where L: "ks_live s = add_mset x L" using x(1) by (meson multi_member_split)
    have "{#x, (b, of_nat i * page)#} \<subseteq># ks_live s + pooled page (ks_stacks s)"
      using pool [OF x(2,3)] L by simp
    then show "bytes x \<inter> bytes (b, of_nat i * page) = {}" by (rule two_regions [OF assms(1) inv p])
  next
    assume "i < pool_count" "b \<in> set (st_lists (ks_stacks s) i)"
    from pool [OF this] have "region page (b, of_nat i * page) \<in># mset_set (mapped (st_vm (ks_stacks s)))"
      using inv by (simp add: stack_inv_def)
    then show "(b - page, of_nat i * page + 2 * page) \<in> mapped (st_vm (ks_stacks s))"
      using contractD(1) [OF assms(1)] by (simp add: region_def)
  next
    assume "x \<in># ks_live s"
    from destroy_inv [OF assms(1) inv this] show "\<exists>st. munstack V page x (ks_stacks s) = Inr st" by blast
  qed
qed

text \<open>An operating system with room for one region.\<close>

definition tiny_vm :: "stack option vm_ops" where
  "tiny_vm =
     \<lparr>vm_map = (\<lambda>len vm. if vm = None \<and> 4096 + unat len \<le> 2 ^ 64 then Some (4096, Some (4096, len)) else None),
      vm_unmap = (\<lambda>low len vm. Some (if vm = Some (low, len) then None else vm))\<rparr>"

definition tiny_mapped :: "stack option \<Rightarrow> stack set" where
  "tiny_mapped vm = (case vm of None \<Rightarrow> {} | Some r \<Rightarrow> if unat (fst r) + unat (snd r) \<le> 2 ^ 64 then {r} else {})"

lemma tiny_contract: "mmap_contract tiny_vm tiny_mapped"
  by (auto simp: mmap_contract_def tiny_vm_def tiny_mapped_def split: option.splits if_splits)

theorem stacks_disjoint_witness:
  "\<exists>s. reach (\<lambda>s. s = stack_start None) (stack_step tiny_vm 4096) s \<and> ks_live s = {#(8192, 40960)#} \<and>
    (\<exists>st. munstack tiny_vm 4096 (8192, 40960) (ks_stacks s) = Inr st)"
proof -
  let ?st = "\<lparr>st_lists = (\<lambda>_. []), st_vm = Some (4096, 49152)\<rparr>"
  let ?s = "\<lparr>ks_stacks = ?st, ks_live = {#(8192, 40960)#}\<rparr>"
  have "stack_size 4096 5000 = 40960" by (simp add: stack_size_def Let_def)
  then have "mstack tiny_vm 4096 5000 (ks_stacks (stack_start None)) = Inr ((8192, 40960), ?st)"
    by (simp add: mstack_eq stack_start_def tiny_vm_def Let_def)
  then have "stack_step tiny_vm 4096 (stack_start None) ?s"
    using context_create [of 5000 4096 tiny_vm "stack_start None" "(8192, 40960)" ?st] by (simp add: stack_start_def)
  then have r: "reach (\<lambda>s. s = stack_start None) (stack_step tiny_vm 4096) ?s"
    by (intro reach_step [OF reach_init]) simp_all
  have "tiny_mapped None = {}" by (simp add: tiny_mapped_def)
  from stacks_disjoint [OF tiny_contract _ _ this r, of 12 "(8192, 40960)"] r show ?thesis by auto
qed

end
