(* ===== verification/Coroutine_Context.thy ===== *)
theory Coroutine_Context
  imports Stack_Pool
begin

text \<open>
  \<^verbatim>\<open>class Context\<close> of \<^verbatim>\<open>src/context.cpp\<close>: the objects, which are recycled through two levels of
  free lists, and the stack each of them owns, unless it stands for a thread's own stack. What
  \<^verbatim>\<open>getcontext\<close>, \<^verbatim>\<open>makecontext\<close> and \<^verbatim>\<open>swapcontext\<close> do to the machine is not modelled.
\<close>

section \<open>Objects and their stacks\<close>

record cx =
  cx_stackbase :: uint64
  cx_stacksize :: uint64

record ('n, 'f, 'o) context_store =
  cs_pools :: "'f pools"
  cs_heap :: "'n \<Rightarrow> cx option"
  cs_stacks :: "'o stacks"

datatype context_error = BadAlloc | StackAssert stack_error | BadContext

definition allocContext :: "('f, 'n) free_ops \<Rightarrow> nat \<Rightarrow> 'f pools \<Rightarrow> 'n option \<times> 'f pools" where
  "allocContext F td ps =
     (case fl_take F (pl_local ps td) of
        (Some ctx, l) \<Rightarrow> (Some ctx, ps\<lparr>pl_local := (pl_local ps)(td := l)\<rparr>)
      | (None, l) \<Rightarrow>
          (let ps1 = ps\<lparr>pl_local := (pl_local ps)(td := l)\<rparr>
           in case fl_take F (pl_global ps1) of
                (r, g) \<Rightarrow> (r, ps1\<lparr>pl_global := g\<rparr>)))"

definition context_limit :: nat where
  "context_limit = 5000"

definition deallocContext :: "('f, 'n) free_ops \<Rightarrow> nat \<Rightarrow> 'n \<Rightarrow> 'f pools \<Rightarrow> 'f pools" where
  "deallocContext F td ctx ps =
     (if fl_size F (pl_local ps td) \<ge> context_limit then ps\<lparr>pl_global := fl_push F ctx (pl_global ps)\<rparr>
      else ps\<lparr>pl_local := (pl_local ps)(td := fl_push F ctx (pl_local ps td))\<rparr>)"

text \<open>Where the object is constructed: recycled memory, or what \<^verbatim>\<open>new\<close> gives (\<open>mem\<close>).\<close>

definition context_place :: "('f, 'n) free_ops \<Rightarrow> 'n option \<Rightarrow> nat \<Rightarrow> ('n, 'f, 'o) context_store \<Rightarrow>
    'n option \<times> ('n, 'f, 'o) context_store" where
  "context_place F mem td st =
     (case allocContext F td (cs_pools st) of
        (Some ctx, ps) \<Rightarrow> (Some ctx, st\<lparr>cs_pools := ps\<rparr>)
      | (None, ps) \<Rightarrow> (mem, st\<lparr>cs_pools := ps\<rparr>))"

text \<open>\<^verbatim>\<open>create()\<close>, for the context of a thread, which has no stack of its own here.\<close>

definition context_of_thread :: "('f, 'n) free_ops \<Rightarrow> 'n option \<Rightarrow> nat \<Rightarrow> ('n, 'f, 'o) context_store \<Rightarrow>
    context_error + 'n \<times> ('n, 'f, 'o) context_store" where
  "context_of_thread F mem td st =
     (case context_place F mem td st of
        (None, st1) \<Rightarrow> Inl BadAlloc
      | (Some ctx, st1) \<Rightarrow> Inr (ctx, st1\<lparr>cs_heap := (cs_heap st1)(ctx \<mapsto> \<lparr>cx_stackbase = 0, cx_stacksize = 0\<rparr>)\<rparr>))"

text \<open>\<^verbatim>\<open>create(func, arg, addstack)\<close>, for the context of a coroutine.\<close>

definition context_create :: "('f, 'n) free_ops \<Rightarrow> 'o vm_ops \<Rightarrow> uint64 \<Rightarrow> 'n option \<Rightarrow> nat \<Rightarrow> uint64 \<Rightarrow>
    ('n, 'f, 'o) context_store \<Rightarrow> context_error + 'n \<times> ('n, 'f, 'o) context_store" where
  "context_create F V page mem td addstack st =
     (case context_place F mem td st of
        (None, st1) \<Rightarrow> Inl BadAlloc
      | (Some ctx, st1) \<Rightarrow>
          (case mstack V page addstack (cs_stacks st1) of
             Inl e \<Rightarrow> Inl (StackAssert e)
           | Inr ((stackbase, stacksize), stacks) \<Rightarrow>
               Inr (ctx, st1\<lparr>cs_heap := (cs_heap st1)(ctx \<mapsto> \<lparr>cx_stackbase = stackbase, cx_stacksize = stacksize\<rparr>),
                             cs_stacks := stacks\<rparr>)))"

text \<open>\<^verbatim>\<open>destroy\<close>: the destructor gives the stack back, if there is one, then the object is recycled.\<close>

definition context_destroy :: "('f, 'n) free_ops \<Rightarrow> 'o vm_ops \<Rightarrow> uint64 \<Rightarrow> nat \<Rightarrow> 'n \<Rightarrow>
    ('n, 'f, 'o) context_store \<Rightarrow> context_error + ('n, 'f, 'o) context_store" where
  "context_destroy F V page td ctx st =
     (case cs_heap st ctx of
        None \<Rightarrow> Inl BadContext
      | Some c \<Rightarrow>
          (case (if cx_stackbase c \<noteq> 0 then munstack V page (cx_stackbase c, cx_stacksize c) (cs_stacks st)
                 else Inr (cs_stacks st)) of
             Inl e \<Rightarrow> Inl (StackAssert e)
           | Inr stacks \<Rightarrow> Inr \<lparr>cs_pools = deallocContext F td ctx (cs_pools st), cs_heap = (cs_heap st)(ctx := None),
                               cs_stacks = stacks\<rparr>))"

section \<open>All threads\<close>

record ('n, 'f, 'o) context_sys =
  cy_store :: "('n, 'f, 'o) context_store"
  cy_allocated :: "'n set"

definition context_start :: "('f, 'n) free_ops \<Rightarrow> 'o \<Rightarrow> ('n, 'f, 'o) context_sys" where
  "context_start F vm = \<lparr>cy_store = \<lparr>cs_pools = pools_start F, cs_heap = (\<lambda>_. None),
     cs_stacks = \<lparr>st_lists = (\<lambda>_. []), st_vm = vm\<rparr>\<rparr>, cy_allocated = {}\<rparr>"

inductive context_step :: "('f, 'n) free_ops \<Rightarrow> 'o vm_ops \<Rightarrow> uint64 \<Rightarrow>
    ('n, 'f, 'o) context_sys \<Rightarrow> ('n, 'f, 'o) context_sys \<Rightarrow> bool"
  for F :: "('f, 'n) free_ops" and V :: "'o vm_ops" and page :: uint64 where
  thread_context: "a \<notin> cy_allocated s \<Longrightarrow> context_of_thread F (Some a) td (cy_store s) = Inr (ctx, st) \<Longrightarrow>
    context_step F V page s \<lparr>cy_store = st, cy_allocated = (if ctx = a then insert a (cy_allocated s) else cy_allocated s)\<rparr>"
| coroutine_context: "a \<notin> cy_allocated s \<Longrightarrow> unat addstack + 11 * unat page < 2 ^ 64 \<Longrightarrow>
    context_create F V page (Some a) td addstack (cy_store s) = Inr (ctx, st) \<Longrightarrow>
    context_step F V page s \<lparr>cy_store = st, cy_allocated = (if ctx = a then insert a (cy_allocated s) else cy_allocated s)\<rparr>"
| end_context: "context_destroy F V page td ctx (cy_store s) = Inr st \<Longrightarrow> context_step F V page s (s\<lparr>cy_store := st\<rparr>)"

inductive_cases context_stepE: "context_step F V page s t"

lemma allocContext_two: "allocContext F = take_two F"
  by (intro ext) (auto simp: allocContext_def take_two_def Let_def split: prod.splits option.splits)

lemma deallocContext_two: "deallocContext F = put_two F context_limit"
  by (intro ext) (simp add: deallocContext_def put_two_def)

sublocale free_list < contexts: object_pool "allocContext F" "deallocContext F" "bag_of items" context_limit
  unfolding allocContext_two deallocContext_two by (rule two_levels)

section \<open>The stacks of the contexts are a run of the stack pool\<close>

definition cx_stack :: "cx \<Rightarrow> stack" where
  "cx_stack c = (cx_stackbase c, cx_stacksize c)"

definition with_stack :: "('n \<Rightarrow> cx option) \<Rightarrow> 'n set" where
  "with_stack h = {ctx. \<exists>c. h ctx = Some c \<and> cx_stackbase c \<noteq> 0}"

definition context_stacks :: "('n, 'f, 'o) context_sys \<Rightarrow> 'o stack_sys" where
  "context_stacks s = \<lparr>ks_stacks = cs_stacks (cy_store s),
     ks_live = image_mset (\<lambda>ctx. cx_stack (the (cs_heap (cy_store s) ctx))) (mset_set (with_stack (cs_heap (cy_store s))))\<rparr>"

lemma context_stacks_ks: "ks_stacks (context_stacks s) = cs_stacks (cy_store s)"
  by (simp add: context_stacks_def)

text \<open>As for messages: every object in use or free once.\<close>

definition context_inv :: "('f \<Rightarrow> 'n multiset) \<Rightarrow> ('o \<Rightarrow> stack set) \<Rightarrow> uint64 \<Rightarrow> ('n, 'f, 'o) context_sys \<Rightarrow> bool" where
  "context_inv items mapped page s \<longleftrightarrow>
     (let st = cy_store s; bag = bag_of items (cs_pools st) in
      exclusive bag (dom (cs_heap st)) \<and> cy_allocated s = dom (cs_heap st) \<union> free_items bag \<and>
      finite (dom (cs_heap st))) \<and>
     stack_inv mapped page (context_stacks s)"

lemma with_stack_finite: "finite (dom h) \<Longrightarrow> finite (with_stack h)"
  by (rule finite_subset [of _ "dom h"]) (auto simp: with_stack_def)

text \<open>No stack begins at the null pointer: there is a guard page below it.\<close>

lemma stack_not_null:
  assumes C: "mmap_contract V mapped" and inv: "stack_inv mapped page s" and live: "stk \<in># ks_live s" and p: "0 < unat page"
  shows "fst stk \<noteq> 0"
proof
  assume null: "fst stk = 0"
  have "region page stk \<in># mset_set (mapped (st_vm (ks_stacks s)))" using inv live by (simp add: stack_inv_def)
  then have "unat (fst (region page stk)) + unat (snd (region page stk)) \<le> 2 ^ 64"
    using contractD(1,2) [OF C] by simp
  moreover have sz: "unat (snd stk) + 2 * unat page < 2 ^ 64" using inv live by (cases stk) (auto simp: stack_inv_def sized_def)
  have "unat page + unat page < 2 ^ LENGTH(64)" using sz by simp
  then have p2: "unat (2 * page) = 2 * unat page" using unat_plus_less [of page page] by (simp only: mult_2)
  have "unat (snd stk + 2 * page) = unat (snd stk) + 2 * unat page"
    using unat_plus_less [of "snd stk" "2 * page"] sz p2 by simp
  moreover have "2 ^ 64 \<le> unat (- page) + unat page"
  proof (rule ccontr)
    assume "\<not> ?thesis"
    then have "unat (- page + page) = unat (- page) + unat page" by (intro unat_plus_less) simp
    with p show False by simp
  qed
  ultimately show False using null p by (simp add: region_def)
qed

text \<open>A new context adds its stack, if it has one, and the end of a context removes it.\<close>

lemma stacks_add:
  assumes "finite (dom (cs_heap (cy_store s)))" "cs_heap (cy_store s) ctx = None"
    and "cs_heap (cy_store t) = (cs_heap (cy_store s))(ctx \<mapsto> c)"
  shows "ks_live (context_stacks t) =
    (if cx_stackbase c \<noteq> 0 then add_mset (cx_stack c) (ks_live (context_stacks s)) else ks_live (context_stacks s))"
proof -
  let ?h = "cs_heap (cy_store s)"
  have new: "ctx \<notin> with_stack ?h" using assms(2) by (simp add: with_stack_def)
  have fin: "finite (with_stack ?h)" using assms(1) by (rule with_stack_finite)
  have ws: "with_stack (?h(ctx \<mapsto> c)) = (if cx_stackbase c \<noteq> 0 then insert ctx (with_stack ?h) else with_stack ?h)"
    using assms(2) by (auto simp: with_stack_def)
  have "image_mset (\<lambda>x. cx_stack (the ((?h(ctx \<mapsto> c)) x))) (mset_set (with_stack ?h)) =
      image_mset (\<lambda>x. cx_stack (the (?h x))) (mset_set (with_stack ?h))"
    using new fin by (intro image_mset_cong) auto
  with ws new fin assms(3) show ?thesis by (simp add: context_stacks_def)
qed

lemma stacks_remove:
  assumes "finite (dom (cs_heap (cy_store s)))" "cs_heap (cy_store s) ctx = Some c"
    and "cs_heap (cy_store t) = (cs_heap (cy_store s))(ctx := None)"
  shows "ks_live (context_stacks t) =
    (if cx_stackbase c \<noteq> 0 then ks_live (context_stacks s) - {#cx_stack c#} else ks_live (context_stacks s)) \<and>
    (cx_stackbase c \<noteq> 0 \<longrightarrow> cx_stack c \<in># ks_live (context_stacks s))"
proof -
  have "ks_live (context_stacks s) =
    (if cx_stackbase c \<noteq> 0 then add_mset (cx_stack c) (ks_live (context_stacks t)) else ks_live (context_stacks t))"
    by (rule stacks_add [of t ctx]) (use assms in auto)
  then show ?thesis by simp
qed

context free_list
begin

lemma place_fresh:
  assumes inv: "context_inv items mapped page s" and a: "a \<notin> cy_allocated s"
    and p: "context_place F (Some a) td (cy_store s) = (r, st)"
  obtains ctx where "r = Some ctx" "cs_heap (cy_store s) ctx = None" "cs_heap st = cs_heap (cy_store s)"
    "cs_stacks st = cs_stacks (cy_store s)" "exclusive (bag_of items (cs_pools st)) (insert ctx (dom (cs_heap (cy_store s))))"
    "(if ctx = a then insert a (cy_allocated s) else cy_allocated s) =
      insert ctx (dom (cs_heap (cy_store s))) \<union> free_items (bag_of items (cs_pools st))"
proof -
  let ?ps = "cs_pools (cy_store s)" and ?L = "dom (cs_heap (cy_store s))"
  have I: "exclusive (bag_of items ?ps) ?L" "cy_allocated s = ?L \<union> free_items (bag_of items ?ps)"
    using inv by (simp_all add: context_inv_def Let_def)
  obtain x ps where t: "allocContext F td ?ps = (x, ps)" by (metis surj_pair)
  show ?thesis
  proof (cases x)
    case None
    then have "bag_of items ps = bag_of items ?ps" using contexts.take_none_bag t by simp
    with None t a p I show ?thesis by (intro that [of a]) (auto simp: context_place_def intro: exclusive_insert)
  next
    case (Some y)
    then have T: "y \<notin> ?L" "exclusive (bag_of items ps) (insert y ?L)"
        "free_items (bag_of items ?ps) = insert y (free_items (bag_of items ps))"
      using contexts.take_exclusive [OF _ I(1)] t by blast+
    then have "y \<noteq> a" using a I(2) by blast
    with T Some t p I(2) show ?thesis by (intro that [of y]) (auto simp: context_place_def)
  qed
qed

text \<open>One step keeps the invariant, and is a step of the stack pool or leaves it alone.\<close>

lemma context_step_inv:
  assumes C: "mmap_contract V mapped" and page: "page = 2 ^ k" "k < 60"
    and inv: "context_inv items mapped page s" and step: "context_step F V page s t"
  shows "context_inv items mapped page t \<and>
    (context_stacks t = context_stacks s \<or> stack_step V page (context_stacks s) (context_stacks t))"
proof -
  have p: "0 < unat page" using page unat_page by simp
  have fin: "finite (dom (cs_heap (cy_store s)))" and sinv: "stack_inv mapped page (context_stacks s)"
    using inv by (simp_all add: context_inv_def Let_def)
  note ks = context_stacks_ks
  show ?thesis
    using step
  proof cases
    case (thread_context a td ctx st)
    obtain r st1 where pl: "context_place F (Some a) td (cy_store s) = (r, st1)" by (metis surj_pair)
    from place_fresh [OF inv thread_context(2) pl] obtain ctx' where ctx: "r = Some ctx'"
      "cs_heap (cy_store s) ctx' = None" "cs_heap st1 = cs_heap (cy_store s)" "cs_stacks st1 = cs_stacks (cy_store s)"
      "exclusive (bag_of items (cs_pools st1)) (insert ctx' (dom (cs_heap (cy_store s))))"
      "(if ctx' = a then insert a (cy_allocated s) else cy_allocated s) =
        insert ctx' (dom (cs_heap (cy_store s))) \<union> free_items (bag_of items (cs_pools st1))" .
    have st: "ctx = ctx'" "st = st1\<lparr>cs_heap := (cs_heap (cy_store s))(ctx' \<mapsto> \<lparr>cx_stackbase = 0, cx_stacksize = 0\<rparr>)\<rparr>"
      using thread_context(3) pl ctx(1,3) by (auto simp: context_of_thread_def)
    have "context_stacks t = context_stacks s"
      using stacks_add [OF fin ctx(2), of t] ks [of t] ks [of s] ctx(4) st thread_context(1) by simp
    then show ?thesis
      using ctx(5,6) fin sinv st thread_context(1) by (simp add: context_inv_def Let_def)
  next
    case (coroutine_context a addstack td ctx st)
    obtain r st1 where pl: "context_place F (Some a) td (cy_store s) = (r, st1)" by (metis surj_pair)
    from place_fresh [OF inv coroutine_context(2) pl] obtain ctx' where ctx: "r = Some ctx'"
      "cs_heap (cy_store s) ctx' = None" "cs_heap st1 = cs_heap (cy_store s)" "cs_stacks st1 = cs_stacks (cy_store s)"
      "exclusive (bag_of items (cs_pools st1)) (insert ctx' (dom (cs_heap (cy_store s))))"
      "(if ctx' = a then insert a (cy_allocated s) else cy_allocated s) =
        insert ctx' (dom (cs_heap (cy_store s))) \<union> free_items (bag_of items (cs_pools st1))" .
    obtain base size stacks where m: "mstack V page addstack (cs_stacks (cy_store s)) = Inr ((base, size), stacks)" and
      st: "ctx = ctx'" "st = st1\<lparr>cs_heap := (cs_heap (cy_store s))(ctx' \<mapsto> \<lparr>cx_stackbase = base, cx_stacksize = size\<rparr>), cs_stacks := stacks\<rparr>"
      using coroutine_context(4) pl ctx(1,3,4) by (auto simp: context_create_def split: sum.splits)
    let ?u = "\<lparr>ks_stacks = stacks, ks_live = add_mset (base, size) (ks_live (context_stacks s))\<rparr>"
    have m': "mstack V page addstack (ks_stacks (context_stacks s)) = Inr ((base, size), stacks)" using m by (simp add: ks)
    have "stack_inv mapped page ?u" by (rule create_inv [OF C page sinv coroutine_context(3) m'])
    moreover from stack_not_null [OF C this _ p, of "(base, size)"] have "base \<noteq> 0" by simp
    then have "context_stacks t = ?u"
      using stacks_add [OF fin ctx(2), of t] ks [of t] st coroutine_context(1) by (simp add: cx_stack_def)
    moreover have "stack_step V page (context_stacks s) ?u"
      by (rule context_create [OF coroutine_context(3) m'])
    ultimately show ?thesis
      using ctx(5,6) fin st coroutine_context(1) by (simp add: context_inv_def Let_def)
  next
    case (end_context td ctx st)
    obtain c stacks where c: "cs_heap (cy_store s) ctx = Some c" and
      m: "(if cx_stackbase c \<noteq> 0 then munstack V page (cx_stackbase c, cx_stacksize c) (cs_stacks (cy_store s)) else Inr (cs_stacks (cy_store s))) = Inr stacks" and
      st: "st = \<lparr>cs_pools = deallocContext F td ctx (cs_pools (cy_store s)), cs_heap = (cs_heap (cy_store s))(ctx := None), cs_stacks = stacks\<rparr>"
      using end_context(2) by (auto simp: context_destroy_def split: option.splits sum.splits)
    have I: "exclusive (bag_of items (cs_pools (cy_store s))) (dom (cs_heap (cy_store s)))"
        "cy_allocated s = dom (cs_heap (cy_store s)) \<union> free_items (bag_of items (cs_pools (cy_store s)))"
      using inv by (simp_all add: context_inv_def Let_def)
    have live: "ctx \<in> dom (cs_heap (cy_store s))" using c by (rule domI)
    have rest: "exclusive (bag_of items (cs_pools (cy_store t))) (dom (cs_heap (cy_store t))) \<and>
        cy_allocated t = dom (cs_heap (cy_store t)) \<union> free_items (bag_of items (cs_pools (cy_store t))) \<and>
        finite (dom (cs_heap (cy_store t)))"
      using contexts.put_exclusive [OF I(1) live, of td] live I(2) fin st end_context(1) by auto
    have rem: "ks_live (context_stacks t) = (if cx_stackbase c \<noteq> 0 then ks_live (context_stacks s) - {#cx_stack c#}
        else ks_live (context_stacks s))" "cx_stackbase c \<noteq> 0 \<Longrightarrow> cx_stack c \<in># ks_live (context_stacks s)"
      using stacks_remove [OF fin c, of t] st end_context(1) by simp_all
    show ?thesis
    proof (cases "cx_stackbase c \<noteq> 0")
      case True
      let ?u = "\<lparr>ks_stacks = stacks, ks_live = ks_live (context_stacks s) - {#cx_stack c#}\<rparr>"
      have m': "munstack V page (cx_stack c) (ks_stacks (context_stacks s)) = Inr stacks" using m True by (simp add: ks cx_stack_def)
      have u: "context_stacks t = ?u" using rem(1) True ks [of t] st end_context(1) by simp
      have "stack_inv mapped page ?u" using destroy_inv [OF C sinv rem(2) [OF True]] m' by auto
      moreover have "stack_step V page (context_stacks s) ?u" by (rule context_destroy [OF rem(2) [OF True] m'])
      ultimately show ?thesis using rest u by (simp add: context_inv_def Let_def)
    next
      case False
      then have "context_stacks t = context_stacks s" using rem(1) m ks [of s] ks [of t] st end_context(1) by simp
      with rest sinv show ?thesis by (simp add: context_inv_def Let_def)
    qed
  qed
qed

end

lemma context_reach:
  assumes L: "free_list F items" and C: "mmap_contract V mapped" "page = 2 ^ k" "k < 60" "mapped vm = {}"
    and r: "reach (\<lambda>s. s = context_start F vm) (context_step F V page) s"
  shows "context_inv items mapped page s \<and> reach (\<lambda>s. s = stack_start vm) (stack_step V page) (context_stacks s)"
  using r
proof (induction rule: reach.induct)
  case (reach_init s)
  have "context_stacks (context_start F vm) = stack_start vm"
    by (simp add: context_stacks_def context_start_def stack_start_def with_stack_def)
  moreover have "stack_inv mapped page (stack_start vm)"
    by (rule stack_reach [OF C]) (rule reach.reach_init, simp)
  ultimately show ?case
    using reach_init free_list.items_empty [OF L]
    by (auto simp: context_inv_def context_start_def pools_start_def bag_of_def exclusive_def free_items_def
        intro: reach.reach_init split: option.splits)
next
  case (reach_step s t)
  with free_list.context_step_inv [OF L C(1-3), of s t] show ?case by (metis reach.reach_step)
qed

lemma context_destroy_succeeds:
  assumes C: "mmap_contract V mapped" and inv: "context_inv items mapped page s" and c: "cs_heap (cy_store s) ctx = Some c"
  shows "\<exists>st. context_destroy F V page td ctx (cy_store s) = Inr st"
proof (cases "cx_stackbase c \<noteq> 0")
  case True
  have fin: "finite (with_stack (cs_heap (cy_store s)))"
    using inv by (intro with_stack_finite) (simp add: context_inv_def Let_def)
  have "ctx \<in> with_stack (cs_heap (cy_store s))" using c True by (simp add: with_stack_def)
  then have "cx_stack c \<in># ks_live (context_stacks s)" using fin c by (auto simp: context_stacks_def intro!: rev_image_eqI)
  moreover have "stack_inv mapped page (context_stacks s)" using inv by (simp add: context_inv_def)
  ultimately obtain st where "munstack V page (cx_stack c) (cs_stacks (cy_store s)) = Inr st"
    using destroy_inv [OF C] by (metis context_stacks_ks)
  with True c show ?thesis by (simp add: context_destroy_def cx_stack_def)
qed (use c in \<open>simp add: context_destroy_def\<close>)

lemma two_stacks:
  assumes "finite (with_stack h)" "a \<in> with_stack h" "b \<in> with_stack h" "a \<noteq> b"
  shows "g b \<in># image_mset g (mset_set (with_stack h)) - {#g a#}"
proof -
  have "mset_set (with_stack h) = add_mset a (mset_set (with_stack h - {a}))"
    using assms(1,2) by (simp add: mset_set.remove)
  with assms show ?thesis by simp
qed

text \<open>C28
  Contexts own their stacks: whatever threads create and destroy contexts, what happens to the
  stacks is a run of the stack pool; two contexts never share a stack or a byte of one; the memory
  of a context is in use or free in one list, once; and destroying a context always succeeds.\<close>

theorem contexts_own_stacks:
  assumes "free_list F items" "mmap_contract V mapped" "page = 2 ^ k" "k < 60" "mapped vm = {}"
    and "reach (\<lambda>s. s = context_start F vm) (context_step F V page) s"
    and "cs_heap (cy_store s) a = Some c" "cs_heap (cy_store s) b = Some d" "a \<noteq> b"
  shows "reach (\<lambda>s. s = stack_start vm) (stack_step V page) (context_stacks s) \<and>
    (cx_stackbase c \<noteq> 0 \<and> cx_stackbase d \<noteq> 0 \<longrightarrow> bytes (cx_stack c) \<inter> bytes (cx_stack d) = {}) \<and>
    cy_allocated s = dom (cs_heap (cy_store s)) \<union> free_items (bag_of items (cs_pools (cy_store s))) \<and>
    exclusive (bag_of items (cs_pools (cy_store s))) (dom (cs_heap (cy_store s))) \<and>
    (\<exists>st. context_destroy F V page td a (cy_store s) = Inr st)"
proof -
  note R = context_reach [OF assms(1-6)]
  have inv: "context_inv items mapped page s" using R ..
  let ?h = "cs_heap (cy_store s)" and ?g = "\<lambda>ctx. cx_stack (the (cs_heap (cy_store s) ctx))"
  have "bytes (cx_stack c) \<inter> bytes (cx_stack d) = {}" if "cx_stackbase c \<noteq> 0" "cx_stackbase d \<noteq> 0"
  proof -
    have ab: "a \<in> with_stack ?h" "b \<in> with_stack ?h" using that assms(7,8) by (simp_all add: with_stack_def)
    have fin: "finite (with_stack ?h)" using inv by (intro with_stack_finite) (simp add: context_inv_def Let_def)
    have p: "0 < unat page" using assms(3,4) unat_page by simp
    have live: "ks_live (context_stacks s) = image_mset ?g (mset_set (with_stack ?h))" by (simp add: context_stacks_def)
    have "cx_stack d \<in># ks_live (context_stacks s) - {#cx_stack c#}"
      using two_stacks [OF fin ab assms(9), of ?g] live assms(7,8) by simp
    moreover have "cx_stack c \<in># ks_live (context_stacks s)"
      using ab(1) fin assms(7) live by (auto intro!: rev_image_eqI)
    ultimately have "{#cx_stack c, cx_stack d#} \<subseteq># ks_live (context_stacks s) + pooled page (ks_stacks (context_stacks s))"
      by (meson insert_subset_eq_iff mset_subset_eq_add_left mset_subset_eq_single subset_mset.order_trans)
    with inv show ?thesis by (intro two_regions [OF assms(2) _ p]) (simp_all add: context_inv_def)
  qed
  with R context_destroy_succeeds [OF assms(2) inv assms(7)] show ?thesis by (auto simp: context_inv_def Let_def)
qed

theorem contexts_own_stacks_witness:
  "\<exists>s. reach (\<lambda>s. s = context_start link_ops None) (context_step link_ops tiny_vm 4096) s \<and>
    cs_heap (cy_store s) (2::nat) = Some \<lparr>cx_stackbase = 8192, cx_stacksize = 40960\<rparr> \<and>
    cs_heap (cy_store s) 1 = Some \<lparr>cx_stackbase = 0, cx_stacksize = 0\<rparr> \<and>
    (\<exists>st. context_destroy link_ops tiny_vm 4096 0 2 (cy_store s) = Inr st)"
proof -
  let ?s0 = "context_start link_ops None :: (nat, nat list, stack option) context_sys"
  let ?ps = "\<lparr>pl_local = (\<lambda>_. [])(0 := []), pl_global = []\<rparr>"
  let ?st1 = "\<lparr>cs_pools = ?ps, cs_heap = [1 \<mapsto> \<lparr>cx_stackbase = 0, cx_stacksize = 0\<rparr>],
    cs_stacks = \<lparr>st_lists = (\<lambda>_. []), st_vm = None\<rparr>\<rparr> :: (nat, nat list, stack option) context_store"
  let ?s1 = "\<lparr>cy_store = ?st1, cy_allocated = {1}\<rparr>"
  let ?ps2 = "?ps\<lparr>pl_local := (pl_local ?ps)(0 := [])\<rparr>"
  let ?st2 = "\<lparr>cs_pools = ?ps2, cs_heap = (cs_heap ?st1)(2 \<mapsto> \<lparr>cx_stackbase = 8192, cx_stacksize = 40960\<rparr>),
    cs_stacks = \<lparr>st_lists = (\<lambda>_. []), st_vm = Some (4096, 49152)\<rparr>\<rparr>"
  let ?s2 = "\<lparr>cy_store = ?st2, cy_allocated = {2, 1}\<rparr>"
  have "context_of_thread link_ops (Some 1) 0 (cy_store ?s0) = Inr (1, ?st1)"
    by (simp add: context_of_thread_def context_place_def allocContext_def context_start_def pools_start_def link_ops_def Let_def)
  then have 1: "context_step link_ops tiny_vm 4096 ?s0 ?s1"
    using context_step.thread_context [of 1 ?s0 link_ops 0 1 ?st1] by (simp add: context_start_def)
  have "stack_size 4096 5000 = 40960" by (simp add: stack_size_def Let_def)
  then have "mstack tiny_vm 4096 5000 (cs_stacks ?st1) = Inr ((8192, 40960), cs_stacks ?st2)"
    by (simp add: mstack_eq tiny_vm_def Let_def)
  then have "context_create link_ops tiny_vm 4096 (Some 2) 0 5000 (cy_store ?s1) = Inr (2, ?st2)"
    by (simp add: context_create_def context_place_def allocContext_def link_ops_def Let_def)
  then have 2: "context_step link_ops tiny_vm 4096 ?s1 ?s2"
    using context_step.coroutine_context [of 2 ?s1 5000 4096 link_ops tiny_vm 0 2 ?st2] by simp
  have "reach (\<lambda>s. s = ?s0) (context_step link_ops tiny_vm 4096) ?s0" by (rule reach_init) simp
  then have "reach (\<lambda>s. s = ?s0) (context_step link_ops tiny_vm 4096) ?s1" using 1 by (rule reach_step)
  then have r: "reach (\<lambda>s. s = ?s0) (context_step link_ops tiny_vm 4096) ?s2" using 2 by (rule reach_step)
  have "tiny_mapped None = {}" by (simp add: tiny_mapped_def)
  from contexts_own_stacks [OF stack_links.free_list_axioms tiny_contract _ _ this r,
      of 12 2 "\<lparr>cx_stackbase = 8192, cx_stacksize = 40960\<rparr>" 1 "\<lparr>cx_stackbase = 0, cx_stacksize = 0\<rparr>" 0] r
  show ?thesis by auto
qed

end
