(* ===== verification/Event_Module.thy ===== *)
theory Event_Module
  imports Process
begin

text \<open>
  The event module of a process (\<^verbatim>\<open>src/event.cpp\<close>): responders by name, and subscribers by name
  and identity, in a \<^verbatim>\<open>Module\<close> that is kept in the environment of the process. The functions that
  are registered are application code, which may itself call the module: they are the parameter
  \<open>call\<close>, on the module and the rest of the world.
\<close>

section \<open>State and operations\<close>

text \<open>The maps are lists of pairs with distinct keys, in the order in which they are iterated.\<close>

record 'f event_module =
  Responsers :: "(nat \<times> 'f) list"
  Subscribers :: "(nat \<times> (nat \<times> 'f) list) list"

text \<open>\<open>None\<close> is the null pointer that \<^verbatim>\<open>getModule\<close> returns when the module is not loaded.\<close>

record ('f, 'w) event_state =
  ev_module :: "'f event_module option"
  ev_world :: 'w

datatype 'a event_result = Returned 'a | Threw exn | Undefined

definition event_load :: "('f, 'w) event_state \<Rightarrow> ('f, 'w) event_state" where
  "event_load s = s\<lparr>ev_module := Some \<lparr>Responsers = [], Subscribers = []\<rparr>\<rparr>"

text \<open>
  A function that replaces or removes itself while it runs destroys the closure it runs in, which
  is undefined. \<open>atom\<close> gives the text of a name.
\<close>

definition event_request ::
  "('f \<Rightarrow> 'v any \<Rightarrow> ('f, 'w) event_state \<Rightarrow> 'v any event_result \<times> ('f, 'w) event_state) \<Rightarrow> (nat \<Rightarrow> string) \<Rightarrow>
    nat \<Rightarrow> 'v any \<Rightarrow> ('f, 'w) event_state \<Rightarrow> 'v any event_result \<times> ('f, 'w) event_state" where
  "event_request call atom name params s =
     (case ev_module s of
        None \<Rightarrow> (Undefined, s)
      | Some m \<Rightarrow>
          (case map_of (Responsers m) name of
             None \<Rightarrow> (Threw (RuntimeError (''no responser: '' @ atom name)), s)
           | Some f \<Rightarrow>
               (case call f params s of (r, s1) \<Rightarrow>
                  if map_option (\<lambda>m1. map_of (Responsers m1) name) (ev_module s1) = Some (Some f) then (r, s1)
                  else (Undefined, s1))))"

definition event_response :: "nat \<Rightarrow> 'f \<Rightarrow> ('f, 'w) event_state \<Rightarrow> unit event_result \<times> ('f, 'w) event_state" where
  "event_response name responser s =
     (case ev_module s of
        None \<Rightarrow> (Undefined, s)
      | Some m \<Rightarrow> (Returned (), s\<lparr>ev_module := Some (m\<lparr>Responsers := AList.update name responser (Responsers m)\<rparr>)\<rparr>))"

definition subscribers_of :: "nat \<Rightarrow> ('f, 'w) event_state \<Rightarrow> (nat \<times> 'f) list option" where
  "subscribers_of name s = Option.bind (ev_module s) (\<lambda>m. map_of (Subscribers m) name)"

definition event_subscribe :: "nat \<Rightarrow> nat \<Rightarrow> 'f \<Rightarrow> ('f, 'w) event_state \<Rightarrow> unit event_result \<times> ('f, 'w) event_state" where
  "event_subscribe name ident f s =
     (case ev_module s of
        None \<Rightarrow> (Undefined, s)
      | Some m \<Rightarrow>
          (let subs = (case map_of (Subscribers m) name of None \<Rightarrow> [] | Some subs \<Rightarrow> subs)
           in (Returned (), s\<lparr>ev_module := Some (m\<lparr>Subscribers :=
                AList.update name (AList.update ident f subs) (Subscribers m)\<rparr>)\<rparr>)))"

text \<open>\<^verbatim>\<open>Subscribers[name]\<close> makes an empty entry where there is none.\<close>

definition event_unsubscribe :: "nat \<Rightarrow> nat \<Rightarrow> ('f, 'w) event_state \<Rightarrow> unit event_result \<times> ('f, 'w) event_state" where
  "event_unsubscribe name ident s =
     (case ev_module s of
        None \<Rightarrow> (Undefined, s)
      | Some m \<Rightarrow>
          (let subs = (case map_of (Subscribers m) name of None \<Rightarrow> [] | Some subs \<Rightarrow> subs)
           in (Returned (), s\<lparr>ev_module := Some (m\<lparr>Subscribers :=
                AList.update name (AList.delete ident subs) (Subscribers m)\<rparr>)\<rparr>)))"

text \<open>
  The loop of \<^verbatim>\<open>publish\<close> iterates over the table while its subscribers run. If one of them adds an
  entry to this table, the iterators may become invalid; if it removes or replaces itself, the
  iterator or the closure is gone: all undefined. Entries ahead that have been removed or replaced
  by others are skipped or called as they are now.
\<close>

function publish_loop ::
  "('f \<Rightarrow> 'v any \<Rightarrow> ('f, 'w) event_state \<Rightarrow> 'v any event_result \<times> ('f, 'w) event_state) \<Rightarrow> nat \<Rightarrow> 'v any \<Rightarrow>
    (nat \<times> 'f) list \<Rightarrow> ('f, 'w) event_state \<Rightarrow> unit event_result \<times> ('f, 'w) event_state" where
  "publish_loop call name params [] s = (Returned (), s)"
| "publish_loop call name params ((ident, f) # todo) s =
     (case call f params s of
        (Returned _, s1) \<Rightarrow>
          (case (subscribers_of name s, subscribers_of name s1) of
             (Some before, Some after) \<Rightarrow>
               (if map_of after ident \<noteq> Some f \<or> \<not> fst ` set after \<subseteq> fst ` set before then (Undefined, s1)
                else publish_loop call name params
                  (List.map_filter (\<lambda>(i, _). map_option (Pair i) (map_of after i)) todo) s1)
           | _ \<Rightarrow> (Undefined, s1))
      | (Threw e, s1) \<Rightarrow> (Threw e, s1)
      | (Undefined, s1) \<Rightarrow> (Undefined, s1))"
  by pat_completeness auto
termination
  by (relation "measure (\<lambda>(call, name, params, todo, s). length todo)")
    (auto simp: map_filter_def le_imp_less_Suc intro: le_trans [OF length_filter_le])

definition event_publish ::
  "('f \<Rightarrow> 'v any \<Rightarrow> ('f, 'w) event_state \<Rightarrow> 'v any event_result \<times> ('f, 'w) event_state) \<Rightarrow>
    nat \<Rightarrow> 'v any \<Rightarrow> ('f, 'w) event_state \<Rightarrow> unit event_result \<times> ('f, 'w) event_state" where
  "event_publish call name params s =
     (case ev_module s of
        None \<Rightarrow> (Undefined, s)
      | Some m \<Rightarrow>
          (case map_of (Subscribers m) name of
             None \<Rightarrow> (Returned (), s)
           | Some subs \<Rightarrow> publish_loop call name params subs s))"

section \<open>Publishing\<close>

text \<open>A function that keeps to itself: it returns and leaves the subscribers of the name alone.\<close>

definition leaves_alone ::
  "('f \<Rightarrow> 'v any \<Rightarrow> ('f, 'w) event_state \<Rightarrow> 'v any event_result \<times> ('f, 'w) event_state) \<Rightarrow> nat \<Rightarrow> 'f \<Rightarrow> bool" where
  "leaves_alone call name f \<longleftrightarrow>
     (\<forall>params s. (\<exists>v. fst (call f params s) = Returned v) \<and>
        subscribers_of name (snd (call f params s)) = subscribers_of name s)"

lemma publish_loop_all:
  assumes "distinct (map fst table)" "\<forall>(i, f) \<in> set table. leaves_alone call name f"
  shows "set todo \<subseteq> set table \<Longrightarrow> subscribers_of name s = Some table \<Longrightarrow>
    publish_loop call name params todo s = (Returned (), foldl (\<lambda>s (i, f). snd (call f params s)) s todo) \<and>
    subscribers_of name (foldl (\<lambda>s (i, f). snd (call f params s)) s todo) = Some table"
proof (induction todo arbitrary: s)
  case (Cons p todo)
  obtain i f where p: "p = (i, f)" by (cases p)
  have f: "leaves_alone call name f" "map_of table i = Some f" using assms Cons.prems(1) p by auto
  then obtain v s1 where c: "call f params s = (Returned v, s1)" "subscribers_of name s1 = Some table"
    using Cons.prems(2) by (metis leaves_alone_def prod.collapse)
  have "List.map_filter (\<lambda>(i, _). map_option (Pair i) (map_of table i)) xs = xs" if "set xs \<subseteq> set table" for xs
    using that assms(1) by (induction xs) (auto simp: map_filter_simps split: option.splits)
  then have "publish_loop call name params (p # todo) s = publish_loop call name params todo s1"
    using c f(2) Cons.prems p by simp
  with Cons.IH [OF _ c(2)] Cons.prems(1) p c(1) show ?case by simp
qed simp


text \<open>Functions that write down that they ran, one of which subscribes another one.\<close>

definition recording :: "nat \<Rightarrow> nat any \<Rightarrow> (nat, nat list) event_state \<Rightarrow> nat any event_result \<times> (nat, nat list) event_state" where
  "recording f params s =
     (let s1 = s\<lparr>ev_world := ev_world s @ [f]\<rparr>
      in (Returned EmptyAny, if f = 99 then snd (event_subscribe 1 50 7 s1) else s1))"

lemma recording_leaves: "f \<noteq> 99 \<Longrightarrow> leaves_alone recording name f"
  by (simp add: leaves_alone_def recording_def subscribers_of_def Let_def)

definition two_subscribers :: "(nat, nat list) event_state" where
  "two_subscribers = snd (event_subscribe 1 11 4 (snd (event_subscribe 1 10 3 (event_load \<lparr>ev_module = None, ev_world = []\<rparr>))))"

lemma two_subscribers_table: "subscribers_of 1 two_subscribers = Some [(10, 3), (11, 4)]"
  by (simp add: two_subscribers_def subscribers_of_def event_subscribe_def event_load_def)


text \<open>
  A subscriber that subscribes a new identity to the name that is being published makes the rest
  of the publication undefined.
\<close>

lemma publish_reentrant:
  "fst (event_publish recording 1 EmptyAny (snd (event_subscribe 1 12 99 two_subscribers))) = Undefined"
  by (simp add: event_publish_def two_subscribers_def event_subscribe_def event_load_def recording_def
      subscribers_of_def map_filter_simps)

end
