(* ===== verification/Handlers.thy ===== *)
theory Handlers
  imports Runtime_Calls
begin

text \<open>
  The typed handlers of \<^verbatim>\<open>src/process.hpp\<close> and a round of \<^verbatim>\<open>serve\<close> with the call of the handler. A
  handler is application code; the process stores a number for it, and the table \<open>code\<close> gives what
  the number stands for: the type it was registered for, the template it went through, and a
  function from the typed pointer (\<open>None\<close> for null) and the state, which may use the runtime, to
  an exception or a value and the state after it.
\<close>

section \<open>Registration\<close>

text \<open>Without a response, with the value returned, or with the empty response.\<close>

datatype reply = NoReply | ReplyValue | ReplyEmpty

record ('v, 's) typed_handler =
  th_type :: nat
  th_reply :: reply
  th_run :: "'v option \<Rightarrow> 's \<Rightarrow> (exn + 'v any) \<times> 's"

text \<open>\<^verbatim>\<open>wild::SharedAny::Cast\<close> to a pointer to the type with this number.\<close>

definition cast_app :: "nat \<Rightarrow> 'v any \<Rightarrow> 'v option" where
  "cast_app type content = (case content of AppValue n v \<Rightarrow> if n = type then Some v else None | _ \<Rightarrow> None)"

definition request_callback :: "('h \<Rightarrow> ('v, 's) typed_handler) \<Rightarrow> 'h \<Rightarrow> ('v, 'l, 'i, 'h) process \<Rightarrow> ('v, 'l, 'i, 'h) process" where
  "request_callback code h p = message_callback (TypeApp (th_type (code h))) h p"

definition request_coroutine :: "('h \<Rightarrow> ('v, 's) typed_handler) \<Rightarrow> 'h \<Rightarrow> nat \<Rightarrow> ('v, 'l, 'i, 'h) process \<Rightarrow>
    ('v, 'l, 'i, 'h) process" where
  "request_coroutine code h addstack p = message_coroutine (TypeApp (th_type (code h))) h addstack p"

definition notification_callback :: "('h \<Rightarrow> ('v, 's) typed_handler) \<Rightarrow> 'h \<Rightarrow> ('v, 'l, 'i, 'h) process \<Rightarrow>
    ('v, 'l, 'i, 'h) process" where
  "notification_callback code h p = message_callback (TypeApp (th_type (code h))) h p"

definition notification_coroutine :: "('h \<Rightarrow> ('v, 's) typed_handler) \<Rightarrow> 'h \<Rightarrow> nat \<Rightarrow> ('v, 'l, 'i, 'h) process \<Rightarrow>
    ('v, 'l, 'i, 'h) process" where
  "notification_coroutine code h addstack p = message_coroutine (TypeApp (th_type (code h))) h addstack p"

section \<open>Calling a handler\<close>

text \<open>
  The lambda the templates wrap around a handler, run by the coroutine \<open>co\<close>. The outcome is the
  exception it leaves with, if any, and the state; \<open>Some None\<close> and \<open>None\<close> are those of the runtime.
\<close>

definition call_handler :: "('l, 'v message) append_ops \<Rightarrow> ('h \<Rightarrow> ('v, ('v, 'l, 'i, 'h) runtime) typed_handler) \<Rightarrow>
    addr \<Rightarrow> co \<Rightarrow> 'h \<Rightarrow> 'v any \<Rightarrow> ('v, 'l, 'i, 'h) runtime \<Rightarrow> (exn option \<times> ('v, 'l, 'i, 'h) runtime) option option" where
  "call_handler A code running co h content s =
     (case th_run (code h) (cast_app (th_type (code h)) content) s of
        (Inl e, s1) \<Rightarrow> Some (Some (Some e, s1))
      | (Inr v, s1) \<Rightarrow>
          (case th_reply (code h) of
             NoReply \<Rightarrow> Some (Some (None, s1))
           | ReplyValue \<Rightarrow> map_option (map_option (Pair None)) (rt_answer A running co v s1)
           | ReplyEmpty \<Rightarrow> map_option (map_option (Pair None)) (rt_answer A running co EmptyAny s1)))"

text \<open>One message of the inbox, up to the next test of the loop; \<open>fresh\<close> is the address of a new coroutine.\<close>

definition serve_round :: "('l, 'v message) append_ops \<Rightarrow> ('h \<Rightarrow> ('v, ('v, 'l, 'i, 'h) runtime) typed_handler) \<Rightarrow>
    addr \<Rightarrow> co \<Rightarrow> co \<Rightarrow> ('v, 'l, 'i, 'h) runtime \<Rightarrow> (exn option \<times> ('v, 'l, 'i, 'h) runtime) option option" where
  "serve_round A code running co fresh s =
     (case rt_procs s running of
        None \<Rightarrow> Some None
      | Some q \<Rightarrow>
          (case serve_take fresh co q of
             Normal (act, q1) \<Rightarrow>
               (let s1 = s\<lparr>rt_procs := (rt_procs s)(running \<mapsto> q1)\<rparr>
                in case act of
                     Called h content \<Rightarrow> call_handler A code running co h content s1
                   | _ \<Rightarrow> Some (Some (None, s1)))
           | _ \<Rightarrow> Some None))"

text \<open>The function of the coroutine that \<^verbatim>\<open>serve\<close> spawns for a message.\<close>

definition handler_coroutine :: "('l, 'v message) append_ops \<Rightarrow> ('h \<Rightarrow> ('v, ('v, 'l, 'i, 'h) runtime) typed_handler) \<Rightarrow>
    addr \<Rightarrow> co \<Rightarrow> 'h \<Rightarrow> 'v message \<Rightarrow> ('v, 'l, 'i, 'h) runtime \<Rightarrow> (exn option \<times> ('v, 'l, 'i, 'h) runtime) option option" where
  "handler_coroutine A code running co h msg s =
     (case with_proc running (\<lambda>q. q\<lparr>p_cos := (p_cos q)(co :=
          map_option (set_message_info (msg_source msg) (msg_session msg)) (p_cos q co))\<rparr>) s of
        None \<Rightarrow> Some None
      | Some s1 \<Rightarrow> call_handler A code running co h (msg_content msg) s1)"

section \<open>A request is answered by its handler\<close>

lemma registered_handler:
  "map_of (p_handlers (request_callback code h p)) (TypeApp (th_type (code h))) =
     Some \<lparr>hi_mode = kCallback, hi_func = h, hi_addstack = 0\<rparr>"
  "map_of (p_handlers (request_coroutine code h n p)) (TypeApp (th_type (code h))) =
     Some \<lparr>hi_mode = kCoroutine, hi_func = h, hi_addstack = n\<rparr>"
  by (simp_all add: request_callback_def request_coroutine_def message_callback_def message_coroutine_def update_conv')

text \<open>
  The call of a handler that replies, by a coroutine whose message is the request. The handler may use the
  runtime, as long as it comes back to the same coroutine with the process and the table as they were.
\<close>

definition comes_back :: "('l \<Rightarrow> 'v message list \<Rightarrow> bool) \<Rightarrow> addr \<Rightarrow> co \<Rightarrow> addr multiset \<Rightarrow>
    ('v, 'l, 'i, 'h) runtime \<Rightarrow> ('v, 'l, 'i, 'h) runtime \<Rightarrow> bool" where
  "comes_back rep running co H s t \<longleftrightarrow> mid_turn rep running co H t \<and> rg_map (rt_reg t) = rg_map (rt_reg s) \<and>
     rt_message_info running co t = rt_message_info running co s \<and> map_option p_pid (rt_procs t running) = map_option p_pid (rt_procs s running)"

definition replied :: "reply \<Rightarrow> 'v any \<Rightarrow> 'v any" where
  "replied r v = (if r = ReplyEmpty then EmptyAny else v)"

lemma call_answers:
  fixes s :: "('v, 'l, 'i, 'h) runtime"
  assumes A: "append_list A (\<lambda>_ _. True) rep" and q: "rt_procs s running = Some q"
    and info: "rt_message_info running co s = Some (source, session)"
    and r: "th_reply (code h) \<noteq> NoReply" "th_run (code h) (cast_app (th_type (code h)) content) s = (Inr v, s1)"
    and returns: "comes_back rep running co H s s1"
  shows "\<exists>t qr. call_handler A code running co h content s = Some (Some (None, t)) \<and> mid_turn rep running co H t \<and>
    rt_procs t running = Some qr \<and> (source, session) \<notin> set (p_requests qr) \<and>
    (\<forall>p. rg_map (rt_reg s) (pid_value source) = Some p \<and> p \<noteq> running \<longrightarrow>
      (\<exists>qp. rt_procs s1 p = Some qp \<and> rt_procs t p =
        Some (pushed A (message_create (p_pid q) (sessionForResponse session) (replied (th_reply (code h)) v)) qp)))"
proof -
  let ?v = "replied (th_reply (code h)) v"
  obtain q1 where q1: "rt_procs s1 running = Some q1" "p_pid q1 = p_pid q"
    using returns q by (auto simp: comes_back_def)
  from returns have m: "mid_turn rep running co H s1" by (simp add: comes_back_def)
  from response_step [OF A m q1(1), of source session ?v] obtain t qr where
    t: "rt_response A (Some (running, co)) source session ?v s1 = Some (Some t)" "mid_turn rep running co H t"
      "rt_procs t running = Some qr" "(source, session) \<notin> set (p_requests qr)"
      "\<forall>p. rg_map (rt_reg s1) (pid_value source) = Some p \<and> p \<noteq> running \<longrightarrow>
        (\<exists>qp. rt_procs s1 p = Some qp \<and> rt_procs t p = Some (pushed A (message_create (p_pid q1) (sessionForResponse session) ?v) qp))"
    by blast
  have "rt_answer A running co ?v s1 = Some (Some t)"
    using t(1) info returns by (simp add: rt_answer_def comes_back_def)
  with r have "call_handler A code running co h content s = Some (Some (None, t))"
    by (cases "th_reply (code h)") (simp_all add: call_handler_def replied_def)
  with t(2-5) q1(2) returns show ?thesis by (auto simp: comes_back_def)
qed


definition thirty :: "nat \<Rightarrow> (nat, (nat, nat message list, nat, nat) runtime) typed_handler" where
  "thirty h = \<lparr>th_type = 4, th_reply = ReplyValue, th_run = (\<lambda>x s. (Inr (AppValue 1 30), s))\<rparr>"


end
