(* ===== verification/Boot.thy ===== *)
theory Boot
  imports Scheduler Runtime
begin

text \<open>
  The beginning and the end of a program (\<^verbatim>\<open>src/main.cpp\<close>, \<^verbatim>\<open>src/exit.cpp\<close>, \<^verbatim>\<open>src/os.cpp\<close>, and
  \<^verbatim>\<open>serve\<close> of \<^verbatim>\<open>class Scheduler\<close>). The entry of the application is a parameter: what it does to
  the scheduler, and the exception it is left with. The modules that \<^verbatim>\<open>wild::module::Init\<close>
  starts and the stopping of their threads are outside.
\<close>

text \<open>\<^verbatim>\<open>serve\<close> starts this many workers and returns the exit code when all have left.\<close>

definition worker_count :: "nat \<Rightarrow> nat" where
  "worker_count hardware_concurrency = max hardware_concurrency 2"

definition serve_result :: "('l, 's) sched \<Rightarrow> int" where
  "serve_result sc = sc_exitcode sc"

definition stp_exit :: "'s signal_ops \<Rightarrow> nat \<Rightarrow> int \<Rightarrow> ('l, 's) sched \<Rightarrow> ('l, 's) sched" where
  "stp_exit G n status sc = sched_stop G n status sc"

text \<open>\<^verbatim>\<open>os::exit\<close> leaves the process by an exception, unless one is on its way already.\<close>

definition os_exit :: "'s signal_ops \<Rightarrow> nat \<Rightarrow> bool \<Rightarrow> thread \<Rightarrow> int \<Rightarrow> ('l, 's) sched \<Rightarrow> exn option \<times> ('l, 's) sched" where
  "os_exit G n uncaught cur code sc =
     (let sc1 = sched_stop G n code sc in if uncaught then (None, sc1) else (Some (rt_exit cur), sc1))"

text \<open>The first process: the guard stops the scheduler however the entry is left.\<close>

definition main_process :: "'s signal_ops \<Rightarrow> nat \<Rightarrow> (('l, 's) sched \<Rightarrow> exn option \<times> ('l, 's) sched) \<Rightarrow>
    ('l, 's) sched \<Rightarrow> exn option \<times> ('l, 's) sched" where
  "main_process G n entry sc = (case entry sc of (thrown, sc1) \<Rightarrow> (thrown, sched_stop G n 0 sc1))"

section \<open>The exit code\<close>

lemma signal_times: "(signal_worker G ^^ n) sc = sc\<lparr>sc_signaler := (sg_send G ^^ n) (sc_signaler sc)\<rparr>"
  by (induction n) (simp_all add: signal_worker_def)

lemma stop_fired: "sc_stop_fired sc \<Longrightarrow> sched_stop G n code sc = sc"
  by (simp add: sched_stop_def stop_fire_def)

lemma stop_first:
  "\<not> sc_stop_fired sc \<Longrightarrow> sched_stop G n code sc =
    sc\<lparr>sc_stop_fired := True, sc_exitcode := code, sc_stop := True, sc_signaler := (sg_send G ^^ n) (sc_signaler sc)\<rparr>"
  by (simp add: sched_stop_def stop_fire_def stop_raise_def signal_times)

lemma stops_fired: "sc_stop_fired sc \<Longrightarrow> fold (stp_exit G n) codes sc = sc"
  by (induction codes) (simp_all add: stp_exit_def stop_fired)

text \<open>The first call that stops the program decides: whatever codes are given to \<^verbatim>\<open>exit\<close> and
  \<^verbatim>\<open>os::exit\<close> and in which order, \<^verbatim>\<open>main\<close> returns the first of them, or 0 when the entry is
  left without one; from the end of the entry the workers are told to leave, each by one signal and
  not more, and \<^verbatim>\<open>os::exit\<close> in a process never returns to a caller that is not unwinding.\<close>

theorem first_exit_code:
  assumes "\<not> sc_stop_fired sc" "entry sc = (thrown, fold (stp_exit G n) codes sc)"
  shows "main_process G n entry sc = (thrown, sc\<lparr>sc_stop_fired := True,
      sc_exitcode := (case codes of [] \<Rightarrow> 0 | code # _ \<Rightarrow> code), sc_stop := True,
      sc_signaler := (sg_send G ^^ n) (sc_signaler sc)\<rparr>) \<and>
    serve_result (snd (main_process G n entry sc)) = (case codes of [] \<Rightarrow> 0 | code # _ \<Rightarrow> code) \<and>
    fst (os_exit G n False (Some (p, co)) code sc) = Some ProcessExit \<and>
    snd (os_exit G n uncaught cur code sc) = stp_exit G n code sc"
proof -
  have "sched_stop G n 0 (fold (stp_exit G n) codes sc) = sc\<lparr>sc_stop_fired := True,
      sc_exitcode := (case codes of [] \<Rightarrow> 0 | code # _ \<Rightarrow> code), sc_stop := True,
      sc_signaler := (sg_send G ^^ n) (sc_signaler sc)\<rparr>"
    by (cases codes) (simp_all add: stop_first [OF assms(1)] stop_fired stops_fired stp_exit_def)
  then show ?thesis
    using assms(2) by (simp add: main_process_def serve_result_def os_exit_def rt_exit_def stp_exit_def Let_def)
qed

theorem first_exit_code_witness:
  "serve_result (snd (main_process \<lparr>sg_send = Suc, sg_wait = \<lambda>n. if n = 0 then None else Some (n - 1)\<rparr> (worker_count 1)
    (os_exit \<lparr>sg_send = Suc, sg_wait = \<lambda>n. if n = 0 then None else Some (n - 1)\<rparr> (worker_count 1) False (Some (7, 3)) 5)
    (sched_new queue_ops 0))) = 5"
proof -
  let ?G = "\<lparr>sg_send = Suc, sg_wait = \<lambda>n. if n = 0 then None else Some (n - 1)\<rparr>"
  let ?sc = "sched_new queue_ops 0 :: (nat list, nat) sched"
  let ?entry = "os_exit ?G (worker_count 1) False (Some (7, 3)) 5"
  have e: "?entry ?sc = (Some ProcessExit, fold (stp_exit ?G (worker_count 1)) [5] ?sc)"
    by (simp add: os_exit_def rt_exit_def stp_exit_def Let_def)
  have f: "\<not> sc_stop_fired ?sc" by (simp add: sched_new_def)
  have "serve_result (snd (main_process ?G (worker_count 1) ?entry ?sc)) = (case [5] of [] \<Rightarrow> 0 | code # _ \<Rightarrow> code)"
    using first_exit_code [where entry = ?entry, OF f e] by blast
  then show ?thesis by (simp only: list.case)
qed

end
