(* ===== verification/Fd_Poll.thy ===== *)
theory Fd_Poll
  imports Ids "HOL-Library.Signed_Division"
begin

text \<open>
  Waiting for file descriptors (\<^verbatim>\<open>src/fd_epoll.cpp\<close>, \<^verbatim>\<open>src/fd_kqueue.cpp\<close>): where the
  identity of a waiting coroutine is kept while the kernel watches a descriptor for it, and
  whom the polling thread answers. The kernel's \<^verbatim>\<open>epoll\<close> is a parameter, with
  \<open>epoll_contract\<close>; the signal mask and the start of the polling thread are not modelled.
\<close>

section \<open>The table of filters\<close>

datatype Event = kRead | kWrite

fun event_mode :: "Event \<Rightarrow> nat" where
  "event_mode kRead = 0"
| "event_mode kWrite = 1"

text \<open>A filter is addressed by its segment, the index in it and the mode.\<close>

type_synonym slot = "nat \<times> nat \<times> nat"

type_synonym waiter = "uint32 \<times> uint32"

definition segment_size :: int where
  "segment_size = 16384"

definition fdset_size :: int where
  "fdset_size = 256"

datatype fd_error = AssertIndex | OutOfBounds | SystemError

text \<open>
  The load of the segment pointer and the compare-exchange are two steps: \<open>loaded\<close> is what the
  first read, \<open>segs\<close> the table at the second, \<open>new_fds\<close> the segment allocated in between.
\<close>

definition select_segment :: "nat option \<Rightarrow> nat \<Rightarrow> nat \<Rightarrow> (nat \<Rightarrow> nat option) \<Rightarrow> nat \<times> (nat \<Rightarrow> nat option)" where
  "select_segment loaded new_fds index segs =
     (case loaded of
        Some fds \<Rightarrow> (fds, segs)
      | None \<Rightarrow> (case segs index of
                   None \<Rightarrow> (new_fds, segs(index := Some new_fds))
                 | Some fds \<Rightarrow> (fds, segs)))"

text \<open>\<^verbatim>\<open>/\<close> and \<^verbatim>\<open>%\<close> of C++ round towards zero.\<close>

definition select_filter :: "nat option \<Rightarrow> nat \<Rightarrow> int \<Rightarrow> Event \<Rightarrow> (nat \<Rightarrow> nat option) \<Rightarrow>
    fd_error + slot \<times> (nat \<Rightarrow> nat option)" where
  "select_filter loaded new_fds fd event segs =
     (let index = fd sdiv segment_size
      in if \<not> index < fdset_size then Inl AssertIndex
         else if index < 0 \<or> fd smod segment_size < 0 then Inl OutOfBounds
         else case select_segment loaded new_fds (nat index) segs of
           (fds, segs') \<Rightarrow> Inr ((fds, nat (fd smod segment_size), event_mode event), segs'))"

section \<open>Waiting and polling\<close>

record 'k epoll_ops =
  ep_add :: "nat \<Rightarrow> int \<Rightarrow> slot \<Rightarrow> 'k \<Rightarrow> 'k option"
  ep_del :: "nat \<Rightarrow> int \<Rightarrow> 'k \<Rightarrow> 'k option"
  ep_wait :: "nat \<Rightarrow> 'k \<Rightarrow> slot list \<times> 'k"

record 'k fdstate =
  fd_segments :: "nat \<Rightarrow> nat option"
  fd_filters :: "slot \<Rightarrow> waiter"
  fd_kernel :: 'k

text \<open>
  \<^verbatim>\<open>fd::wait\<close> up to the block: the filter is written before \<^verbatim>\<open>epoll_ctl\<close> is called. The first
  component is the exception it leaves with. \<open>new_fds\<close> is the address of a new segment.
\<close>

definition wait_begin :: "'k epoll_ops \<Rightarrow> nat \<Rightarrow> int \<Rightarrow> Event \<Rightarrow> waiter \<Rightarrow> 'k fdstate \<Rightarrow> fd_error option \<times> 'k fdstate" where
  "wait_begin E new_fds fd event self st =
     (case select_filter (fd_segments st (nat (fd sdiv segment_size))) new_fds fd event (fd_segments st) of
        Inl e \<Rightarrow> (Some e, st)
      | Inr (fi, segs) \<Rightarrow>
          (let st1 = st\<lparr>fd_segments := segs, fd_filters := (fd_filters st)(fi := self)\<rparr>
           in case ep_add E (event_mode event) fd fi (fd_kernel st1) of
                None \<Rightarrow> (Some SystemError, st1)
              | Some k \<Rightarrow> (None, st1\<lparr>fd_kernel := k\<rparr>)))"

text \<open>Its scope guard, after the block.\<close>

definition wait_end :: "'k epoll_ops \<Rightarrow> int \<Rightarrow> Event \<Rightarrow> 'k fdstate \<Rightarrow> fd_error option \<times> 'k fdstate" where
  "wait_end E fd event st =
     (case ep_del E (event_mode event) fd (fd_kernel st) of
        None \<Rightarrow> (Some SystemError, st)
      | Some k \<Rightarrow> (None, st\<lparr>fd_kernel := k\<rparr>))"

text \<open>
  One turn of the polling thread for the read or the write set: the events are handled from the
  last to the first, each answered to the process and session its filter holds.
\<close>

definition poll_set :: "'k epoll_ops \<Rightarrow> nat \<Rightarrow> 'k fdstate \<Rightarrow> waiter list \<times> 'k fdstate" where
  "poll_set E mode st =
     (case ep_wait E mode (fd_kernel st) of
        (slots, k) \<Rightarrow> (map (fd_filters st) (rev slots), st\<lparr>fd_kernel := k\<rparr>))"

section \<open>The kernel\<close>

text \<open>
  \<open>watched\<close> is what an \<^verbatim>\<open>epoll\<close> set holds for a descriptor: the pointer it was added with and
  whether it is armed. Adding fails when the descriptor is there already; an event is reported
  once (\<^verbatim>\<open>EPOLLONESHOT\<close>), and the descriptor stays in the set.
\<close>

definition epoll_contract :: "'k epoll_ops \<Rightarrow> ('k \<Rightarrow> nat \<times> int \<Rightarrow> (slot \<times> bool) option) \<Rightarrow> bool" where
  "epoll_contract E watched \<longleftrightarrow>
     (\<forall>k m fd fi. watched k (m, fd) = None \<longrightarrow>
        (\<exists>k'. ep_add E m fd fi k = Some k' \<and> watched k' = (watched k)((m, fd) \<mapsto> (fi, True)))) \<and>
     (\<forall>k m fd fi. watched k (m, fd) \<noteq> None \<longrightarrow> ep_add E m fd fi k = None) \<and>
     (\<forall>k m fd. watched k (m, fd) \<noteq> None \<longrightarrow>
        (\<exists>k'. ep_del E m fd k = Some k' \<and> watched k' = (watched k)((m, fd) := None))) \<and>
     (\<forall>k m slots k'. ep_wait E m k = (slots, k') \<longrightarrow>
        (\<exists>fds. distinct fds \<and> map (\<lambda>fd. watched k (m, fd)) fds = map (\<lambda>fi. Some (fi, True)) slots \<and>
          watched k' = (\<lambda>(m', fd). if m' = m \<and> fd \<in> set fds then map_option (\<lambda>(fi, _). (fi, False)) (watched k (m', fd))
            else watched k (m', fd))))"

section \<open>The kqueue variant\<close>

text \<open>There is no table: process and session travel in the 64 bits of \<^verbatim>\<open>udata\<close>.\<close>

definition udata_encode :: "uint32 \<Rightarrow> uint32 \<Rightarrow> uint64" where
  "udata_encode pid sid = ucast pid OR push_bit 32 (ucast sid)"

definition udata_decode :: "uint64 \<Rightarrow> uint32 \<times> uint32" where
  "udata_decode udata = (ucast udata, ucast (drop_bit 32 udata))"

text \<open>The kqueue variant answers the process and the session that waited: the packing of both into
  the pointer-sized user data loses nothing.\<close>

theorem udata_roundtrip: "udata_decode (udata_encode pid sid) = (pid, sid)"
proof -
  have "ucast (udata_encode pid sid) = pid"
    by (rule bit_word_eqI) (auto simp: udata_encode_def bit_simps)
  moreover have "ucast (drop_bit 32 (udata_encode pid sid)) = sid"
    by (rule bit_word_eqI) (auto simp: udata_encode_def bit_simps dest: bit_imp_le_length)
  ultimately show ?thesis by (simp add: udata_decode_def)
qed

section \<open>The table gives every descriptor its own filter\<close>

lemma segment_parts:
  assumes "0 \<le> fd"
  shows "fd sdiv segment_size = fd div 16384" "fd smod segment_size = fd mod 16384"
  using assms by (cases "fd = 0"; simp add: signed_divide_int_def signed_modulo_int_def segment_size_def)+

lemma negative_parts:
  assumes "fd < 0"
  shows "fd sdiv segment_size < fdset_size" "fd sdiv segment_size < 0 \<or> fd smod segment_size < 0"
proof -
  have q: "fd sdiv segment_size = - (- fd div 16384)"
    using assms by (simp add: signed_divide_int_def segment_size_def)
  then show "fd sdiv segment_size < fdset_size"
    using assms pos_imp_zdiv_nonneg_iff [of 16384 "- fd"] by (simp add: fdset_size_def)
  have r: "fd smod segment_size = - (- fd mod 16384)"
    using assms by (simp add: signed_modulo_int_def segment_size_def)
  have "- fd mod 16384 + 16384 * (- fd div 16384) = - fd" by simp
  moreover have "0 \<le> - fd mod 16384" by simp
  ultimately have "0 < - fd div 16384 \<or> 0 < - fd mod 16384" using assms by linarith
  with q r show "fd sdiv segment_size < 0 \<or> fd smod segment_size < 0" by linarith
qed

lemma select_eq:
  assumes "0 \<le> fd" "fd < 4194304"
  shows "select_filter loaded new_fds fd event segs =
    (case select_segment loaded new_fds (nat (fd div 16384)) segs of
       (fds, segs') \<Rightarrow> Inr ((fds, nat (fd mod 16384), event_mode event), segs'))"
proof -
  have "fd div 16384 < 256" "0 \<le> fd div 16384" using assms by simp_all
  moreover have n: "(fd mod 16384 < 0) = False" by (simp add: not_less)
  ultimately show ?thesis
    using assms by (simp add: n select_filter_def segment_parts fdset_size_def Let_def not_less)
qed

lemma mode_inj: "event_mode e = event_mode e' \<longleftrightarrow> e = e'"
  by (cases e; cases e') simp_all

text \<open>Every descriptor from 0 to 256 * 16384 - 1 has a filter: no assertion fails and no index is out
  of bounds, whether the segment is there, is allocated now, or is installed by another thread
  between the load and the compare-exchange; and every later lookup finds the same filter. A
  negative descriptor passes the assertion and indexes before the beginning of an array.\<close>

theorem filter_found:
  assumes "fd < 4194304" "loaded = None \<or> loaded = segs (nat (fd sdiv segment_size))"
  shows "if fd < 0 then select_filter loaded new_fds fd event segs = Inl OutOfBounds
    else \<exists>fi segs'. select_filter loaded new_fds fd event segs = Inr (fi, segs') \<and>
      select_filter (segs' (nat (fd sdiv segment_size))) new_fds' fd event segs' = Inr (fi, segs')"
proof (cases "fd < 0")
  case True
  with negative_parts [OF True] show ?thesis by (simp add: select_filter_def Let_def)
next
  case False
  then have "0 \<le> fd" by simp
  with assms show ?thesis
    by (auto simp: select_eq segment_parts select_segment_def split: option.splits)
qed

theorem filter_found_witness:
  "\<exists>fi segs'. select_filter None 5 20000 kRead (\<lambda>_. None) = Inr (fi, segs') \<and> segs' 1 = Some 5 \<and>
    select_filter (segs' 1) 6 20000 kRead segs' = Inr (fi, segs')"
proof -
  have e: "(20000 :: int) sdiv segment_size = 1" by (simp add: segment_parts)
  have s: "select_filter None 5 20000 kRead (\<lambda>_. None) = Inr ((5, 3616, 0), (\<lambda>_. None)(1 := Some 5))"
    by (simp add: select_eq select_segment_def)
  from filter_found [of 20000 None "\<lambda>_. None" 5 kRead 6] s e show ?thesis by auto
qed

text \<open>Filters are not shared: two lookups give the same filter exactly when they are for the same
  descriptor and the same event, also when they allocate the segments they need, as long as
  allocation gives fresh memory.\<close>

theorem filters_are_separate:
  assumes "\<forall>i j a. segs i = Some a \<longrightarrow> segs j = Some a \<longrightarrow> i = j"
    and "0 \<le> fd" "fd < 4194304" "0 \<le> fd'" "fd' < 4194304"
    and "new_fds \<notin> ran segs" "select_filter (segs (nat (fd sdiv segment_size))) new_fds fd event segs = Inr (fi, segs1)"
    and "new_fds' \<notin> ran segs1" "select_filter (segs1 (nat (fd' sdiv segment_size))) new_fds' fd' event' segs1 = Inr (fi', segs2)"
  shows "fi = fi' \<longleftrightarrow> fd = fd' \<and> event = event'"
proof -
  let ?i = "nat (fd div 16384)" and ?j = "nat (fd' div 16384)"
  obtain a where a: "fi = (a, nat (fd mod 16384), event_mode event)" "segs1 ?i = Some a" "segs ?i = Some a \<or> a = new_fds"
      "segs1 = segs(?i := Some a)"
    using assms(7) by (auto simp: select_eq [OF assms(2,3)] segment_parts [OF assms(2)] select_segment_def fun_upd_idem split: option.splits)
  obtain b where b: "fi' = (b, nat (fd' mod 16384), event_mode event')" "segs1 ?j = Some b \<or> segs1 ?j = None \<and> b = new_fds'"
    using assms(9) by (auto simp: select_eq [OF assms(4,5)] segment_parts [OF assms(4)] select_segment_def split: option.splits)
  have inj1: "\<forall>i j a. segs1 i = Some a \<longrightarrow> segs1 j = Some a \<longrightarrow> i = j"
    using assms(1,6) a(3,4) by (auto simp: ran_def)
  have "a = b \<longleftrightarrow> ?i = ?j"
    using a(2) b(2) inj1 assms(8) by (auto simp: ran_def)
  moreover have "?i = ?j \<and> nat (fd mod 16384) = nat (fd' mod 16384) \<longleftrightarrow> fd = fd'"
  proof
    assume *: "?i = ?j \<and> nat (fd mod 16384) = nat (fd' mod 16384)"
    then have "fd div 16384 = fd' div 16384" "fd mod 16384 = fd' mod 16384"
      using assms(2,4) by (simp_all add: eq_nat_nat_iff)
    then show "fd = fd'" by (metis div_mult_mod_eq)
  qed simp
  ultimately show ?thesis using a(1) b(1) mode_inj by auto
qed

theorem filters_are_separate_witness:
  "select_filter None 5 20000 kRead (\<lambda>_. None) = Inr ((5, 3616, 0), (\<lambda>_. None)(1 := Some 5)) \<and>
   select_filter (Some 5) 6 20001 kRead ((\<lambda>_. None)(1 := Some 5)) = Inr ((5, 3617, 0), (\<lambda>_. None)(1 := Some 5)) \<and>
   (5, 3616, 0) \<noteq> (5::nat, 3617::nat, 0::nat)"
proof -
  let ?s = "(\<lambda>_. None)(1 := Some 5) :: nat \<Rightarrow> nat option"
  have s1: "select_filter None 5 20000 kRead (\<lambda>_. None) = Inr ((5, 3616, 0), ?s)"
    by (simp add: select_eq select_segment_def)
  have s2: "select_filter (Some 5) 6 20001 kRead ?s = Inr ((5, 3617, 0), ?s)"
    by (simp add: select_eq select_segment_def)
  have "((5, 3616, 0) :: slot) = (5, 3617, 0) \<longleftrightarrow> (20000 :: int) = 20001 \<and> kRead = kRead"
    by (rule filters_are_separate [of "\<lambda>_. None" 20000 20001 5 kRead "(5, 3616, 0)" ?s 6 kRead])
      (use s1 s2 in \<open>simp_all add: segment_parts\<close>)
  with s1 s2 show ?thesis by simp
qed

end
