(* ===== verification/Fd_Spec.thy ===== *)
theory Fd_Spec
  imports Fd_Poll
begin

text \<open>
  Who is answered when a descriptor becomes ready: exactly the coroutines that wait, as long as
  no two wait for the same event of the same descriptor; and what happens when two do.
\<close>

section \<open>The protocol\<close>

text \<open>\<open>fs_wait\<close> records who is between the two parts of \<^verbatim>\<open>fd::wait\<close> for an event of a descriptor.\<close>

record 'k fd_sys =
  fs_state :: "'k fdstate"
  fs_wait :: "Event \<times> int \<Rightarrow> waiter option"
  fs_answered :: "waiter list"

definition fd_start :: "'k \<Rightarrow> 'k fd_sys" where
  "fd_start k = \<lparr>fs_state = \<lparr>fd_segments = (\<lambda>_. None), fd_filters = (\<lambda>_. (0, 0)), fd_kernel = k\<rparr>,
     fs_wait = (\<lambda>_. None), fs_answered = []\<rparr>"

inductive fd_step :: "'k epoll_ops \<Rightarrow> 'k fd_sys \<Rightarrow> 'k fd_sys \<Rightarrow> bool" for E :: "'k epoll_ops" where
  fd_begin: "0 \<le> fd \<Longrightarrow> fd < 4194304 \<Longrightarrow> fs_wait s (ev, fd) = None \<Longrightarrow>
    new_fds \<notin> ran (fd_segments (fs_state s)) \<Longrightarrow> wait_begin E new_fds fd ev self (fs_state s) = (None, st) \<Longrightarrow>
    fd_step E s (s\<lparr>fs_state := st, fs_wait := (fs_wait s)((ev, fd) \<mapsto> self)\<rparr>)"
| fd_polled: "poll_set E (event_mode ev) (fs_state s) = (answers, st) \<Longrightarrow>
    fd_step E s (s\<lparr>fs_state := st, fs_answered := fs_answered s @ answers\<rparr>)"
| fd_end: "fs_wait s (ev, fd) = Some self \<Longrightarrow> wait_end E fd ev (fs_state s) = (None, st) \<Longrightarrow>
    fd_step E s (s\<lparr>fs_state := st, fs_wait := (fs_wait s)((ev, fd) := None)\<rparr>)"

definition fd_inv :: "('k \<Rightarrow> nat \<times> int \<Rightarrow> (slot \<times> bool) option) \<Rightarrow> 'k fd_sys \<Rightarrow> bool" where
  "fd_inv watched s \<longleftrightarrow>
     (let st = fs_state s; segs = fd_segments st in
       (\<forall>i j a. segs i = Some a \<longrightarrow> segs j = Some a \<longrightarrow> i = j) \<and>
       (\<forall>ev fd. case fs_wait s (ev, fd) of
          None \<Rightarrow> watched (fd_kernel st) (event_mode ev, fd) = None
        | Some self \<Rightarrow> 0 \<le> fd \<and> fd < 4194304 \<and>
            (\<exists>a b. segs (nat (fd div 16384)) = Some a \<and>
               watched (fd_kernel st) (event_mode ev, fd) = Some ((a, nat (fd mod 16384), event_mode ev), b) \<and>
               fd_filters st (a, nat (fd mod 16384), event_mode ev) = self)))"

lemma fd_invI:
  assumes "\<And>i j a. fd_segments (fs_state s) i = Some a \<Longrightarrow> fd_segments (fs_state s) j = Some a \<Longrightarrow> i = j"
    "\<And>ev fd. fs_wait s (ev, fd) = None \<Longrightarrow> watched (fd_kernel (fs_state s)) (event_mode ev, fd) = None"
    "\<And>ev fd self. fs_wait s (ev, fd) = Some self \<Longrightarrow> 0 \<le> fd \<and> fd < 4194304 \<and>
       (\<exists>a b. fd_segments (fs_state s) (nat (fd div 16384)) = Some a \<and>
          watched (fd_kernel (fs_state s)) (event_mode ev, fd) = Some ((a, nat (fd mod 16384), event_mode ev), b) \<and>
          fd_filters (fs_state s) (a, nat (fd mod 16384), event_mode ev) = self)"
  shows "fd_inv watched s"
  unfolding fd_inv_def Let_def using assms by (auto split: option.split)

lemma fd_invD:
  assumes "fd_inv watched s"
  shows "fd_segments (fs_state s) i = Some a \<Longrightarrow> fd_segments (fs_state s) j = Some a \<Longrightarrow> i = j"
    "fs_wait s (ev, fd) = None \<Longrightarrow> watched (fd_kernel (fs_state s)) (event_mode ev, fd) = None"
    "fs_wait s (ev, fd) = Some self \<Longrightarrow> 0 \<le> fd \<and> fd < 4194304 \<and>
       (\<exists>a b. fd_segments (fs_state s) (nat (fd div 16384)) = Some a \<and>
          watched (fd_kernel (fs_state s)) (event_mode ev, fd) = Some ((a, nat (fd mod 16384), event_mode ev), b) \<and>
          fd_filters (fs_state s) (a, nat (fd mod 16384), event_mode ev) = self)"
proof -
  show "fd_segments (fs_state s) i = Some a \<Longrightarrow> fd_segments (fs_state s) j = Some a \<Longrightarrow> i = j"
    using assms unfolding fd_inv_def Let_def by blast
  have *: "case fs_wait s (ev, fd) of
          None \<Rightarrow> watched (fd_kernel (fs_state s)) (event_mode ev, fd) = None
        | Some self \<Rightarrow> 0 \<le> fd \<and> fd < 4194304 \<and>
            (\<exists>a b. fd_segments (fs_state s) (nat (fd div 16384)) = Some a \<and>
               watched (fd_kernel (fs_state s)) (event_mode ev, fd) = Some ((a, nat (fd mod 16384), event_mode ev), b) \<and>
               fd_filters (fs_state s) (a, nat (fd mod 16384), event_mode ev) = self)"
    using assms unfolding fd_inv_def Let_def by blast
  show "fs_wait s (ev, fd) = None \<Longrightarrow> watched (fd_kernel (fs_state s)) (event_mode ev, fd) = None" using * by simp
  show "fs_wait s (ev, fd) = Some self \<Longrightarrow> 0 \<le> fd \<and> fd < 4194304 \<and>
       (\<exists>a b. fd_segments (fs_state s) (nat (fd div 16384)) = Some a \<and>
          watched (fd_kernel (fs_state s)) (event_mode ev, fd) = Some ((a, nat (fd mod 16384), event_mode ev), b) \<and>
          fd_filters (fs_state s) (a, nat (fd mod 16384), event_mode ev) = self)" using * by simp
qed

lemma contract_add:
  "epoll_contract E watched \<Longrightarrow> watched k (m, fd) = None \<Longrightarrow>
    \<exists>k'. ep_add E m fd fi k = Some k' \<and> watched k' = (watched k)((m, fd) \<mapsto> (fi, True))"
  "epoll_contract E watched \<Longrightarrow> watched k (m, fd) \<noteq> None \<Longrightarrow> ep_add E m fd fi k = None"
  "epoll_contract E watched \<Longrightarrow> watched k (m, fd) \<noteq> None \<Longrightarrow>
    \<exists>k'. ep_del E m fd k = Some k' \<and> watched k' = (watched k)((m, fd) := None)"
  unfolding epoll_contract_def by blast+

lemma contract_wait:
  assumes "epoll_contract E watched" "ep_wait E m k = (slots, k')"
  obtains fds where "distinct fds" "map (\<lambda>fd. watched k (m, fd)) fds = map (\<lambda>fi. Some (fi, True)) slots"
    "watched k' = (\<lambda>(m', fd). if m' = m \<and> fd \<in> set fds then map_option (\<lambda>(fi, _). (fi, False)) (watched k (m', fd))
       else watched k (m', fd))"
  using assms unfolding epoll_contract_def by blast

text \<open>The slot of a descriptor, when its segment is there or is allocated now.\<close>

lemma select_now:
  assumes "0 \<le> fd" "fd < 4194304"
  obtains a where "select_filter (segs (nat (fd sdiv segment_size))) new_fds fd ev segs =
      Inr ((a, nat (fd mod 16384), event_mode ev), segs(nat (fd div 16384) := Some a))"
    "segs (nat (fd div 16384)) = Some a \<or> segs (nat (fd div 16384)) = None \<and> a = new_fds"
  using assms
  by (cases "segs (nat (fd div 16384))")
    (simp_all add: select_eq segment_parts select_segment_def fun_upd_idem)

lemma slots_differ:
  assumes "0 \<le> fd" "0 \<le> fd'" "nat (fd div 16384) = nat (fd' div 16384)" "nat (fd mod 16384) = nat (fd' mod 16384)"
  shows "fd = fd'"
proof -
  have "fd div 16384 = fd' div 16384" "fd mod 16384 = fd' mod 16384" using assms by (simp_all add: eq_nat_nat_iff)
  then show ?thesis by (metis div_mult_mod_eq)
qed

lemma begin_inv:
  assumes C: "epoll_contract E watched" and inv: "fd_inv watched s" and fd: "0 \<le> fd" "fd < 4194304"
    and free: "fs_wait s (ev, fd) = None" and fresh: "new_fds \<notin> ran (fd_segments (fs_state s))"
  shows "\<exists>st. wait_begin E new_fds fd ev self (fs_state s) = (None, st) \<and>
    fd_inv watched (s\<lparr>fs_state := st, fs_wait := (fs_wait s)((ev, fd) \<mapsto> self)\<rparr>)"
proof -
  let ?st = "fs_state s" and ?i = "nat (fd div 16384)"
  note I = fd_invD [OF inv]
  obtain a where a: "select_filter (fd_segments ?st (nat (fd sdiv segment_size))) new_fds fd ev (fd_segments ?st) =
      Inr ((a, nat (fd mod 16384), event_mode ev), (fd_segments ?st)(?i := Some a))"
    "fd_segments ?st ?i = Some a \<or> fd_segments ?st ?i = None \<and> a = new_fds"
    by (rule select_now [OF fd])
  let ?fi = "(a, nat (fd mod 16384), event_mode ev)"
  obtain k where k: "ep_add E (event_mode ev) fd ?fi (fd_kernel ?st) = Some k"
      "watched k = (watched (fd_kernel ?st))((event_mode ev, fd) \<mapsto> (?fi, True))"
    using contract_add(1) [OF C I(2) [OF free], of ?fi] by blast
  let ?st' = "?st\<lparr>fd_segments := (fd_segments ?st)(?i := Some a), fd_filters := (fd_filters ?st)(?fi := self), fd_kernel := k\<rparr>"
  have new: "fd_segments ?st j \<noteq> Some a" if "j \<noteq> ?i" for j
    using a(2) I(1) [of j a ?i] fresh that by (auto simp: ran_def)
  have "wait_begin E new_fds fd ev self ?st = (None, ?st')"
    using a(1) k(1) by (simp add: wait_begin_def Let_def)
  moreover have "fd_inv watched (s\<lparr>fs_state := ?st', fs_wait := (fs_wait s)((ev, fd) \<mapsto> self)\<rparr>)"
  proof (rule fd_invI, goal_cases)
    case (1 i j b)
    then show ?case using I(1) [of i b j] new by (simp split: if_splits)
  next
    case (2 ev' fd')
    then show ?case using I(2) [of ev' fd'] k(2) mode_inj by (auto split: if_splits)
  next
    case (3 ev' fd' self')
    show ?case
    proof (cases "(ev', fd') = (ev, fd)")
      case True
      with 3 fd k(2) show ?thesis by (auto intro!: exI [of _ a] exI [of _ True])
    next
      case False
      with 3 have old: "fs_wait s (ev', fd') = Some self'" by (simp split: if_splits)
      from I(3) [OF this] obtain c b where c: "0 \<le> fd'" "fd' < 4194304" "fd_segments ?st (nat (fd' div 16384)) = Some c"
          "watched (fd_kernel ?st) (event_mode ev', fd') = Some ((c, nat (fd' mod 16384), event_mode ev'), b)"
          "fd_filters ?st (c, nat (fd' mod 16384), event_mode ev') = self'" by blast
      have seg: "((fd_segments ?st)(?i := Some a)) (nat (fd' div 16384)) = Some c"
        using c(3) a(2) by auto
      have "(c, nat (fd' mod 16384), event_mode ev') \<noteq> ?fi"
      proof
        assume eq: "(c, nat (fd' mod 16384), event_mode ev') = ?fi"
        with c(3) new have "nat (fd' div 16384) = ?i" by auto
        with eq slots_differ [OF c(1) fd(1)] mode_inj have "(ev', fd') = (ev, fd)" by simp
        with False show False by simp
      qed
      with c seg k(2) False mode_inj show ?thesis by (auto simp del: fun_upd_apply simp: fun_upd_other)
    qed
  qed
  ultimately show ?thesis by blast
qed

lemma poll_inv:
  assumes C: "epoll_contract E watched" and inv: "fd_inv watched s"
    and p: "poll_set E (event_mode ev) (fs_state s) = (answers, st)"
  shows "fd_inv watched (s\<lparr>fs_state := st, fs_answered := fs_answered s @ answers\<rparr>)"
proof -
  obtain slots k where w: "ep_wait E (event_mode ev) (fd_kernel (fs_state s)) = (slots, k)" "st = (fs_state s)\<lparr>fd_kernel := k\<rparr>"
    using p by (auto simp: poll_set_def split: prod.splits)
  obtain fds where k: "watched k = (\<lambda>(m', fd). if m' = event_mode ev \<and> fd \<in> set fds
       then map_option (\<lambda>(fi, _). (fi, False)) (watched (fd_kernel (fs_state s)) (m', fd)) else watched (fd_kernel (fs_state s)) (m', fd))"
    using contract_wait [OF C w(1)] by blast
  note I = fd_invD [OF inv]
  show ?thesis
  proof (rule fd_invI, goal_cases)
    case (1 i j a)
    then show ?case using I(1) [of i a j] w(2) by simp
  next
    case (2 ev' fd)
    then have "watched (fd_kernel (fs_state s)) (event_mode ev', fd) = None" using I(2) [of ev' fd] by simp
    then show ?case using w(2) k by auto
  next
    case (3 ev' fd self)
    then have "fs_wait s (ev', fd) = Some self" by simp
    from I(3) [OF this] show ?case using w(2) k by auto
  qed
qed

lemma end_inv:
  assumes C: "epoll_contract E watched" and inv: "fd_inv watched s" and w: "fs_wait s (ev, fd) = Some self"
  shows "\<exists>st. wait_end E fd ev (fs_state s) = (None, st) \<and>
    fd_inv watched (s\<lparr>fs_state := st, fs_wait := (fs_wait s)((ev, fd) := None)\<rparr>)"
proof -
  note I = fd_invD [OF inv]
  have "watched (fd_kernel (fs_state s)) (event_mode ev, fd) \<noteq> None" using I(3) [OF w] by auto
  from contract_add(3) [OF C this] obtain k where k: "ep_del E (event_mode ev) fd (fd_kernel (fs_state s)) = Some k"
      "watched k = (watched (fd_kernel (fs_state s)))((event_mode ev, fd) := None)" by blast
  let ?st = "(fs_state s)\<lparr>fd_kernel := k\<rparr>"
  have "wait_end E fd ev (fs_state s) = (None, ?st)" using k(1) by (simp add: wait_end_def)
  moreover have "fd_inv watched (s\<lparr>fs_state := ?st, fs_wait := (fs_wait s)((ev, fd) := None)\<rparr>)"
  proof (rule fd_invI, goal_cases)
    case (1 i j a)
    then show ?case using I(1) [of i a j] by simp
  next
    case (2 ev' fd')
    then show ?case using I(2) [of ev' fd'] k(2) by (auto split: if_splits)
  next
    case (3 ev' fd' self')
    then have "fs_wait s (ev', fd') = Some self'" "(ev', fd') \<noteq> (ev, fd)" by (auto split: if_splits)
    with I(3) [OF this(1)] k(2) mode_inj show ?case by auto
  qed
  ultimately show ?thesis by blast
qed

lemma fd_reach:
  assumes "epoll_contract E watched" "watched k = (\<lambda>_. None)"
    and "reach (\<lambda>s. s = fd_start k) (fd_step E) s"
  shows "fd_inv watched s"
proof -
  have "fd_inv watched (fd_start k)"
    using assms(2) by (intro fd_invI) (simp_all add: fd_start_def)
  moreover have "fd_inv watched t" if "fd_inv watched s" "fd_step E s t" for s t
    using that(2)
  proof cases
    case (fd_begin fd ev new_fds self st)
    with begin_inv [OF assms(1) that(1) fd_begin(2-5), of self] show ?thesis by auto
  next
    case (fd_polled ev answers st)
    with poll_inv [OF assms(1) that(1)] show ?thesis by blast
  next
    case (fd_end ev fd self st)
    with end_inv [OF assms(1) that(1) fd_end(2)] show ?thesis by auto
  qed
  ultimately have "invariant_contract (\<lambda>s. s = fd_start k) (fd_step E) (fd_inv watched)"
    by unfold_locales blast+
  from invariant_contract.inv_reach [OF this assms(3)] show ?thesis .
qed

section \<open>Who is answered\<close>

text \<open>A kernel with sets of watched and ready descriptors, for the witnesses: it reports a ready one.\<close>

definition toy_kernel :: "((nat \<times> int \<Rightarrow> (slot \<times> bool) option) \<times> int) epoll_ops" where
  "toy_kernel =
     \<lparr>ep_add = (\<lambda>m fd fi (w, r). if w (m, fd) = None then Some (w((m, fd) \<mapsto> (fi, True)), r) else None),
      ep_del = (\<lambda>m fd (w, r). if w (m, fd) = None then None else Some (w((m, fd) := None), r)),
      ep_wait = (\<lambda>m (w, r). case w (m, r) of
         Some (fi, True) \<Rightarrow> ([fi], (w((m, r) \<mapsto> (fi, False)), r)) | _ \<Rightarrow> ([], (w, r)))\<rparr>"

lemma toy_contract: "epoll_contract toy_kernel fst"
  unfolding epoll_contract_def
proof (intro conjI allI impI)
  fix k :: "(nat \<times> int \<Rightarrow> (slot \<times> bool) option) \<times> int" and m slots k'
  assume w: "ep_wait toy_kernel m k = (slots, k')"
  obtain f r where k: "k = (f, r)" by (cases k)
  show "\<exists>fds. distinct fds \<and> map (\<lambda>fd. fst k (m, fd)) fds = map (\<lambda>fi. Some (fi, True)) slots \<and>
      fst k' = (\<lambda>(m', fd). if m' = m \<and> fd \<in> set fds then map_option (\<lambda>(fi, _). (fi, False)) (fst k (m', fd))
        else fst k (m', fd))"
  proof (cases "\<exists>fi. f (m, r) = Some (fi, True)")
    case True
    then obtain fi where fi: "f (m, r) = Some (fi, True)" by blast
    with w k show ?thesis by (intro exI [of _ "[r]"]) (auto simp: toy_kernel_def fun_eq_iff)
  next
    case False
    with w k show ?thesis
      by (intro exI [of _ "[]"]) (auto simp: toy_kernel_def fun_eq_iff split: option.splits prod.splits bool.splits)
  qed
qed (auto simp: toy_kernel_def split: prod.splits)

text \<open>As long as no two coroutines wait for the same event of the same descriptor, \<^verbatim>\<open>fd::wait\<close> never
  fails, and the polling thread answers exactly the coroutines that wait for the descriptors
  the kernel reports, each once: the answers of one turn are the waiters of distinct descriptors,
  and none of these is reported again before its waiter has waited anew.\<close>

lemma polled_waiters:
  assumes "epoll_contract E watched" "watched k = (\<lambda>_. None)"
    and "reach (\<lambda>s. s = fd_start k) (fd_step E) s"
    and "poll_set E (event_mode ev) (fs_state s) = (answers, st)"
  shows "(\<exists>fds. distinct fds \<and> map Some answers = map (\<lambda>fd. fs_wait s (ev, fd)) fds \<and>
      (\<forall>fd. fd \<in> set fds \<longrightarrow> (\<exists>fi. watched (fd_kernel st) (event_mode ev, fd) = Some (fi, False)))) \<and>
    (\<forall>fd ev' new_fds self. 0 \<le> fd \<and> fd < 4194304 \<and> fs_wait s (ev', fd) = None \<and> new_fds \<notin> ran (fd_segments (fs_state s)) \<longrightarrow>
      fst (wait_begin E new_fds fd ev' self (fs_state s)) = None)"
proof (intro conjI allI impI; (elim conjE)?)
  note inv = fd_reach [OF assms(1-3)]
  note I = fd_invD [OF inv]
  let ?w = "watched (fd_kernel (fs_state s))"
  obtain slots k' where w: "ep_wait E (event_mode ev) (fd_kernel (fs_state s)) = (slots, k')"
      "st = (fs_state s)\<lparr>fd_kernel := k'\<rparr>" "answers = map (fd_filters (fs_state s)) (rev slots)"
    using assms(4) by (auto simp: poll_set_def split: prod.splits)
  obtain fds where fds: "distinct fds" "map (\<lambda>fd. ?w (event_mode ev, fd)) fds = map (\<lambda>fi. Some (fi, True)) slots"
      "watched k' = (\<lambda>(m', fd). if m' = event_mode ev \<and> fd \<in> set fds
         then map_option (\<lambda>(fi, _). (fi, False)) (?w (m', fd)) else ?w (m', fd))"
    by (rule contract_wait [OF assms(1) w(1)])
  have len: "length fds = length slots" using fds(2) by (rule map_eq_imp_length_eq)
  have at: "?w (event_mode ev, fds ! i) = Some (slots ! i, True)" if "i < length fds" for i
    using arg_cong [OF fds(2), of "\<lambda>xs. xs ! i"] that len by simp
  have who: "fs_wait s (ev, fds ! i) = Some (fd_filters (fs_state s) (slots ! i))" if "i < length fds" for i
    using I(2) [of ev "fds ! i"] I(3) [of ev "fds ! i"] at [OF that]
    by (cases "fs_wait s (ev, fds ! i)") auto
  have "map Some answers = map (\<lambda>fd. fs_wait s (ev, fd)) (rev fds)"
    unfolding w(3) rev_map [symmetric] map_map using who len
    by (auto simp: rev_map [symmetric] intro!: nth_equalityI)
  moreover have "\<exists>fi. watched (fd_kernel st) (event_mode ev, fd) = Some (fi, False)" if "fd \<in> set fds" for fd
  proof -
    from that obtain i where i: "i < length fds" "fds ! i = fd" by (auto simp: in_set_conv_nth)
    with at have "?w (event_mode ev, fd) = Some (slots ! i, True)" by metis
    with that show ?thesis by (intro exI [of _ "slots ! i"]) (simp add: fds(3) w(2))
  qed
  ultimately show "\<exists>fds. distinct fds \<and> map Some answers = map (\<lambda>fd. fs_wait s (ev, fd)) fds \<and>
      (\<forall>fd. fd \<in> set fds \<longrightarrow> (\<exists>fi. watched (fd_kernel st) (event_mode ev, fd) = Some (fi, False)))"
    using fds(1) by (intro exI [of _ "rev fds"]) simp
next
  fix fd ev' new_fds self
  assume "0 \<le> fd" "fd < 4194304" "fs_wait s (ev', fd) = None" "new_fds \<notin> ran (fd_segments (fs_state s))"
  from begin_inv [OF assms(1) fd_reach [OF assms(1-3)] this, of self]
  show "fst (wait_begin E new_fds fd ev' self (fs_state s)) = None" by auto
qed

lemma toy_run:
  "\<exists>s. reach (\<lambda>s. s = fd_start (\<lambda>_. None, 7)) (fd_step toy_kernel) s \<and>
    fs_wait s = [(kRead, 7) \<mapsto> (1, 9)] \<and> fst (poll_set toy_kernel 0 (fs_state s)) = [(1, 9)] \<and> fd_segments (fs_state s) = [0 \<mapsto> 5]"
proof -
  let ?s = "fd_start (\<lambda>_. None, 7) :: ((nat \<times> int \<Rightarrow> (slot \<times> bool) option) \<times> int) fd_sys"
  obtain st where st: "wait_begin toy_kernel 5 7 kRead (1, 9) (fs_state ?s) = (None, st)"
      "fst (poll_set toy_kernel 0 st) = [(1, 9)]" "fd_segments st = [0 \<mapsto> 5]"
    by (simp add: wait_begin_def fd_start_def select_eq segment_parts select_segment_def toy_kernel_def poll_set_def)
  let ?t = "?s\<lparr>fs_state := st, fs_wait := (fs_wait ?s)((kRead, 7) \<mapsto> (1, 9))\<rparr>"
  have "fd_step toy_kernel ?s ?t"
    using st(1) by (intro fd_begin) (simp_all add: fd_start_def)
  then have "reach (\<lambda>s. s = ?s) (fd_step toy_kernel) ?t" by (intro reach_step [OF reach_init]) simp_all
  with st(2,3) show ?thesis by (intro exI [of _ ?t]) (simp add: fd_start_def)
qed

text \<open>With two waiters the first is lost: when a coroutine waits for an event of a descriptor and a
  second one calls \<^verbatim>\<open>fd::wait\<close> for the same, the second call throws, but it has already
  overwritten the filter; when the kernel reports the descriptor, the answer goes to the
  session of the second and not to the coroutine that waits.\<close>

theorem second_waiter_steals:
  assumes "epoll_contract E watched" "watched k = (\<lambda>_. None)"
    and "reach (\<lambda>s. s = fd_start k) (fd_step E) s"
    and "fs_wait s (ev, fd) = Some self" "watched (fd_kernel (fs_state s)) (event_mode ev, fd) = Some (fi, True)"
    and "wait_begin E new_fds fd ev other (fs_state s) = (err, st)"
    and "ep_wait E (event_mode ev) (fd_kernel st) = ([fi], k')"
  shows "err = Some SystemError \<and> fst (poll_set E (event_mode ev) (fs_state s)) = [self] \<and>
    fst (poll_set E (event_mode ev) st) = [other]"
proof -
  note I = fd_invD [OF fd_reach [OF assms(1-3)]]
  from I(3) [OF assms(4)] assms(5) obtain a where a: "0 \<le> fd" "fd < 4194304" "fd_segments (fs_state s) (nat (fd div 16384)) = Some a"
      "fi = (a, nat (fd mod 16384), event_mode ev)" "fd_filters (fs_state s) fi = self" by auto
  have "select_filter (fd_segments (fs_state s) (nat (fd sdiv segment_size))) new_fds fd ev (fd_segments (fs_state s)) =
      Inr (fi, fd_segments (fs_state s))"
    using a by (simp add: select_eq segment_parts select_segment_def)
  moreover have "ep_add E (event_mode ev) fd fi (fd_kernel (fs_state s)) = None"
  proof (rule contract_add(2) [OF assms(1)])
    show "watched (fd_kernel (fs_state s)) (event_mode ev, fd) \<noteq> None" using assms(5) by simp
  qed
  ultimately have b: "err = Some SystemError" "st = (fs_state s)\<lparr>fd_filters := (fd_filters (fs_state s))(fi := other)\<rparr>"
    using assms(6) by (auto simp: wait_begin_def Let_def)
  then show ?thesis using assms(7) a(5) by (simp add: poll_set_def)
qed

theorem second_waiter_steals_witness:
  "\<exists>s st. reach (\<lambda>s. s = fd_start (\<lambda>_. None, 7)) (fd_step toy_kernel) s \<and> fs_wait s (kRead, 7) = Some (1, 9) \<and>
    wait_begin toy_kernel 6 7 kRead (1, 10) (fs_state s) = (Some SystemError, st) \<and>
    fst (poll_set toy_kernel (event_mode kRead) st) = [(1, 10)]"
proof -
  obtain s where s: "reach (\<lambda>s. s = fd_start (\<lambda>_. None, 7)) (fd_step toy_kernel) s"
      "fs_wait s = [(kRead, 7) \<mapsto> (1, 9)]" "fst (poll_set toy_kernel 0 (fs_state s)) = [(1, 9)]"
      "fd_segments (fs_state s) = [0 \<mapsto> 5]"
    using toy_run by blast
  obtain f r where k: "fd_kernel (fs_state s) = (f, r)" by fastforce
  from fd_reach [OF toy_contract _ s(1)] have inv: "fd_inv fst s" by simp
  from fd_invD(3) [OF inv, of kRead 7] s(2) k obtain a b where w: "f (0, 7) = Some (a, b)" by auto
  obtain fi where fi: "f (0, r) = Some (fi, True)"
    using s(3) k by (auto simp: poll_set_def toy_kernel_def split: option.splits prod.splits bool.splits)
  have "r = 7"
  proof (rule ccontr)
    assume "r \<noteq> 7"
    then have "fs_wait s (kRead, r) = None" using s(2) by simp
    from fd_invD(2) [OF inv this] k fi show False by simp
  qed
  obtain err st where b: "wait_begin toy_kernel 6 7 kRead (1, 10) (fs_state s) = (err, st)" by fastforce
  have "fd_kernel st = (f, r)"
    using b k w s(4) by (auto simp: wait_begin_def select_eq segment_parts select_segment_def toy_kernel_def Let_def)
  then have e: "ep_wait toy_kernel (event_mode kRead) (fd_kernel st) = ([fi], (f((0, 7) \<mapsto> (fi, False)), 7))"
    using fi \<open>r = 7\<close> by (simp add: toy_kernel_def)
  have "fst (fd_kernel (fs_state s)) (event_mode kRead, 7) = Some (fi, True)" using k fi \<open>r = 7\<close> by simp
  from second_waiter_steals [OF toy_contract _ s(1) _ this b e, of "(1, 9)"] s(1,2) b show ?thesis by auto
qed

end
