(* ===== verification/Fd_Wake.thy ===== *)
theory Fd_Wake
  imports Wakeup Fd_Spec
begin

text \<open>
  Waiting for a descriptor, over the runtime: \<^verbatim>\<open>fd::wait\<close> of \<^verbatim>\<open>src/fd_epoll.cpp\<close> as a call of a
  running coroutine, with its session and its block, and the responses of the polling thread to the
  processes of the table.
\<close>

section \<open>The call and the thread\<close>

text \<open>
  \<^verbatim>\<open>fd::wait\<close> up to the switch in \<^verbatim>\<open>block\<close>. When \<^verbatim>\<open>epoll_ctl\<close> throws, the handle of the session
  releases it on the way out; a failed assertion ends the program.
\<close>

definition fd_wait_enter :: "'k epoll_ops \<Rightarrow> 'i alloc_ops \<Rightarrow> nat \<Rightarrow> addr \<Rightarrow> co \<Rightarrow> int \<Rightarrow> Event \<Rightarrow>
    'k fdstate \<times> ('v, 'l, 'i, 'h) runtime \<Rightarrow> ((fd_error + session_t) \<times> 'k fdstate \<times> ('v, 'l, 'i, 'h) runtime) option" where
  "fd_wait_enter E I new_fds running co fd event = (\<lambda>(st, s).
     (case rt_procs s running of
        None \<Rightarrow> None
      | Some q \<Rightarrow>
          (case proc_new_session I q of (session, q1) \<Rightarrow>
            (case wait_begin E new_fds fd event (pid_value (p_pid q1), sid_value session) st of
               (None, st1) \<Rightarrow> Some (Inr session, st1, s\<lparr>rt_procs := (rt_procs s)(running \<mapsto> proc_block session co q1)\<rparr>)
             | (Some e, st1) \<Rightarrow> Some (Inl e, st1, s\<lparr>rt_procs := (rt_procs s)(running \<mapsto>
                 (if e = SystemError \<and> sid_set session then proc_release_session I session q1 else q1))\<rparr>)))))"

text \<open>What follows the switch, whether \<^verbatim>\<open>block\<close> returns or throws; an exception of the guard ends the program.\<close>

definition fd_wait_leave :: "'k epoll_ops \<Rightarrow> 'i alloc_ops \<Rightarrow> addr \<Rightarrow> session_t \<Rightarrow> int \<Rightarrow> Event \<Rightarrow>
    'k fdstate \<times> ('v, 'l, 'i, 'h) runtime \<Rightarrow> (fd_error option \<times> 'k fdstate \<times> ('v, 'l, 'i, 'h) runtime) option" where
  "fd_wait_leave E I running session fd event = (\<lambda>(st, s).
     (case wait_end E fd event st of
        (Some e, st1) \<Rightarrow> Some (Some e, st1, s)
      | (None, st1) \<Rightarrow> map_option (\<lambda>s1. (None, st1, s1))
          (with_proc running (\<lambda>q. if sid_set session then proc_release_session I session q else q) s)))"

text \<open>The polling thread is not a process: its responses come from none, and close no request.\<close>

fun poll_wakeups :: "('l, 'v message) append_ops \<Rightarrow> waiter list \<Rightarrow>
    ('v, 'l, 'i, 'h) runtime \<Rightarrow> ('v, 'l, 'i, 'h) runtime option option" where
  "poll_wakeups A [] s = Some (Some s)"
| "poll_wakeups A ((source, session) # waiters) s =
     (case rt_response A None (process_t source) (session_t session) EmptyAny s of
        None \<Rightarrow> None
      | Some None \<Rightarrow> Some None
      | Some (Some s1) \<Rightarrow> poll_wakeups A waiters s1)"

definition poll_round :: "'k epoll_ops \<Rightarrow> ('l, 'v message) append_ops \<Rightarrow> nat \<Rightarrow>
    'k fdstate \<times> ('v, 'l, 'i, 'h) runtime \<Rightarrow> ('k fdstate \<times> ('v, 'l, 'i, 'h) runtime) option option" where
  "poll_round E A mode = (\<lambda>(st, s).
     (case poll_set E mode st of (waiters, st1) \<Rightarrow> map_option (map_option (Pair st1)) (poll_wakeups A waiters s)))"

text \<open>
  The thread waits for either set with one more descriptor; the sets it reports ready are handled from the
  last to the first. An error of that call is printed, and the thread goes on.
\<close>

fun poll_sets :: "'k epoll_ops \<Rightarrow> ('l, 'v message) append_ops \<Rightarrow> nat list \<Rightarrow>
    'k fdstate \<times> ('v, 'l, 'i, 'h) runtime \<Rightarrow> ('k fdstate \<times> ('v, 'l, 'i, 'h) runtime) option option" where
  "poll_sets E A [] x = Some (Some x)"
| "poll_sets E A (mode # modes) x =
     (case poll_round E A mode x of
        None \<Rightarrow> None
      | Some None \<Rightarrow> Some None
      | Some (Some y) \<Rightarrow> poll_sets E A modes y)"

definition epoll_thread :: "'k epoll_ops \<Rightarrow> ('l, 'v message) append_ops \<Rightarrow> nat list option \<Rightarrow>
    'k fdstate \<times> ('v, 'l, 'i, 'h) runtime \<Rightarrow> ('k fdstate \<times> ('v, 'l, 'i, 'h) runtime) option option" where
  "epoll_thread E A ready x = (case ready of None \<Rightarrow> Some (Some x) | Some modes \<Rightarrow> poll_sets E A (rev modes) x)"

section \<open>A session of the running process\<close>

text \<open>The coroutine blocks on a session it has just taken, or gives it back.\<close>

lemma block_new_session:
  fixes s :: "('v, 'l, 'i, 'h) runtime"
  assumes "mid_turn rep running co H s" "rt_procs s running = Some q" "proc_new_session I q = (session, q1)"
  shows "p_pid q1 = p_pid q"
    and "session \<notin> fst ` set (p_block q) \<Longrightarrow>
      rt_inv rep between {#running#} (add_mset running H) (s\<lparr>rt_procs := (rt_procs s)(running \<mapsto> proc_block session co q1)\<rparr>)"
    and "mid_turn rep running co H (s\<lparr>rt_procs := (rt_procs s)(running \<mapsto> proc_release_session I session q1)\<rparr>)"
proof -
  have q1: "p_pid q1 = p_pid q" "p_mailbox q1 = p_mailbox q" "same_tables q q1"
    using same_mail(9,10) [of I q] same_tables_ops(1) [of q I] assms(3) by simp_all
  from mid_turn_process [OF assms(1)] assms(2) have q: "wf_owned {#co#} q" "\<not> mb_wait (p_mailbox q)" "idle_empty rep q" by auto
  have wf1: "wf_owned {#co#} q1" using same_tables_wf [OF q1(3) q(1)] .
  show "p_pid q1 = p_pid q" by (rule q1(1))
  show "rt_inv rep between {#running#} (add_mset running H) (s\<lparr>rt_procs := (rt_procs s)(running \<mapsto> proc_block session co q1)\<rparr>)"
    if "session \<notin> fst ` set (p_block q)"
  proof -
    have "session \<notin> fst ` set (p_block q1)" using that q1(3) by (simp add: same_tables_def)
    then have "wf_owned {#} (proc_block session co q1)" using wf1 by (intro wf_block)
    moreover have "idle_empty rep (proc_block session co q1)" using q(3) q1(2) by (simp add: idle_empty_def boxed_def same_mail)
    ultimately have "rt_inv rep (between(running := {#})) {#running#} (add_mset running H)
        (s\<lparr>rt_procs := (rt_procs s)(running \<mapsto> proc_block session co q1)\<rparr>)"
      using q(2) q1(1,2) by (intro mid_turn_local [OF assms(1,2)]) (simp_all add: same_mail)
    then show ?thesis by simp
  qed
  have "same_tables q1 (proc_release_session I session q1)" by (rule same_tables_ops(2))
  then have "wf_owned {#co#} (proc_release_session I session q1)" using wf1 by (rule same_tables_wf)
  then show "mid_turn rep running co H (s\<lparr>rt_procs := (rt_procs s)(running \<mapsto> proc_release_session I session q1)\<rparr>)"
    using q1(1,2) by (intro mid_turn_same [OF assms(1,2)]) (simp_all add: same_mail)
qed

section \<open>The call blocks\<close>



section \<open>The polling thread wakes\<close>

lemma outside_response:
  fixes s :: "('v, 'l, 'i, 'h) runtime"
  assumes "append_list A (\<lambda>_ _. True) rep" "rt_inv rep C R H s"
  shows "\<exists>t. rt_response A None source session content s = Some (Some t) \<and> rt_inv rep C R H t \<and>
    rg_map (rt_reg t) = rg_map (rt_reg s) \<and>
    (\<forall>p. rt_procs t p = (if rg_map (rt_reg s) (pid_value source) = Some p
      then map_option (pushed A (message_create (process_t 0) (sessionForResponse session) content)) (rt_procs s p)
      else rt_procs s p))"
proof -
  have "rt_inv rep C R (H + task_refs [SendTask source (sessionForResponse session) content]) s"
    using assms(2) by simp
  from rt_tasks_return [OF assms(1) this, of "process_t 0"] obtain t where
    t: "rt_tasks A (process_t 0) [SendTask source (sessionForResponse session) content] s = Some (Some t)" "rt_inv rep C R H t" by blast
  have "rt_response A None source session content s = Some (Some t)"
    using t(1) by (simp add: rt_response_def rt_self_def)
  then show ?thesis
    using t send_task [OF assms, of "process_t 0" source "sessionForResponse session" content]
    by (intro exI [of _ t]) (auto simp: pushed_def split: option.splits)
qed

lemma poll_wakeups_frame:
  fixes s :: "('v, 'l, 'i, 'h) runtime"
  assumes A: "append_list A (\<lambda>_ _. True) rep"
  shows "rt_inv rep C R H s \<Longrightarrow> \<exists>t. poll_wakeups A waiters s = Some (Some t) \<and> rt_inv rep C R H t \<and>
    rg_map (rt_reg t) = rg_map (rt_reg s) \<and>
    (\<forall>p. rel_option (receives rep (answers (process_t 0) (rt_reg s) p (map (\<lambda>w. (process_t (fst w), session_t (snd w))) waiters)))
      (rt_procs s p) (rt_procs t p))"
proof (induction waiters arbitrary: s)
  case Nil
  then show ?case by (auto simp: answers_def receives_none intro: option.rel_refl)
next
  case (Cons w waiters)
  obtain source session where w: "w = (source, session)" by fastforce
  from outside_response [OF A Cons.prems, of "process_t source" "session_t session" EmptyAny] obtain s1 where
    s1: "rt_response A None (process_t source) (session_t session) EmptyAny s = Some (Some s1)" "rt_inv rep C R H s1"
      "rg_map (rt_reg s1) = rg_map (rt_reg s)"
    and first: "\<And>p. rt_procs s1 p = (if rg_map (rt_reg s) (pid_value (process_t source)) = Some p
      then map_option (pushed A (message_create (process_t 0) (sessionForResponse (session_t session)) EmptyAny)) (rt_procs s p)
      else rt_procs s p)" by blast
  from Cons.IH [OF s1(2)] obtain t where
    t: "poll_wakeups A waiters s1 = Some (Some t)" "rt_inv rep C R H t" "rg_map (rt_reg t) = rg_map (rt_reg s1)"
      "\<And>p. rel_option (receives rep (answers (process_t 0) (rt_reg s1) p (map (\<lambda>w. (process_t (fst w), session_t (snd w))) waiters)))
        (rt_procs s1 p) (rt_procs t p)" by blast
  have "rel_option (receives rep (answers (process_t 0) (rt_reg s) p (map (\<lambda>w. (process_t (fst w), session_t (snd w))) (w # waiters))))
      (rt_procs s p) (rt_procs t p)" for p
    using receives_answer [OF A first s1(3) t(4)] w by simp
  with s1 t w show ?case by auto
qed



end
