(* ===== verification/Startup.thy ===== *)
theory Startup
  imports Boot Sleep Fd_Wake
begin

text \<open>
  The helper threads, from the beginning to the end of a program: \<^verbatim>\<open>init\<close> and \<^verbatim>\<open>stop\<close> of
  \<^verbatim>\<open>src/time.cpp\<close> and \<^verbatim>\<open>src/fd_epoll.cpp\<close>, in the order of \<^verbatim>\<open>module::Order\<close>, in which
  \<^verbatim>\<open>wild::module::Init\<close> calls them, and \<^verbatim>\<open>Scheduler::stop\<close> with the threads it cancels and joins.
\<close>

section \<open>Threads\<close>

text \<open>
  A \<^verbatim>\<open>std::thread\<close>. Giving a new thread to one that runs ends the program, and so does joining one that
  is not running: both are \<open>None\<close>.
\<close>

datatype helper = NoThread | RunningThread | JoinedThread

definition helper_start :: "helper \<Rightarrow> helper option" where
  "helper_start h = (if h = RunningThread then None else Some RunningThread)"

definition helper_stop :: "helper \<Rightarrow> helper option" where
  "helper_stop h = (if h = RunningThread then Some JoinedThread else None)"

record program =
  pg_time :: time_globals
  pg_service :: process_t
  pg_time_thread :: helper
  pg_poll_thread :: helper
  pg_poll_fds :: "int list"

definition program_new :: program where
  "program_new = \<lparr>pg_time = time_init 0 0, pg_service = process_t 0, pg_time_thread = NoThread, pg_poll_thread = NoThread,
     pg_poll_fds = []\<rparr>"

section \<open>Initialisation\<close>

text \<open>\<^verbatim>\<open>init\<close> of the timer spawns its process and starts the thread that sends it the time.\<close>

definition time_module :: "('l, 'v message) append_ops \<Rightarrow> addr \<Rightarrow> co \<Rightarrow> 'i \<Rightarrow> uint64 \<Rightarrow> uint64 \<Rightarrow>
    program \<times> ('v, 'l, 'i, 'h) runtime \<Rightarrow> (program \<times> ('v, 'l, 'i, 'h) runtime) option" where
  "time_module A p co ids gettime realtime = (\<lambda>(pg, s).
     (case rt_spawn A p co ids s of
        None \<Rightarrow> None
      | Some (pid, s1) \<Rightarrow>
          map_option (\<lambda>h. (pg\<lparr>pg_time := time_init gettime realtime, pg_service := pid, pg_time_thread := h\<rparr>, s1))
            (helper_start (pg_time_thread pg))))"

text \<open>
  The kernel objects of the poller: \<^verbatim>\<open>epoll_create\<close> gives a descriptor or fails, and so may adding one
  descriptor to another with \<^verbatim>\<open>epoll_ctl\<close>; either failure is an exception out of \<^verbatim>\<open>init\<close>.
\<close>

record 'w epoll_setup =
  es_create :: "'w \<Rightarrow> int option \<times> 'w"
  es_add :: "int \<Rightarrow> int \<Rightarrow> 'w \<Rightarrow> bool \<times> 'w"

fun epoll_creates :: "'w epoll_setup \<Rightarrow> nat \<Rightarrow> 'w \<Rightarrow> (fd_error + int list) \<times> 'w" where
  "epoll_creates B 0 w = (Inr [], w)"
| "epoll_creates B (Suc n) w =
     (case es_create B w of
        (None, w1) \<Rightarrow> (Inl SystemError, w1)
      | (Some fd, w1) \<Rightarrow>
          (case epoll_creates B n w1 of
             (Inl e, w2) \<Rightarrow> (Inl e, w2)
           | (Inr fds, w2) \<Rightarrow> (Inr (fd # fds), w2)))"

definition epoll_init :: "'w epoll_setup \<Rightarrow> 'w \<Rightarrow> (fd_error + int list) \<times> 'w" where
  "epoll_init B w =
     (case epoll_creates B 3 w of
        (Inr [epfd, readfd, writefd], w1) \<Rightarrow>
          (case es_add B epfd readfd w1 of
             (False, w2) \<Rightarrow> (Inl SystemError, w2)
           | (True, w2) \<Rightarrow>
               (case es_add B epfd writefd w2 of
                  (False, w3) \<Rightarrow> (Inl SystemError, w3)
                | (True, w3) \<Rightarrow> (Inr [epfd, readfd, writefd], w3)))
      | (Inr _, w1) \<Rightarrow> (Inl SystemError, w1)
      | (Inl e, w1) \<Rightarrow> (Inl e, w1))"

definition epoll_module :: "'w epoll_setup \<Rightarrow> program \<times> 'w \<Rightarrow> ((fd_error + program) \<times> 'w) option" where
  "epoll_module B = (\<lambda>(pg, w).
     (case epoll_init B w of
        (Inl e, w1) \<Rightarrow> Some (Inl e, w1)
      | (Inr fds, w1) \<Rightarrow>
          map_option (\<lambda>h. (Inr (pg\<lparr>pg_poll_fds := fds, pg_poll_thread := h\<rparr>), w1)) (helper_start (pg_poll_thread pg))))"

text \<open>With \<^verbatim>\<open>kqueue\<close> there is one object; \<open>queue\<close> is what the kernel gives.\<close>

definition kqueue_module :: "int option \<Rightarrow> program \<Rightarrow> (fd_error + program) option" where
  "kqueue_module queue pg =
     (case queue of
        None \<Rightarrow> Some (Inl SystemError)
      | Some kqfd \<Rightarrow> map_option (\<lambda>h. Inr (pg\<lparr>pg_poll_fds := [kqfd], pg_poll_thread := h\<rparr>)) (helper_start (pg_poll_thread pg)))"

section \<open>The end\<close>

definition fd_stop :: "program \<Rightarrow> program option" where
  "fd_stop pg = map_option (\<lambda>h. pg\<lparr>pg_poll_thread := h\<rparr>) (helper_stop (pg_poll_thread pg))"

definition time_stop :: "program \<Rightarrow> program option" where
  "time_stop pg = map_option (\<lambda>h. pg\<lparr>pg_time_thread := h\<rparr>) (helper_stop (pg_time_thread pg))"

text \<open>\<^verbatim>\<open>fd::stop\<close> and \<^verbatim>\<open>time::stop\<close> come before the exit code is stored; a second call does nothing.\<close>

definition program_stop :: "'s signal_ops \<Rightarrow> nat \<Rightarrow> int \<Rightarrow> program \<times> ('l, 's) sched \<Rightarrow> (program \<times> ('l, 's) sched) option" where
  "program_stop G n code = (\<lambda>(pg, sc).
     (case stop_fire sc of (fired, sc1) \<Rightarrow>
        if fired then Some (pg, sc1)
        else (case Option.bind (fd_stop pg) time_stop of
                None \<Rightarrow> None
              | Some pg1 \<Rightarrow> Some (pg1, (signal_worker G ^^ n) (stop_raise code sc1)))))"

fun program_stops :: "'s signal_ops \<Rightarrow> nat \<Rightarrow> int list \<Rightarrow> program \<times> ('l, 's) sched \<Rightarrow> (program \<times> ('l, 's) sched) option" where
  "program_stops G n [] x = Some x"
| "program_stops G n (code # codes) x = Option.bind (program_stop G n code x) (program_stops G n codes)"

section \<open>Started once, stopped once\<close>

lemma program_stopped: "sc_stop_fired sc \<Longrightarrow> program_stops G n codes (pg, sc) = Some (pg, sc)"
proof (induction codes)
  case (Cons code codes)
  then show ?case by (cases sc) (simp add: program_stop_def stop_fire_def)
qed simp

lemma program_stop_first:
  assumes "\<not> sc_stop_fired sc" "pg_time_thread pg = RunningThread" "pg_poll_thread pg = RunningThread"
  shows "program_stops G n (code # codes) (pg, sc) =
    Some (pg\<lparr>pg_poll_thread := JoinedThread, pg_time_thread := JoinedThread\<rparr>, fold (stp_exit G n) (code # codes) sc)"
proof -
  have "sched_stop G n code sc = (signal_worker G ^^ n) (stop_raise code (sc\<lparr>sc_stop_fired := True\<rparr>))"
    using assms(1) by (simp add: sched_stop_def stop_fire_def)
  moreover have fired: "sc_stop_fired (sched_stop G n code sc)" by (simp add: stop_first [OF assms(1)])
  ultimately have "program_stop G n code (pg, sc) =
      Some (pg\<lparr>pg_poll_thread := JoinedThread, pg_time_thread := JoinedThread\<rparr>, sched_stop G n code sc)"
    using assms by (simp add: program_stop_def stop_fire_def helper_stop_def fd_stop_def time_stop_def)
  with program_stopped [OF fired] stops_fired [OF fired] show ?thesis
    by (simp add: stp_exit_def)
qed


text \<open>A kernel that counts the descriptors it gives, for the witness.\<close>

definition counting_epoll :: "int epoll_setup" where
  "counting_epoll = \<lparr>es_create = (\<lambda>w. (Some w, w + 1)), es_add = (\<lambda>_ _ w. (True, w))\<rparr>"


end
