(* ===== verification/Timer_Nodes.thy ===== *)
theory Timer_Nodes
  imports Timer_Service Append_List Context_Stack
begin

text \<open>
  The memory of \<^verbatim>\<open>src/time.cpp\<close>: the timer with its nodes as objects on the heap, linked into the lists
  of its arrays and recycled through \<^verbatim>\<open>wild::FreeList\<close>. It refines the wheel of \<open>Timer_Wheel\<close>, in which a
  list is a list of values: every walk ends, no node is read after it has been freed, and none is lost.
\<close>

section \<open>Memory\<close>

text \<open>
  An element of one of the two arrays. The fields of a node other than its link are the \<open>timer_node\<close> of
  \<open>Timer_Wheel\<close>. \<open>nw_allocated\<close> are the nodes that \<^verbatim>\<open>new\<close> has returned.
\<close>

datatype wheel_slot = InLeast nat | InLevel nat nat

record 'f node_wheel =
  nw_time :: uint64
  nw_lists :: "wheel_slot \<Rightarrow> timer_list"
  nw_next :: node_heap
  nw_node :: "nat \<Rightarrow> timer_node"
  nw_frees :: 'f
  nw_allocated :: "nat set"

text \<open>
  What is a parameter: the free list \<open>F\<close>, with \<open>junk\<close>, the link and the contents that it leaves in the memory
  of a free node; \<open>alloc\<close>, the address that \<^verbatim>\<open>new\<close> gives; and the arbitrary contents \<open>next\<close> and \<open>node\<close> of memory
  that has not been written.
\<close>

definition node_wheel_init :: "('f, nat) free_ops \<Rightarrow> node_heap \<Rightarrow> (nat \<Rightarrow> timer_node) \<Rightarrow> 'f node_wheel" where
  "node_wheel_init F next node = \<lparr>nw_time = 0, nw_lists = (\<lambda>_. \<lparr>tl_first = None, tl_last = FirstOf\<rparr>), nw_next = next,
     nw_node = node, nw_frees = fl_empty F, nw_allocated = {}\<rparr>"

definition new_node :: "('f, nat) free_ops \<Rightarrow> (nat set \<Rightarrow> nat) \<Rightarrow> 'f node_wheel \<Rightarrow> nat \<times> 'f node_wheel" where
  "new_node F alloc w =
     (case fl_take F (nw_frees w) of
        (Some node, fs) \<Rightarrow> (node, w\<lparr>nw_frees := fs\<rparr>)
      | (None, fs) \<Rightarrow> (alloc (nw_allocated w), w\<lparr>nw_frees := fs, nw_allocated := insert (alloc (nw_allocated w)) (nw_allocated w)\<rparr>))"

definition free_node :: "('f, nat) free_ops \<Rightarrow> (nat \<Rightarrow> nat option \<times> timer_node) \<Rightarrow> nat \<Rightarrow> 'f node_wheel \<Rightarrow> 'f node_wheel" where
  "free_node F junk node w = w\<lparr>nw_frees := fl_push F node (nw_frees w), nw_next := (nw_next w)(node := fst (junk node)),
     nw_node := (nw_node w)(node := snd (junk node))\<rparr>"

text \<open>\<^verbatim>\<open>_list_append\<close> and \<^verbatim>\<open>_list_clear\<close> on an element of the arrays, whose bounds are checked.\<close>

definition slot_ok :: "wheel_slot \<Rightarrow> bool" where
  "slot_ok s = (case s of InLeast i \<Rightarrow> i < unat TIME_LEAST_VALUE | InLevel l i \<Rightarrow> l < TIME_LEVEL_COUNT \<and> i < unat TIME_LEVEL_VALUE - 1)"

definition slot_append :: "wheel_slot \<Rightarrow> nat \<Rightarrow> 'f node_wheel \<Rightarrow> timer_error + 'f node_wheel" where
  "slot_append s node w =
     (if slot_ok s
      then (case list_append node (nw_lists w s, nw_next w) of (l, h) \<Rightarrow> Inr (w\<lparr>nw_lists := (nw_lists w)(s := l), nw_next := h\<rparr>))
      else Inl OutOfRange)"

definition slot_clear :: "wheel_slot \<Rightarrow> 'f node_wheel \<Rightarrow> timer_error + (nat option \<times> 'f node_wheel)" where
  "slot_clear s w =
     (if slot_ok s
      then (case list_clear (nw_lists w s, nw_next w) of (p, l, h) \<Rightarrow> Inr (p, w\<lparr>nw_lists := (nw_lists w)(s := l), nw_next := h\<rparr>))
      else Inl OutOfRange)"

section \<open>Operations\<close>

text \<open>Walks along the links; \<open>None\<close> is a walk that does not end.\<close>

partial_function (option) send_nodes :: "('f, nat) free_ops \<Rightarrow> (nat \<Rightarrow> nat option \<times> timer_node) \<Rightarrow> nat option \<Rightarrow>
    'f node_wheel \<Rightarrow> (wakeup_call list \<times> 'f node_wheel) option" where
  "send_nodes F junk list w =
     (case list of
        None \<Rightarrow> Some ([], w)
      | Some node \<Rightarrow>
          (let list1 = nw_next w node;
               sent = timer_send (nw_node w node)
           in Option.bind (send_nodes F junk list1 (free_node F junk node w)) (\<lambda>(rest, w1). Some (sent # rest, w1))))"

text \<open>\<^verbatim>\<open>_queue\<close>: the list that the two times choose, by the loop over the levels, and the append.\<close>

function level_slot :: "uint64 \<Rightarrow> uint64 \<Rightarrow> nat \<Rightarrow> uint64 \<Rightarrow> timer_error + wheel_slot" where
  "level_slot time expire level exp2 =
     (let exp2 = push_bit TIME_LEVEL_SHIFT exp2;
          mask = exp2 - 1
      in if expire OR mask = time OR mask
         then (let shift = TIME_LEAST_SHIFT + level * TIME_LEVEL_SHIFT;
                   value = drop_bit shift expire AND TIME_LEVEL_MASK
               in Inr (InLevel level (unat (value - 1))))
         else if Suc level < TIME_LEVEL_COUNT then level_slot time expire (Suc level) exp2
         else Inl AssertLevel)"
  by pat_completeness auto
termination
  by (relation "measure (\<lambda>(_, _, level, _). TIME_LEVEL_COUNT - level)") auto

declare level_slot.simps [simp del]

definition queue_slot :: "uint64 \<Rightarrow> uint64 \<Rightarrow> timer_error + wheel_slot" where
  "queue_slot time expire =
     (if \<not> expire \<ge> time then Inl AssertExpire
      else if expire - time < TIME_LEAST_VALUE then Inr (InLeast (unat (expire AND TIME_LEAST_MASK)))
      else level_slot time expire 0 (push_bit TIME_LEAST_SHIFT 1))"

definition queue_node :: "nat \<Rightarrow> 'f node_wheel \<Rightarrow> timer_error + 'f node_wheel" where
  "queue_node node w =
     (case queue_slot (nw_time w) (node_expire (nw_node w node)) of Inl e \<Rightarrow> Inl e | Inr s \<Rightarrow> slot_append s node w)"

partial_function (option) queue_nodes :: "nat option \<Rightarrow> 'f node_wheel \<Rightarrow> (timer_error + 'f node_wheel) option" where
  "queue_nodes list w =
     (case list of
        None \<Rightarrow> Some (Inr w)
      | Some n \<Rightarrow>
          (let list1 = nw_next w n
           in case queue_node n w of Inl e \<Rightarrow> Some (Inl e) | Inr w1 \<Rightarrow> queue_nodes list1 w1))"

text \<open>\<^verbatim>\<open>_tick\<close>: the list of the lowest digit of the new time that is not zero, and the whole.\<close>

function tick_slot :: "uint64 \<Rightarrow> nat \<Rightarrow> timer_error + wheel_slot" where
  "tick_slot time level =
     (let value = time AND TIME_LEVEL_MASK
      in if value = 0
         then (if Suc level < TIME_LEVEL_COUNT then tick_slot (drop_bit TIME_LEVEL_SHIFT time) (Suc level) else Inl AssertLevel)
         else Inr (InLevel level (unat (value - 1))))"
  by pat_completeness auto
termination
  by (relation "measure (\<lambda>(_, level). TIME_LEVEL_COUNT - level)") auto

declare tick_slot.simps [simp del]

definition tick_nodes :: "('f, nat) free_ops \<Rightarrow> (nat \<Rightarrow> nat option \<times> timer_node) \<Rightarrow> 'f node_wheel \<Rightarrow>
    (timer_error + (wakeup_call list \<times> 'f node_wheel)) option" where
  "tick_nodes F junk w =
     (case slot_clear (InLeast (unat (nw_time w AND TIME_LEAST_MASK))) w of
        Inl e \<Rightarrow> Some (Inl e)
      | Inr (list, w1) \<Rightarrow>
          (case send_nodes F junk list w1 of
             None \<Rightarrow> None
           | Some (sent, w2) \<Rightarrow>
               (let time = nw_time w2 + 1;
                    w3 = w2\<lparr>nw_time := time\<rparr>
                in if time AND TIME_LEAST_MASK \<noteq> 0 then Some (Inr (sent, w3))
                   else if time = 0 then Some (Inl AssertTime)
                   else (case tick_slot (drop_bit TIME_LEAST_SHIFT time) 0 of
                           Inl e \<Rightarrow> Some (Inl e)
                         | Inr s \<Rightarrow>
                             (case slot_clear s w3 of
                                Inl e \<Rightarrow> Some (Inl e)
                              | Inr (list1, w4) \<Rightarrow> map_option (map_sum id (Pair sent)) (queue_nodes list1 w4))))))"

partial_function (option) update_nodes :: "('f, nat) free_ops \<Rightarrow> (nat \<Rightarrow> nat option \<times> timer_node) \<Rightarrow> 'f node_wheel \<Rightarrow> uint64 \<Rightarrow>
    (timer_error + (wakeup_call list \<times> 'f node_wheel)) option" where
  "update_nodes F junk w time =
     (if nw_time w < time
      then (case tick_nodes F junk w of
              None \<Rightarrow> None
            | Some (Inl e) \<Rightarrow> Some (Inl e)
            | Some (Inr (sent, w1)) \<Rightarrow>
                Option.bind (update_nodes F junk w1 time) (\<lambda>r. Some (map_sum id (\<lambda>(rest, w2). (sent @ rest, w2)) r)))
      else Some (Inr ([], w)))"

definition timeout_node :: "('f, nat) free_ops \<Rightarrow> (nat set \<Rightarrow> nat) \<Rightarrow> 'f node_wheel \<Rightarrow> process_t \<Rightarrow> session_t \<Rightarrow> uint64 \<Rightarrow>
    timer_error + 'f node_wheel" where
  "timeout_node F alloc w source session timeout =
     (case new_node F alloc w of (node, w1) \<Rightarrow>
        queue_node node (w1\<lparr>nw_node := (nw_node w1)(node := \<lparr>node_expire = nw_time w1 + timeout, node_source = pid_value source,
          node_session = sid_value session\<rparr>)\<rparr>))"

text \<open>The messages of the timer process, one after another.\<close>

fun run_nodes :: "('f, nat) free_ops \<Rightarrow> (nat set \<Rightarrow> nat) \<Rightarrow> (nat \<Rightarrow> nat option \<times> timer_node) \<Rightarrow> 'f node_wheel \<Rightarrow> service_msg list \<Rightarrow>
    (timer_error + (wakeup_call list \<times> 'f node_wheel)) option" where
  "run_nodes F alloc junk w [] = Some (Inr ([], w))"
| "run_nodes F alloc junk w (TimeoutRequest sender session timeout # ms) =
     (case timeout_node F alloc w sender session timeout of Inl e \<Rightarrow> Some (Inl e) | Inr w1 \<Rightarrow> run_nodes F alloc junk w1 ms)"
| "run_nodes F alloc junk w (UpdateMessage timestamp # ms) =
     (case update_nodes F junk w timestamp of
        None \<Rightarrow> None
      | Some (Inl e) \<Rightarrow> Some (Inl e)
      | Some (Inr (sent, w1)) \<Rightarrow> map_option (map_sum id (\<lambda>(rest, w2). (sent @ rest, w2))) (run_nodes F alloc junk w1 ms))"

section \<open>The wheel of values, by slots\<close>

definition timer_slot :: "timer \<Rightarrow> wheel_slot \<Rightarrow> timer_node list" where
  "timer_slot t s = (case s of InLeast i \<Rightarrow> timer_least t i | InLevel l i \<Rightarrow> timer_level t l i)"

definition put_slot :: "wheel_slot \<Rightarrow> timer_node list \<Rightarrow> timer \<Rightarrow> timer" where
  "put_slot s ns t =
     (case s of
        InLeast i \<Rightarrow> t\<lparr>timer_least := (timer_least t)(i := ns)\<rparr>
      | InLevel l i \<Rightarrow> t\<lparr>timer_level := (timer_level t)(l := (timer_level t l)(i := ns))\<rparr>)"

definition put_back :: "wheel_slot \<Rightarrow> timer_node \<Rightarrow> timer \<Rightarrow> timer_error + timer" where
  "put_back s node t = (if slot_ok s then Inr (put_slot s (timer_slot t s @ [node]) t) else Inl OutOfRange)"

definition take_out :: "wheel_slot \<Rightarrow> timer \<Rightarrow> timer_error + (timer_node list \<times> timer)" where
  "take_out s t = (if slot_ok s then Inr (timer_slot t s, put_slot s [] t) else Inl OutOfRange)"

lemma put_slot [simp]:
  "timer_time (put_slot s ns t) = timer_time t" "timer_slot (put_slot s ns t) = (timer_slot t)(s := ns)"
  "put_slot s ns (t\<lparr>timer_time := u\<rparr>) = put_slot s ns t\<lparr>timer_time := u\<rparr>"
  "timer_slot (t\<lparr>timer_time := u\<rparr>) = timer_slot t"
  by (auto simp: put_slot_def timer_slot_def fun_eq_iff split: wheel_slot.splits)

lemma slots_of_appends:
  "least_append i node t = put_back (InLeast i) node t" "level_append l i node t = put_back (InLevel l i) node t"
  "least_clear i t = take_out (InLeast i) t" "level_clear l i t = take_out (InLevel l i) t"
  by (simp_all add: least_append_def level_append_def least_clear_def level_clear_def put_back_def take_out_def
    put_slot_def timer_slot_def slot_ok_def)

lemma queue_level_slot:
  "queue_level t node level exp2 =
    (case level_slot (timer_time t) (node_expire node) level exp2 of Inl e \<Rightarrow> Inl e | Inr s \<Rightarrow> put_back s node t)"
proof (induction t node level exp2 rule: queue_level.induct)
  case (1 t node level exp2)
  show ?case
    unfolding queue_level.simps [of t node level exp2] level_slot.simps [of "timer_time t" "node_expire node" level exp2] Let_def
    using "1.IH" [OF refl refl refl refl] by (simp add: slots_of_appends)
qed

lemma wheel_queue_slot:
  "wheel_queue t node = (case queue_slot (timer_time t) (node_expire node) of Inl e \<Rightarrow> Inl e | Inr s \<Rightarrow> put_back s node t)"
  by (simp add: wheel_queue_def queue_slot_def Let_def slots_of_appends queue_level_slot)

lemma tick_level_slot:
  "tick_level t time level =
    (case tick_slot time level of
       Inl e \<Rightarrow> Inl e
     | Inr s \<Rightarrow> (case take_out s t of Inl e \<Rightarrow> Inl e | Inr (list, t1) \<Rightarrow> queue_list t1 list))"
proof (induction t time level rule: tick_level.induct)
  case (1 t time level)
  show ?case
    unfolding tick_level.simps [of t time level] tick_slot.simps [of time level] Let_def
    using "1.IH" [OF refl] by (simp add: slots_of_appends)
qed

section \<open>Who holds a node\<close>

lemma linked_cong: "(\<And>a. a \<in> set ns \<Longrightarrow> h a = h' a) \<Longrightarrow> linked h p ns = linked h' p ns"
  by (induction h p ns rule: linked.induct) auto

lemma list_rep_cong: "list_rep (l, h) ns \<Longrightarrow> (\<And>a. a \<in> set ns \<Longrightarrow> h' a = h a) \<Longrightarrow> list_rep (l, h') ns"
  using linked_cong [of ns h' h] by (simp add: list_rep_def)

lemma chain_cong: "chain h p ns \<Longrightarrow> (\<And>a. a \<in> set ns \<Longrightarrow> h' a = h a) \<Longrightarrow> chain h' p ns"
  by (induction ns arbitrary: p) auto

text \<open>
  \<open>nodes\<close> are the nodes of each list and \<open>held\<close> those of a detached chain. A node that has been allocated is
  in exactly one of these places or free.
\<close>

definition nodes_ok :: "('f \<Rightarrow> nat multiset) \<Rightarrow> 'f node_wheel \<Rightarrow> timer \<Rightarrow> (wheel_slot \<Rightarrow> nat list) \<Rightarrow> nat list \<Rightarrow> bool" where
  "nodes_ok items w t nodes held \<longleftrightarrow>
     nw_time w = timer_time t \<and>
     (\<forall>s. list_rep (nw_lists w s, nw_next w) (nodes s) \<and> timer_slot t s = map (nw_node w) (nodes s)) \<and>
     (\<forall>s a. a \<in> set (nodes s) \<longrightarrow> a \<notin> set held \<and> a \<notin># items (nw_frees w) \<and> (\<forall>s'. a \<in> set (nodes s') \<longrightarrow> s' = s)) \<and>
     distinct held \<and> (\<forall>a. a \<in> set held \<longrightarrow> a \<notin># items (nw_frees w)) \<and> (\<forall>a. count (items (nw_frees w)) a \<le> 1) \<and>
     finite (nw_allocated w) \<and> nw_allocated w = set_mset (items (nw_frees w)) \<union> set held \<union> (\<Union>s. set (nodes s))"

lemma nodes_okD:
  assumes "nodes_ok items w t nodes held"
  shows "nw_time w = timer_time t" "list_rep (nw_lists w s, nw_next w) (nodes s)" "timer_slot t s = map (nw_node w) (nodes s)"
    "a \<in> set (nodes s) \<Longrightarrow> a \<notin> set held \<and> a \<notin># items (nw_frees w) \<and> (\<forall>s'. a \<in> set (nodes s') \<longrightarrow> s' = s)"
    "distinct held" "a \<in> set held \<Longrightarrow> a \<notin># items (nw_frees w)" "count (items (nw_frees w)) a \<le> 1"
    "finite (nw_allocated w)" "nw_allocated w = set_mset (items (nw_frees w)) \<union> set held \<union> (\<Union>s. set (nodes s))"
  using assms unfolding nodes_ok_def by - (elim conjE; (assumption | fast))+

lemma nodes_okI:
  assumes "nw_time w = timer_time t" "\<And>s. list_rep (nw_lists w s, nw_next w) (nodes s)" "\<And>s. timer_slot t s = map (nw_node w) (nodes s)"
    and "\<And>s a. a \<in> set (nodes s) \<Longrightarrow> a \<notin> set held \<and> a \<notin># items (nw_frees w) \<and> (\<forall>s'. a \<in> set (nodes s') \<longrightarrow> s' = s)"
    and "distinct held" "\<And>a. a \<in> set held \<Longrightarrow> a \<notin># items (nw_frees w)" "\<And>a. count (items (nw_frees w)) a \<le> 1"
    and "finite (nw_allocated w)" "nw_allocated w = set_mset (items (nw_frees w)) \<union> set held \<union> (\<Union>s. set (nodes s))"
  shows "nodes_ok items w t nodes held"
  unfolding nodes_ok_def using assms by (intro conjI allI impI) (assumption | fast)+

lemma append_ok:
  assumes ok: "nodes_ok items w t nodes (n # held)" and s: "slot_ok s"
  shows "\<exists>w'. slot_append s n w = Inr w' \<and> nw_node w' = nw_node w \<and> (\<forall>a. a \<in> set held \<longrightarrow> nw_next w' a = nw_next w a) \<and>
    nodes_ok items w' (put_slot s (timer_slot t s @ [nw_node w n]) t) (nodes(s := nodes s @ [n])) held"
proof -
  note D = nodes_okD [OF ok]
  obtain l h where lh: "list_append n (nw_lists w s, nw_next w) = (l, h)" by fastforce
  let ?w = "w\<lparr>nw_lists := (nw_lists w)(s := l), nw_next := h\<rparr>"
  have n: "n \<notin> set (nodes s')" for s' using D(4) [of n s'] by auto
  have h: "h a = nw_next w a" if "a \<notin> set (nodes s)" for a
    using list_append_frame [OF D(2) that, of n] lh by simp
  have rep: "list_rep (l, h) (nodes s @ [n])" using list_rep_append [OF D(2) n] lh by metis
  have others: "list_rep (nw_lists w s', h) (nodes s')" if "s' \<noteq> s" for s'
    using D(2) by (rule list_rep_cong) (use D(4) h that in blast)
  have "nodes_ok items ?w (put_slot s (timer_slot t s @ [nw_node w n]) t) (nodes(s := nodes s @ [n])) held"
    unfolding nodes_ok_def
  proof (intro conjI allI impI)
    fix s'
    show "list_rep (nw_lists ?w s', nw_next ?w) ((nodes(s := nodes s @ [n])) s')" using rep others by simp
    show "timer_slot (put_slot s (timer_slot t s @ [nw_node w n]) t) s' = map (nw_node ?w) ((nodes(s := nodes s @ [n])) s')"
      using D(3) by simp
  next
    fix s' a assume a: "a \<in> set ((nodes(s := nodes s @ [n])) s')"
    show "a \<notin> set held" "a \<notin># items (nw_frees ?w)" using a D(4) [of a] D(5) D(6) [of n] by (auto split: if_splits)
    fix s'' assume "a \<in> set ((nodes(s := nodes s @ [n])) s'')"
    with a D(4) [of a] n show "s'' = s'" by (auto split: if_splits)
  next
    show "nw_allocated ?w = set_mset (items (nw_frees ?w)) \<union> set held \<union> (\<Union>s'. set ((nodes(s := nodes s @ [n])) s'))"
      using D(9) by (auto split: if_splits)
  qed (use D in auto)
  with s lh h D(4) show ?thesis by (intro exI [of _ ?w]) (auto simp: slot_append_def)
qed

lemma clear_ok:
  assumes ok: "nodes_ok items w t nodes []" and s: "slot_ok s"
  shows "\<exists>p w'. slot_clear s w = Inr (p, w') \<and> nw_node w' = nw_node w \<and> chain (nw_next w') p (nodes s) \<and>
    nodes_ok items w' (put_slot s [] t) (nodes(s := [])) (nodes s)"
proof -
  note D = nodes_okD [OF ok]
  obtain p l h where lh: "list_clear (nw_lists w s, nw_next w) = (p, l, h)" by (metis prod_cases3)
  let ?w = "w\<lparr>nw_lists := (nw_lists w)(s := l), nw_next := h\<rparr>"
  have c: "chain h p (nodes s)" "list_rep (l, h) []" "a \<notin> set (nodes s) \<Longrightarrow> h a = nw_next w a" for a
    using list_rep_clear [OF D(2) lh] by auto
  have others: "list_rep (nw_lists w s', h) (nodes s')" if "s' \<noteq> s" for s'
    using D(2) by (rule list_rep_cong) (use D(4) c(3) that in blast)
  have "nodes_ok items ?w (put_slot s [] t) (nodes(s := [])) (nodes s)"
    unfolding nodes_ok_def
  proof (intro conjI allI impI)
    fix s'
    show "list_rep (nw_lists ?w s', nw_next ?w) ((nodes(s := [])) s')" using c(2) others by simp
    show "timer_slot (put_slot s [] t) s' = map (nw_node ?w) ((nodes(s := [])) s')" using D(3) by simp
  next
    fix s' a assume a: "a \<in> set ((nodes(s := [])) s')"
    show "a \<notin> set (nodes s)" "a \<notin># items (nw_frees ?w)" using a D(4) [of a] by (auto split: if_splits)
    fix s'' assume "a \<in> set ((nodes(s := [])) s'')"
    with a D(4) [of a] show "s'' = s'" by (auto split: if_splits)
  next
    show "distinct (nodes s)" using D(2) [of s] by (simp add: list_rep_def)
  next
    show "nw_allocated ?w = set_mset (items (nw_frees ?w)) \<union> set (nodes s) \<union> (\<Union>s'. set ((nodes(s := [])) s'))"
      using D(9) by (auto split: if_splits)
  qed (use D in auto)
  with s lh c show ?thesis by (intro exI [of _ p] exI [of _ ?w]) (simp add: slot_clear_def)
qed

text \<open>A node in hand is written, given back, or taken from the free list or from \<^verbatim>\<open>new\<close>.\<close>

lemma write_ok:
  assumes ok: "nodes_ok items w t nodes (n # held)"
  shows "nodes_ok items (w\<lparr>nw_node := (nw_node w)(n := node)\<rparr>) t nodes (n # held)"
proof -
  note D = nodes_okD [OF ok]
  have "n \<notin> set (nodes s)" for s using D(4) [of n s] by auto
  then have m: "map ((nw_node w)(n := node)) (nodes s) = map (nw_node w) (nodes s)" for s by (intro map_cong) auto
  show ?thesis
  proof (rule nodes_okI)
    fix s
    show "timer_slot t s = map (nw_node (w\<lparr>nw_node := (nw_node w)(n := node)\<rparr>)) (nodes s)" using D(3) m by simp
    fix a assume a: "a \<in> set (nodes s)"
    show "a \<notin> set (n # held) \<and> a \<notin># items (nw_frees (w\<lparr>nw_node := (nw_node w)(n := node)\<rparr>)) \<and> (\<forall>s'. a \<in> set (nodes s') \<longrightarrow> s' = s)"
      using D(4) [OF a] by simp
  next
    show "a \<notin># items (nw_frees (w\<lparr>nw_node := (nw_node w)(n := node)\<rparr>))" if "a \<in> set (n # held)" for a
      using D(6) [OF that] by simp
  next
    show "nw_allocated (w\<lparr>nw_node := (nw_node w)(n := node)\<rparr>) =
        set_mset (items (nw_frees (w\<lparr>nw_node := (nw_node w)(n := node)\<rparr>))) \<union> set (n # held) \<union> (\<Union>s. set (nodes s))"
      using D(9) by simp
  qed (use D(1,2,5,7,8) in simp_all)
qed

lemma free_ok:
  assumes F: "free_list F items" and ok: "nodes_ok items w t nodes (n # held)"
  shows "nodes_ok items (free_node F junk n w) t nodes held"
proof -
  note D = nodes_okD [OF ok]
  let ?w = "free_node F junk n w"
  have n: "n \<notin> set (nodes s)" for s using D(4) [of n s] by auto
  have i: "items (nw_frees ?w) = add_mset n (items (nw_frees w))"
    using free_list.items_push [OF F] by (simp add: free_node_def)
  have c: "count (items (nw_frees w)) n = 0" using D(6) [of n] by (simp add: not_in_iff)
  show ?thesis
  proof (rule nodes_okI)
    show "nw_time ?w = timer_time t" "finite (nw_allocated ?w)" "distinct held" using D(1,5,8) by (simp_all add: free_node_def)
    show "count (items (nw_frees ?w)) a \<le> 1" for a using D(7) [of a] c i by (cases "n = a") simp_all
    show "a \<notin># items (nw_frees ?w)" if "a \<in> set held" for a
      using that D(5) D(6) [of a] i by auto
    show "nw_allocated ?w = set_mset (items (nw_frees ?w)) \<union> set held \<union> (\<Union>s. set (nodes s))"
      unfolding i using D(9) by (simp add: free_node_def)
    fix s
    show "list_rep (nw_lists ?w s, nw_next ?w) (nodes s)"
      unfolding free_node_def by simp (rule list_rep_cong [OF D(2)], use n [of s] in auto)
    show "timer_slot t s = map (nw_node ?w) (nodes s)"
      using n [of s] D(3) [of s] by (auto simp: free_node_def intro!: map_cong)
    fix a assume a: "a \<in> set (nodes s)"
    show "a \<notin> set held \<and> a \<notin># items (nw_frees ?w) \<and> (\<forall>s'. a \<in> set (nodes s') \<longrightarrow> s' = s)"
    proof -
      have "a \<noteq> n" using a n by blast
      then show ?thesis using D(4) [OF a] i by simp
    qed
  qed
qed

lemma new_ok:
  assumes F: "free_list F items" and A: "\<And>S. finite S \<Longrightarrow> alloc S \<notin> S"
    and ok: "nodes_ok items w t nodes []" and new: "new_node F alloc w = (n, w')"
  shows "nodes_ok items w' t nodes [n]"
proof -
  note D = nodes_okD [OF ok]
  obtain r fs where take: "fl_take F (nw_frees w) = (r, fs)" by fastforce
  show ?thesis
  proof (cases r)
    case None
    with take have fs: "items (nw_frees w) = {#}" "items fs = {#}" using free_list.items_take_none [OF F] by auto
    have n: "n = alloc (nw_allocated w)" and w': "w' = w\<lparr>nw_frees := fs, nw_allocated := insert n (nw_allocated w)\<rparr>"
      using new take None by (auto simp: new_node_def)
    have "n \<notin> nw_allocated w" using A [OF D(8)] n by simp
    then have "n \<notin> set (nodes s)" for s using D(9) by blast
    then show ?thesis using D fs by (auto simp: nodes_ok_def w')
  next
    case (Some m)
    with take have i: "items (nw_frees w) = add_mset n (items fs)" and w': "w' = w\<lparr>nw_frees := fs\<rparr>"
      using new free_list.items_take_some [OF F] by (auto simp: new_node_def)
    have le: "count (items fs) a \<le> 1" for a using D(7) [of a] i by (simp split: if_splits)
    have n: "n \<notin># items fs" using D(7) [of n] i by (simp add: not_in_iff)
    have "n \<in># items (nw_frees w)" using i by simp
    then have "n \<notin> set (nodes s)" for s using D(4) [of n s] by blast
    then show ?thesis using D i le n by (auto simp: nodes_ok_def w')
  qed
qed

section \<open>The operations refine the wheel\<close>

definition node_wheel_of :: "('f \<Rightarrow> nat multiset) \<Rightarrow> 'f node_wheel \<Rightarrow> timer \<Rightarrow> bool" where
  "node_wheel_of items w t \<longleftrightarrow> (\<exists>nodes. nodes_ok items w t nodes [])"

lemma send_nodes_ok:
  assumes F: "free_list F items"
  shows "nodes_ok items w t nodes ns \<Longrightarrow> chain (nw_next w) p ns \<Longrightarrow>
    \<exists>w'. send_nodes F junk p w = Some (send_list (map (nw_node w) ns), w') \<and> nodes_ok items w' t nodes []"
proof (induction ns arbitrary: w p)
  case Nil
  then show ?case by (simp add: send_nodes.simps)
next
  case (Cons n ns)
  let ?w = "free_node F junk n w"
  have p: "p = Some n" and c: "chain (nw_next w) (nw_next w n) ns" using Cons.prems(2) by simp_all
  have n: "n \<notin> set ns" using nodes_okD(5) [OF Cons.prems(1)] by simp
  have "chain (nw_next ?w) (nw_next w n) ns"
    using c by (rule chain_cong) (use n in \<open>auto simp: free_node_def\<close>)
  from Cons.IH [OF free_ok [OF F Cons.prems(1)] this] obtain w' where
    w': "send_nodes F junk (nw_next w n) ?w = Some (send_list (map (nw_node ?w) ns), w')" "nodes_ok items w' t nodes []" by blast
  have "map (nw_node ?w) ns = map (nw_node w) ns" using n by (intro map_cong) (auto simp: free_node_def)
  with w' p show ?case by (simp add: send_nodes.simps [of F junk "Some n"] Let_def)
qed

lemma queue_node_ok:
  assumes ok: "nodes_ok items w t nodes (n # held)"
  shows "rel_sum (=) (\<lambda>w' t'. nw_node w' = nw_node w \<and> (\<forall>a. a \<in> set held \<longrightarrow> nw_next w' a = nw_next w a) \<and>
    (\<exists>nodes'. nodes_ok items w' t' nodes' held)) (queue_node n w) (wheel_queue t (nw_node w n))"
proof (cases "queue_slot (timer_time t) (node_expire (nw_node w n))")
  case (Inl e)
  then show ?thesis using nodes_okD(1) [OF ok] by (simp add: queue_node_def wheel_queue_slot)
next
  case (Inr s)
  show ?thesis
  proof (cases "slot_ok s")
    case True
    from append_ok [OF ok True] Inr True nodes_okD(1) [OF ok] show ?thesis
      by (auto simp: queue_node_def wheel_queue_slot put_back_def)
  next
    case False
    with Inr nodes_okD(1) [OF ok] show ?thesis
      by (simp add: queue_node_def wheel_queue_slot put_back_def slot_append_def)
  qed
qed

lemma queue_nodes_ok:
  "nodes_ok items w t nodes ns \<Longrightarrow> chain (nw_next w) p ns \<Longrightarrow>
    \<exists>r. queue_nodes p w = Some r \<and> rel_sum (=) (node_wheel_of items) r (queue_list t (map (nw_node w) ns))"
proof (induction ns arbitrary: w t nodes p)
  case Nil
  then show ?case by (auto simp: queue_nodes.simps node_wheel_of_def)
next
  case (Cons n ns)
  have p: "p = Some n" and c: "chain (nw_next w) (nw_next w n) ns" using Cons.prems(2) by simp_all
  from queue_node_ok [OF Cons.prems(1)] consider
      e where "queue_node n w = Inl e" "wheel_queue t (nw_node w n) = Inl e"
    | w1 t1 nodes1 where "queue_node n w = Inr w1" "wheel_queue t (nw_node w n) = Inr t1" "nw_node w1 = nw_node w"
        "\<forall>a. a \<in> set ns \<longrightarrow> nw_next w1 a = nw_next w a" "nodes_ok items w1 t1 nodes1 ns"
    by (cases "queue_node n w"; cases "wheel_queue t (nw_node w n)") auto
  then show ?case
  proof cases
    case 1
    with p show ?thesis by (simp add: queue_nodes.simps [of "Some n"] Let_def)
  next
    case 2
    have "chain (nw_next w1) (nw_next w n) ns" using c by (rule chain_cong) (use 2(4) in blast)
    from Cons.IH [OF 2(5) this] 2(1-3) p show ?thesis
      by (simp add: queue_nodes.simps [of "Some n"] Let_def)
  qed
qed

lemma time_ok:
  assumes ok: "nodes_ok items w t nodes []"
  shows "nodes_ok items (w\<lparr>nw_time := u\<rparr>) (t\<lparr>timer_time := u\<rparr>) nodes []"
proof -
  note D = nodes_okD [OF ok]
  show ?thesis
  proof (rule nodes_okI)
    fix s a assume "a \<in> set (nodes s)"
    from D(4) [OF this] show "a \<notin> set [] \<and> a \<notin># items (nw_frees (w\<lparr>nw_time := u\<rparr>)) \<and> (\<forall>s'. a \<in> set (nodes s') \<longrightarrow> s' = s)"
      by simp
  next
    show "nw_allocated (w\<lparr>nw_time := u\<rparr>) = set_mset (items (nw_frees (w\<lparr>nw_time := u\<rparr>))) \<union> set [] \<union> (\<Union>s. set (nodes s))"
      using D(9) by simp
  qed (use D(2,3,7,8) in simp_all)
qed

text \<open>The list of a slot, detached and queued again.\<close>

lemma requeue_ok:
  assumes "nodes_ok items w t nodes []"
  shows "\<exists>r. (case slot_clear s w of Inl e \<Rightarrow> Some (Inl e) | Inr (list, w1) \<Rightarrow> map_option (map_sum id (Pair sent)) (queue_nodes list w1)) = Some r \<and>
    rel_sum (=) (rel_prod (=) (node_wheel_of items)) r
      (case (case take_out s t of Inl e \<Rightarrow> Inl e | Inr (list, t1) \<Rightarrow> queue_list t1 list) of Inl e \<Rightarrow> Inl e | Inr t3 \<Rightarrow> Inr (sent, t3))"
proof (cases "slot_ok s")
  case True
  from clear_ok [OF assms True] obtain p w1 where
    w1: "slot_clear s w = Inr (p, w1)" "nw_node w1 = nw_node w" "chain (nw_next w1) p (nodes s)"
      "nodes_ok items w1 (put_slot s [] t) (nodes(s := [])) (nodes s)" by blast
  from queue_nodes_ok [OF w1(4,3)] obtain r where
    r: "queue_nodes p w1 = Some r" "rel_sum (=) (node_wheel_of items) r (queue_list (put_slot s [] t) (map (nw_node w1) (nodes s)))" by blast
  have "map (nw_node w1) (nodes s) = timer_slot t s" using nodes_okD(3) [OF assms, of s] w1(2) by simp
  with r w1(1) True show ?thesis
    by (cases r; cases "queue_list (put_slot s [] t) (timer_slot t s)") (simp_all add: take_out_def)
next
  case False
  then show ?thesis by (simp add: slot_clear_def take_out_def)
qed

lemma tick_nodes_ok:
  assumes F: "free_list F items" and w: "node_wheel_of items w t"
  shows "\<exists>r. tick_nodes F junk w = Some r \<and> rel_sum (=) (rel_prod (=) (node_wheel_of items)) r (wheel_tick t)"
proof -
  obtain nodes where ok: "nodes_ok items w t nodes []" using w by (auto simp: node_wheel_of_def)
  let ?s = "InLeast (unat (timer_time t AND TIME_LEAST_MASK))" and ?t1 = "\<lambda>s. put_slot s [] t" and ?u = "timer_time t + 1"
  have time: "nw_time w = timer_time t" by (rule nodes_okD(1) [OF ok])
  show ?thesis
  proof (cases "slot_ok ?s")
    case False
    with time show ?thesis by (simp add: tick_nodes_def wheel_tick_def slots_of_appends slot_clear_def take_out_def)
  next
    case True
    from clear_ok [OF ok True] obtain p w1 where
      w1: "slot_clear ?s w = Inr (p, w1)" "nw_node w1 = nw_node w" "chain (nw_next w1) p (nodes ?s)"
        "nodes_ok items w1 (?t1 ?s) (nodes(?s := [])) (nodes ?s)" by blast
    from send_nodes_ok [OF F w1(4,3), of junk] obtain w2 where
      w2: "send_nodes F junk p w1 = Some (send_list (map (nw_node w1) (nodes ?s)), w2)" "nodes_ok items w2 (?t1 ?s) (nodes(?s := [])) []" by blast
    let ?sent = "send_list (timer_slot t ?s)" and ?w3 = "w2\<lparr>nw_time := ?u\<rparr>" and ?t2 = "?t1 ?s\<lparr>timer_time := ?u\<rparr>"
    have sent: "send_list (map (nw_node w1) (nodes ?s)) = ?sent" using nodes_okD(3) [OF ok, of ?s] w1(2) by simp
    have time2: "nw_time w2 = timer_time t" using nodes_okD(1) [OF w2(2)] by simp
    have ok3: "nodes_ok items ?w3 ?t2 (nodes(?s := [])) []" by (rule time_ok [OF w2(2)])
    then have rel3: "node_wheel_of items ?w3 ?t2" by (auto simp: node_wheel_of_def)
    have c: "tick_nodes F junk w =
        (if ?u AND TIME_LEAST_MASK \<noteq> 0 then Some (Inr (?sent, ?w3))
         else if ?u = 0 then Some (Inl AssertTime)
         else (case tick_slot (drop_bit TIME_LEAST_SHIFT ?u) 0 of
                 Inl e \<Rightarrow> Some (Inl e)
               | Inr s \<Rightarrow> (case slot_clear s ?w3 of Inl e \<Rightarrow> Some (Inl e)
                  | Inr (list1, w4) \<Rightarrow> map_option (map_sum id (Pair ?sent)) (queue_nodes list1 w4))))"
      using w1(1) w2(1) time time2 sent by (simp add: tick_nodes_def Let_def cong: sum.case_cong)
    have a: "wheel_tick t =
        (if ?u AND TIME_LEAST_MASK \<noteq> 0 then Inr (?sent, ?t2)
         else if ?u = 0 then Inl AssertTime
         else (case tick_slot (drop_bit TIME_LEAST_SHIFT ?u) 0 of
                 Inl e \<Rightarrow> Inl e
               | Inr s \<Rightarrow> (case (case take_out s ?t2 of Inl e \<Rightarrow> Inl e | Inr (list, t1) \<Rightarrow> queue_list t1 list) of
                    Inl e \<Rightarrow> Inl e | Inr t3 \<Rightarrow> Inr (?sent, t3))))"
      using True by (simp add: wheel_tick_def slots_of_appends take_out_def tick_level_slot Let_def split: sum.splits)
    show ?thesis
      unfolding c a using rel3 requeue_ok [OF ok3, where sent = ?sent] by (simp split: sum.split)
  qed
qed

lemma update_nodes_ok:
  assumes F: "free_list F items"
  shows "node_wheel_of items w t \<Longrightarrow>
    \<exists>r. update_nodes F junk w u = Some r \<and> rel_sum (=) (rel_prod (=) (node_wheel_of items)) r (wheel_update t u)"
proof (induction t u arbitrary: w rule: wheel_update.induct)
  case (1 t u)
  have time: "nw_time w = timer_time t" using "1.prems" by (auto simp: node_wheel_of_def dest: nodes_okD(1))
  show ?case
  proof (cases "timer_time t < u")
    case False
    with time "1.prems" show ?thesis
      by (simp add: update_nodes.simps [of F junk w] wheel_update.simps [of t])
  next
    case True
    from tick_nodes_ok [OF F "1.prems", of junk] consider
        e where "tick_nodes F junk w = Some (Inl e)" "wheel_tick t = Inl e"
      | sent w1 t1 where "tick_nodes F junk w = Some (Inr (sent, w1))" "wheel_tick t = Inr (sent, t1)" "node_wheel_of items w1 t1"
      by (auto elim!: rel_sum.cases)
    then show ?thesis
    proof cases
      case 1
      with True time show ?thesis by (simp add: update_nodes.simps [of F junk w] wheel_update.simps [of t])
    next
      case 2
      from "1.IH" [OF True 2(2) refl 2(3)] obtain r where
        r: "update_nodes F junk w1 u = Some r" "rel_sum (=) (rel_prod (=) (node_wheel_of items)) r (wheel_update t1 u)" by blast
      from r(2) 2(1,2) r(1) True time show ?thesis
        by (cases r; cases "wheel_update t1 u")
          (auto simp: update_nodes.simps [of F junk w] wheel_update.simps [of t])
    qed
  qed
qed

lemma timeout_node_ok:
  assumes F: "free_list F items" and A: "\<And>S. finite S \<Longrightarrow> alloc S \<notin> S" and w: "node_wheel_of items w t"
  shows "rel_sum (=) (node_wheel_of items) (timeout_node F alloc w source session d) (wheel_timeout t source session d)"
proof -
  obtain nodes where ok: "nodes_ok items w t nodes []" using w by (auto simp: node_wheel_of_def)
  obtain n w1 where n: "new_node F alloc w = (n, w1)" by fastforce
  let ?v = "\<lparr>node_expire = timer_time t + d, node_source = pid_value source, node_session = sid_value session\<rparr>"
  have ok1: "nodes_ok items w1 t nodes [n]" by (rule new_ok [OF F A ok n])
  then have "nw_time w1 = timer_time t" by (rule nodes_okD(1))
  then have r: "timeout_node F alloc w source session d = queue_node n (w1\<lparr>nw_node := (nw_node w1)(n := ?v)\<rparr>)"
    using n by (simp add: timeout_node_def)
  from queue_node_ok [OF write_ok [OF ok1, of ?v]] show ?thesis
    unfolding r wheel_timeout_def
    by (auto simp: node_wheel_of_def elim!: rel_sum.cases intro!: rel_sum.intros)
qed

lemma run_nodes_ok:
  assumes F: "free_list F items" and A: "\<And>S. finite S \<Longrightarrow> alloc S \<notin> S"
  shows "node_wheel_of items w t \<Longrightarrow>
    \<exists>r. run_nodes F alloc junk w ms = Some r \<and>
      rel_sum (=) (rel_prod (=) (node_wheel_of items)) r (service_run wheel_timeout wheel_update t ms)"
proof (induction ms arbitrary: w t)
  case (Cons m ms)
  show ?case
  proof (cases m)
    case (TimeoutRequest sender session d)
    from timeout_node_ok [OF F A Cons.prems, of sender session d] consider
        e where "timeout_node F alloc w sender session d = Inl e" "wheel_timeout t sender session d = Inl e"
      | w1 t1 where "timeout_node F alloc w sender session d = Inr w1" "wheel_timeout t sender session d = Inr t1" "node_wheel_of items w1 t1"
      by (auto elim!: rel_sum.cases)
    then show ?thesis
    proof cases
      case 1
      then show ?thesis using TimeoutRequest by simp
    next
      case 2
      from Cons.IH [OF 2(3)] obtain r where
        r: "run_nodes F alloc junk w1 ms = Some r" "rel_sum (=) (rel_prod (=) (node_wheel_of items)) r (service_run wheel_timeout wheel_update t1 ms)" by blast
      from r(2) 2(1,2) r(1) show ?thesis
        by (cases r; cases "service_run wheel_timeout wheel_update t1 ms") (auto simp: TimeoutRequest)
    qed
  next
    case (UpdateMessage u)
    from update_nodes_ok [OF F Cons.prems, of junk u] consider
        e where "update_nodes F junk w u = Some (Inl e)" "wheel_update t u = Inl e"
      | sent w1 t1 where "update_nodes F junk w u = Some (Inr (sent, w1))" "wheel_update t u = Inr (sent, t1)" "node_wheel_of items w1 t1"
      by (auto elim!: rel_sum.cases)
    then show ?thesis
    proof cases
      case 1
      then show ?thesis using UpdateMessage by simp
    next
      case 2
      from Cons.IH [OF 2(3)] obtain r where
        r: "run_nodes F alloc junk w1 ms = Some r" "rel_sum (=) (rel_prod (=) (node_wheel_of items)) r (service_run wheel_timeout wheel_update t1 ms)" by blast
      from r(2) 2(1,2) r(1) show ?thesis
        by (cases r; cases "service_run wheel_timeout wheel_update t1 ms") (auto simp: UpdateMessage)
    qed
  qed
qed simp

section \<open>The timer process and its memory\<close>

lemma node_wheel_starts: "free_list F items \<Longrightarrow> node_wheel_of items (node_wheel_init F next node) timer_init"
  unfolding node_wheel_of_def
  by (intro exI [of _ "\<lambda>_. []"])
    (simp add: nodes_ok_def node_wheel_init_def timer_init_def list_rep_def timer_slot_def free_list.items_empty split: wheel_slot.split)

text \<open>C15
  The timer with its nodes refines the wheel of values. Over any sequence of requests and updates, whatever is in the
  memory at the start and whatever the free list leaves in the memory of a free node, each walk along
  the links ends; the timer process fails the assertions that the wheel fails, or sends the same
  responses in the same order. Then the lists hold the timers of the wheel, the fields of a node being what was
  asked for, and every node that was ever allocated is either in exactly one list, once, or free, once.\<close>

theorem timer_nodes_refine:
  assumes "free_list F items" "\<And>S. finite S \<Longrightarrow> alloc S \<notin> S"
  shows "\<exists>r. run_nodes F alloc junk (node_wheel_init F next node) ms = Some r \<and>
    (case (r, timer_main ms) of
       (Inl e, Inl e') \<Rightarrow> e = e'
     | (Inr (sent, w), Inr (sent', t)) \<Rightarrow> sent = sent' \<and> nw_time w = timer_time t \<and>
         (\<exists>nodes. (\<forall>s. list_rep (nw_lists w s, nw_next w) (nodes s) \<and> timer_slot t s = map (nw_node w) (nodes s)) \<and>
            (\<forall>s s' a. a \<in> set (nodes s) \<and> a \<in> set (nodes s') \<longrightarrow> s = s') \<and>
            nw_allocated w = set_mset (items (nw_frees w)) \<union> (\<Union>s. set (nodes s)) \<and>
            set_mset (items (nw_frees w)) \<inter> (\<Union>s. set (nodes s)) = {} \<and> (\<forall>a. count (items (nw_frees w)) a \<le> 1))
     | _ \<Rightarrow> False)"
proof -
  from run_nodes_ok [OF assms node_wheel_starts [OF assms(1)], of junk "next" node ms] obtain r where
    r: "run_nodes F alloc junk (node_wheel_init F next node) ms = Some r"
      "rel_sum (=) (rel_prod (=) (node_wheel_of items)) r (timer_main ms)" by (auto simp: timer_main_def)
  have memory: "nw_time w = timer_time t \<and>
      (\<exists>nodes. (\<forall>s. list_rep (nw_lists w s, nw_next w) (nodes s) \<and> timer_slot t s = map (nw_node w) (nodes s)) \<and>
        (\<forall>s s' a. a \<in> set (nodes s) \<and> a \<in> set (nodes s') \<longrightarrow> s = s') \<and>
        nw_allocated w = set_mset (items (nw_frees w)) \<union> (\<Union>s. set (nodes s)) \<and>
        set_mset (items (nw_frees w)) \<inter> (\<Union>s. set (nodes s)) = {} \<and> (\<forall>a. count (items (nw_frees w)) a \<le> 1))"
    if "node_wheel_of items w t" for w t
  proof -
    from that obtain nodes where "nodes_ok items w t nodes []" by (auto simp: node_wheel_of_def)
    note D = nodes_okD [OF this]
    show ?thesis
    proof (intro conjI exI [of _ nodes] allI impI)
      show "nw_allocated w = set_mset (items (nw_frees w)) \<union> (\<Union>s. set (nodes s))" using D(9) by simp
      show "set_mset (items (nw_frees w)) \<inter> (\<Union>s. set (nodes s)) = {}" using D(4) by blast
      show "s = s'" if "a \<in> set (nodes s) \<and> a \<in> set (nodes s')" for s s' a using D(4) that by blast
    qed (fact D(1,2,3,7))+
  qed
  show ?thesis
  proof (cases r)
    case (Inl e)
    with r show ?thesis by (cases "timer_main ms") auto
  next
    case (Inr x)
    then obtain sent w t where c: "r = Inr (sent, w)" "timer_main ms = Inr (sent, t)" "node_wheel_of items w t"
      using r(2) by (cases x; cases "timer_main ms") auto
    from memory [OF c(3)] r(1) c(1,2) show ?thesis by (simp only: option.inject simp_thms ex_simps prod.case sum.case)
  qed
qed

lemma sends_like:
  assumes "\<exists>r. run = Some r \<and> (case (r, main) of (Inl e, Inl e') \<Rightarrow> e = e'
      | (Inr (sent, w), Inr (sent', t)) \<Rightarrow> sent = sent' \<and> rel w t | _ \<Rightarrow> False)"
    and "main = Inr (calls, t)"
  shows "\<exists>w. run = Some (Inr (calls, w))"
proof -
  obtain r where r: "run = Some r" "case (r, main) of (Inl e, Inl e') \<Rightarrow> e = e'
      | (Inr (sent, w), Inr (sent', t)) \<Rightarrow> sent = sent' \<and> rel w t | _ \<Rightarrow> False" using assms(1) by blast
  with assms(2) show ?thesis by (cases r) auto
qed

theorem timer_nodes_refine_witness:
  "\<exists>w. run_nodes link_ops (\<lambda>S. if S = {} then 1 else Suc (Max S)) (\<lambda>_. (Some 3, \<lparr>node_expire = 0, node_source = 0, node_session = 0\<rparr>))
      (node_wheel_init link_ops (\<lambda>_. Some 5) (\<lambda>_. \<lparr>node_expire = 7, node_source = 0, node_session = 0\<rparr>))
      [TimeoutRequest (process_t 1) (session_t 5) 2, UpdateMessage 3, TimeoutRequest (process_t 2) (session_t 6) 9] =
    Some (Inr ([(process_t 1, session_t 5)], w))"
proof -
  let ?ms = "[TimeoutRequest (process_t 1) (session_t 5) 2, UpdateMessage 3, TimeoutRequest (process_t 2) (session_t 6) 9]"
  have fresh: "(if S = {} then 1 else Suc (Max S)) \<notin> S" if "finite S" for S :: "nat set"
    using Max_ge [OF that, of "Suc (Max S)"] by auto
  obtain t where t: "timer_main ?ms = Inr ([(process_t 1, session_t 5)], t)"
    using timer_exact [of ?ms] by auto
  show ?thesis
    by (rule sends_like [OF timer_nodes_refine [OF stack_links.free_list_axioms fresh] t])
qed

end
