(* ===== verification/Coroutine_Api.thy ===== *)
theory Coroutine_Api
  imports Sleep Handlers
begin

text \<open>
  The functions of \<^verbatim>\<open>namespace coroutine\<close>, and those of \<^verbatim>\<open>namespace process\<close> that only forward to
  the running process (\<^verbatim>\<open>src/process.cpp\<close>), over the runtime. The thread gives the process and the
  coroutine that run; without one the pointer that \<^verbatim>\<open>current\<close> returns is null.
\<close>

section \<open>Forwarding\<close>

text \<open>
  A failed assertion and the use of a null pointer end the program. The inner \<open>None\<close> is the use of a
  process that has been freed.
\<close>

datatype api_error = AssertProcess | AssertCoroutine | NullProcess

definition in_process :: "api_error \<Rightarrow> thread \<Rightarrow> (addr \<Rightarrow> co \<Rightarrow> ('v, 'l, 'i, 'h) process \<Rightarrow> 'r \<times> ('v, 'l, 'i, 'h) process) \<Rightarrow>
    ('v, 'l, 'i, 'h) runtime \<Rightarrow> (api_error + 'r \<times> ('v, 'l, 'i, 'h) runtime) option" where
  "in_process missing cur f s =
     (case cur of
        None \<Rightarrow> Some (Inl missing)
      | Some (running, co) \<Rightarrow>
          (case rt_procs s running of
             None \<Rightarrow> None
           | Some q \<Rightarrow> (case f running co q of (r, q1) \<Rightarrow> Some (Inr (r, s\<lparr>rt_procs := (rt_procs s)(running \<mapsto> q1)\<rparr>)))))"

text \<open>\<^verbatim>\<open>namespace process\<close>: the registration of handlers, the environment and the sessions.\<close>

definition api_callback :: "thread \<Rightarrow> type_index \<Rightarrow> 'h \<Rightarrow> ('v, 'l, 'i, 'h) runtime \<Rightarrow> (api_error + unit \<times> ('v, 'l, 'i, 'h) runtime) option" where
  "api_callback cur type handler = in_process NullProcess cur (\<lambda>_ _ q. ((), message_callback type handler q))"

definition api_coroutine :: "thread \<Rightarrow> type_index \<Rightarrow> 'h \<Rightarrow> nat \<Rightarrow> ('v, 'l, 'i, 'h) runtime \<Rightarrow>
    (api_error + unit \<times> ('v, 'l, 'i, 'h) runtime) option" where
  "api_coroutine cur type handler addstack = in_process NullProcess cur (\<lambda>_ _ q. ((), message_coroutine type handler addstack q))"

definition api_get :: "thread \<Rightarrow> nat \<Rightarrow> ('v, 'l, 'i, 'h) runtime \<Rightarrow> (api_error + 'v any \<times> ('v, 'l, 'i, 'h) runtime) option" where
  "api_get cur name = in_process NullProcess cur (\<lambda>_ _ q. (env_get name q, q))"

definition api_set :: "thread \<Rightarrow> nat \<Rightarrow> 'v any \<Rightarrow> ('v, 'l, 'i, 'h) runtime \<Rightarrow> (api_error + 'v any \<times> ('v, 'l, 'i, 'h) runtime) option" where
  "api_set cur name value = in_process NullProcess cur (\<lambda>_ _ q. env_set name value q)"

definition api_new_session :: "'i alloc_ops \<Rightarrow> thread \<Rightarrow> ('v, 'l, 'i, 'h) runtime \<Rightarrow> (api_error + session_t \<times> ('v, 'l, 'i, 'h) runtime) option" where
  "api_new_session I cur = in_process NullProcess cur (\<lambda>_ _ q. proc_new_session I q)"

definition api_release_session :: "'i alloc_ops \<Rightarrow> thread \<Rightarrow> session_t \<Rightarrow> ('v, 'l, 'i, 'h) runtime \<Rightarrow>
    (api_error + unit \<times> ('v, 'l, 'i, 'h) runtime) option" where
  "api_release_session I cur session = in_process NullProcess cur (\<lambda>_ _ q. ((), proc_release_session I session q))"

text \<open>\<^verbatim>\<open>namespace coroutine\<close>; \<open>new\<close> is the address of the coroutine that is created.\<close>

definition co_spawn :: "thread \<Rightarrow> co \<Rightarrow> ('v, 'l, 'i, 'h) runtime \<Rightarrow> (api_error + co \<times> ('v, 'l, 'i, 'h) runtime) option" where
  "co_spawn cur new = in_process AssertProcess cur (\<lambda>_ _ q. (new, proc_spawn new q))"

definition co_self :: "thread \<Rightarrow> co option" where
  "co_self cur = map_option snd cur"

definition co_wakeup :: "thread \<Rightarrow> co \<Rightarrow> ('v, 'l, 'i, 'h) runtime \<Rightarrow> (api_error + unit \<times> ('v, 'l, 'i, 'h) runtime) option" where
  "co_wakeup cur co = in_process NullProcess cur (\<lambda>_ _ q. ((), proc_wakeup co q))"

text \<open>Those that wait, up to the switch. What they return is what the coroutine is resumed with.\<close>

definition co_suspend :: "thread \<Rightarrow> ('v, 'l, 'i, 'h) runtime \<Rightarrow> (api_error + unit \<times> ('v, 'l, 'i, 'h) runtime) option" where
  "co_suspend cur = in_process NullProcess cur (\<lambda>_ co q. ((), proc_suspend co q))"

definition co_block :: "thread \<Rightarrow> session_t \<Rightarrow> ('v, 'l, 'i, 'h) runtime \<Rightarrow> (api_error + unit \<times> ('v, 'l, 'i, 'h) runtime) option" where
  "co_block cur session = in_process NullProcess cur (\<lambda>_ co q. ((), proc_block session co q))"

text \<open>
  \<^verbatim>\<open>yield\<close> puts the process in the queue when its push does; the handle of its session goes out of scope
  after the switch.
\<close>

definition co_yield :: "('l, 'v message) append_ops \<Rightarrow> 'i alloc_ops \<Rightarrow> thread \<Rightarrow> ('v, 'l, 'i, 'h) runtime \<Rightarrow>
    (api_error + unit \<times> ('v, 'l, 'i, 'h) runtime) option" where
  "co_yield A I cur s =
     (case cur of
        None \<Rightarrow> Some (Inl AssertProcess)
      | Some (running, co) \<Rightarrow>
          (case rt_procs s running of
             None \<Rightarrow> None
           | Some q \<Rightarrow>
               (case proc_yield A I co q of (wait, q1) \<Rightarrow>
                  (let s1 = s\<lparr>rt_procs := (rt_procs s)(running \<mapsto> q1)\<rparr>
                   in map_option (\<lambda>s2. Inr ((), s2)) (if wait then rt_sched_resume running s1 else Some s1)))))"

definition co_yield_end :: "'i alloc_ops \<Rightarrow> addr \<Rightarrow> session_t \<Rightarrow> ('v, 'l, 'i, 'h) runtime \<Rightarrow> ('v, 'l, 'i, 'h) runtime option" where
  "co_yield_end I running session = with_proc running (\<lambda>q. if sid_set session then proc_release_session I session q else q)"

text \<open>\<^verbatim>\<open>exit\<close> leaves the coroutine by an exception.\<close>

definition co_exit :: "thread \<Rightarrow> api_error + exn" where
  "co_exit cur = (case cur of None \<Rightarrow> Inl AssertCoroutine | Some _ \<Rightarrow> Inr CoroutineExit)"

text \<open>
  \<^verbatim>\<open>timeout\<close> spawns a coroutine; its body is \<open>timeout_begin\<close> up to the switch in \<^verbatim>\<open>sleep\<close>, and
  \<open>timeout_end\<close> after it: an exception that \<^verbatim>\<open>sleep\<close> throws leaves the body before \<^verbatim>\<open>func\<close> is called.
\<close>

definition co_timeout :: "thread \<Rightarrow> co \<Rightarrow> ('v, 'l, 'i, 'h) runtime \<Rightarrow> (api_error + unit \<times> ('v, 'l, 'i, 'h) runtime) option" where
  "co_timeout cur new s = map_option (map_sum id (\<lambda>(_, s1). ((), s1))) (co_spawn cur new s)"

definition timeout_begin :: "('l, 'a timed message) append_ops \<Rightarrow> 'i alloc_ops \<Rightarrow> process_t \<Rightarrow> addr \<Rightarrow> co \<Rightarrow> uint64 \<Rightarrow>
    ('a timed, 'l, 'i, 'h) runtime \<Rightarrow> ((exn + session_t \<times> addr) \<times> ('a timed, 'l, 'i, 'h) runtime) option" where
  "timeout_begin A I service running new msecs = sleep_begin A I service (Some (running, new)) msecs"

definition timeout_end :: "('l, 'a timed message) append_ops \<Rightarrow> 'i alloc_ops \<Rightarrow> addr \<Rightarrow> session_t \<Rightarrow> addr \<Rightarrow>
    (exn + 'a timed any) \<Rightarrow> (('a timed, 'l, 'i, 'h) runtime \<Rightarrow> (exn option \<times> ('a timed, 'l, 'i, 'h) runtime) option option) \<Rightarrow>
    ('a timed, 'l, 'i, 'h) runtime \<Rightarrow> (exn option \<times> ('a timed, 'l, 'i, 'h) runtime) option option" where
  "timeout_end A I running session p slept func s =
     (case request_end A I running session p s of
        None \<Rightarrow> None
      | Some None \<Rightarrow> Some None
      | Some (Some s1) \<Rightarrow> (case slept of Inl e \<Rightarrow> Some (Some (Some e, s1)) | Inr _ \<Rightarrow> func s1))"

text \<open>The calls that do not wait keep the middle of a turn, and the environment keeps what it is given.\<close>

lemma api_calls_keep:
  fixes s :: "('v, 'l, 'i, 'h) runtime"
  assumes "append_list A (\<lambda>_ _. True) rep" "mid_turn rep running co H s" "rt_procs s running = Some q"
  shows "\<exists>t. api_callback (Some (running, co)) type h s = Some (Inr ((), t)) \<and> mid_turn rep running co H t"
    and "\<exists>t. api_coroutine (Some (running, co)) type h addstack s = Some (Inr ((), t)) \<and> mid_turn rep running co H t"
    and "\<exists>t. api_set (Some (running, co)) name value s = Some (Inr (fst (env_set name value q), t)) \<and> mid_turn rep running co H t \<and>
      (\<exists>u. api_get (Some (running, co)) name t = Some (Inr (value, u)))"
    and "\<exists>session t. api_new_session I (Some (running, co)) s = Some (Inr (session, t)) \<and> mid_turn rep running co H t"
    and "\<exists>t. api_release_session I (Some (running, co)) session s = Some (Inr ((), t)) \<and> mid_turn rep running co H t"
    and "\<exists>t. co_wakeup (Some (running, co)) c s = Some (Inr ((), t)) \<and> mid_turn rep running co H t"
    and "p_cos q new = None \<Longrightarrow> \<exists>t. co_spawn (Some (running, co)) new s = Some (Inr (new, t)) \<and> mid_turn rep running co H t"
proof -
  note keep = mid_turn_api [OF assms, where I = I]
  note calls = api_callback_def api_coroutine_def api_set_def api_get_def api_new_session_def api_release_session_def
    co_wakeup_def co_spawn_def in_process_def
  show "\<exists>t. api_callback (Some (running, co)) type h s = Some (Inr ((), t)) \<and> mid_turn rep running co H t"
    using keep [OF api_callback] assms(3) by (simp add: calls)
  show "\<exists>t. api_coroutine (Some (running, co)) type h addstack s = Some (Inr ((), t)) \<and> mid_turn rep running co H t"
    using keep [OF api_coroutine] assms(3) by (simp add: calls)
  show "\<exists>t. api_release_session I (Some (running, co)) session s = Some (Inr ((), t)) \<and> mid_turn rep running co H t"
    using keep [OF api_release_session] assms(3) by (simp add: calls)
  show "\<exists>t. co_wakeup (Some (running, co)) c s = Some (Inr ((), t)) \<and> mid_turn rep running co H t"
    using keep [OF api_wakeup] assms(3) by (simp add: calls)
  show "\<exists>session t. api_new_session I (Some (running, co)) s = Some (Inr (session, t)) \<and> mid_turn rep running co H t"
    using keep [OF api_new_session] assms(3) by (cases "proc_new_session I q") (simp add: calls)
  show "p_cos q new = None \<Longrightarrow> \<exists>t. co_spawn (Some (running, co)) new s = Some (Inr (new, t)) \<and> mid_turn rep running co H t"
    using keep [OF api_spawn] assms(3) by (simp add: calls)
  have "env_get name (snd (env_set name value q)) = value" by (simp add: env_get_def env_set_def update_conv')
  then show "\<exists>t. api_set (Some (running, co)) name value s = Some (Inr (fst (env_set name value q), t)) \<and> mid_turn rep running co H t \<and>
      (\<exists>u. api_get (Some (running, co)) name t = Some (Inr (value, u)))"
    using keep [OF api_env, of name "value"] assms(3) by (cases "env_set name value q") (simp add: calls)
qed

section \<open>Yielding\<close>

lemma yield_blocks:
  assumes A: "append_list A (\<lambda>_ _. True) rep" and new: "proc_new_session I q = (session, q1)"
    and idle: "\<not> mb_wait (p_mailbox q)"
  shows "proc_yield A I co q = (False, proc_block session co (pushed A (message_create (process_t 0) (sessionForResponse session) EmptyAny) q1))"
proof -
  have "p_mailbox q1 = p_mailbox q" using same_mail(10) [of I q] new by simp
  with idle new show ?thesis
    by (cases "p_mailbox q")
      (simp add: proc_yield_def proc_push_def mailbox_push_def push_append_def push_notify_def pushed_def Let_def)
qed

text \<open>C7
  \<^verbatim>\<open>yield\<close> comes back. It leaves the coroutine waiting on a new session, and the response to that
  session, from no process, behind all that is in the mailbox of the process; the process is otherwise as
  before and its turn goes on. When that message is delivered, and the coroutine has not been interrupted
  meanwhile, whatever else has happened to the process, the coroutine becomes ready, last of
  those that are, and \<^verbatim>\<open>yield\<close> returns normally. Out of a process the assertion fails.\<close>

theorem yield_comes_back:
  fixes s :: "('v, 'l, 'i, 'h) runtime"
  assumes "append_list A (\<lambda>_ _. True) rep" "mid_turn rep running co H s" "rt_procs s running = Some q"
    and "proc_new_session I q = (session, q1)" "session \<notin> fst ` set (p_block q)" "0 < sint (sid_value session)"
  shows "co_yield A I None s = Some (Inl AssertProcess) \<and>
    (\<exists>m q'. m = message_create (process_t 0) (sessionForResponse session) EmptyAny \<and>
      co_yield A I (Some (running, co)) s = Some (Inr ((), s\<lparr>rt_procs := (rt_procs s)(running \<mapsto> q')\<rparr>)) \<and>
      rt_inv rep between {#running#} (add_mset running H) (s\<lparr>rt_procs := (rt_procs s)(running \<mapsto> q')\<rparr>) \<and>
      map_of (p_block q') = (map_of (p_block q))(session \<mapsto> co) \<and>
      (\<forall>ws. rep (mb_write (p_mailbox q)) ws \<longrightarrow> rep (mb_write (p_mailbox q')) (ws @ [m])) \<and>
      (\<forall>p c seg. wf_owned {#} p \<and> (session, co) \<in> set (p_block p) \<and> p_cos p co = Some c \<and> co_exception c = None \<longrightarrow>
        (\<exists>p' c'. proc_deliver seg m p = Some (Normal (kResume, p')) \<and> p_wakeup p' = p_wakeup p @ [co] \<and>
          p_cos p' co = Some c' \<and> fst (get_result c') = Inr EmptyAny)))"
proof -
  let ?m = "message_create (process_t 0) (sessionForResponse session) EmptyAny"
  let ?q = "proc_block session co (pushed A ?m q1)"
  have q1: "p_pid q1 = p_pid q" "p_mailbox q1 = p_mailbox q" "same_tables q q1"
    using same_mail(9,10) [of I q] same_tables_ops(1) [of q I] assms(4) by simp_all
  from mid_turn_process [OF assms(2)] assms(3) have q: "wf_owned {#co#} q" "\<not> mb_wait (p_mailbox q)" "idle_empty rep q" by auto
  have push: "same_tables q1 (pushed A ?m q1)" by (simp add: same_tables_def pushed_def)
  have wf: "wf_owned {#co#} (pushed A ?m q1)" using same_tables_wf [OF push same_tables_wf [OF q1(3) q(1)]] .
  have block: "p_block (pushed A ?m q1) = p_block q" using q1(3) push by (simp add: same_tables_def)
  then have "wf_owned {#} ?q" using wf assms(5) by (intro wf_block) simp_all
  moreover have "\<not> mb_wait (p_mailbox ?q)" by (simp add: same_mail pushed_def)
  moreover have rep: "rep (mb_write (p_mailbox q)) ws \<Longrightarrow> rep (mb_write (p_mailbox ?q)) (ws @ [?m])" for ws
    using append_list.rep_push [OF assms(1)] q1(2) by (simp add: same_mail pushed_def)
  moreover have "idle_empty rep ?q"
    using q(3) q1(2) rep by (auto simp: idle_empty_def boxed_def same_mail pushed_def)
  ultimately have "rt_inv rep (between(running := {#})) {#running#} (add_mset running H) (s\<lparr>rt_procs := (rt_procs s)(running \<mapsto> ?q)\<rparr>)"
    using q1(1) by (intro mid_turn_local [OF assms(2,3)]) (simp_all add: same_mail pushed_def)
  moreover have "co_yield A I (Some (running, co)) s = Some (Inr ((), s\<lparr>rt_procs := (rt_procs s)(running \<mapsto> ?q)\<rparr>))"
    using assms(3) yield_blocks [OF assms(1,4) q(2)] by (simp add: co_yield_def Let_def)
  moreover have "map_of (p_block ?q) = (map_of (p_block q))(session \<mapsto> co)"
    using block by (simp add: proc_block_def update_conv')
  moreover have "\<exists>p' c'. proc_deliver seg ?m p = Some (Normal (kResume, p')) \<and> p_wakeup p' = p_wakeup p @ [co] \<and>
      p_cos p' co = Some c' \<and> fst (get_result c') = Inr EmptyAny"
    if "wf_owned {#} p" "(session, co) \<in> set (p_block p)" "p_cos p co = Some c" "co_exception c = None" for p c seg
    using answer_resumes [OF that assms(6)] by blast
  ultimately show ?thesis
    using rep by (intro conjI exI [of _ ?m] exI [of _ ?q]) (auto simp: co_yield_def)
qed

theorem yield_comes_back_witness:
  "\<exists>(s :: (nat, nat message list, nat, nat) runtime) t q'. mid_turn (\<lambda>l ms. l = ms) 7 3 {#} s \<and>
    co_yield queue_ops small_ops (Some (7, 3)) s = Some (Inr ((), t)) \<and>
    rt_procs t 7 = Some q' \<and> map_of (p_block q') (session_t 1) = Some 3"
proof -
  from small_mid_turn obtain s :: "(nat, nat message list, nat, nat) runtime" and q where
    s: "mid_turn (\<lambda>l ms. l = ms) 7 3 {#} s" "rt_procs s 7 = Some q" "p_block q = []" "p_sessions q = 0" by blast
  obtain q1 where n: "proc_new_session small_ops q = (session_t 1, q1)"
    using s(4) by (simp add: proc_new_session_def small_ops_def)
  have e: "session_t 1 \<notin> fst ` set (p_block q)" "0 < sint (sid_value (session_t 1))" using s(3) by simp_all
  from yield_comes_back [OF queue_append_list s(1,2) n e] s(1) show ?thesis by fastforce
qed

end
