(* ===== verification/Kqueue.thy ===== *)
theory Kqueue
  imports Fd_Poll
begin

text \<open>
  The other implementation of descriptor polling (\<^verbatim>\<open>src/fd_kqueue.cpp\<close>). The kernel's queue is a
  parameter with \<open>kqueue_contract\<close>; the signal mask and the start of the thread are not modelled.
  Whoever waits last for a descriptor and an event is the one who is answered.
\<close>

section \<open>Waiting and polling\<close>

datatype kevent_errno = EINTR | OtherErrno nat

record 'k kq_ops =
  kq_add :: "int \<Rightarrow> Event \<Rightarrow> uint64 \<Rightarrow> 'k \<Rightarrow> 'k option"
  kq_events :: "'k \<Rightarrow> (kevent_errno + uint64 list) \<times> 'k"

text \<open>\<^verbatim>\<open>fd::wait\<close> up to the block, with the process and the new session in \<open>self\<close>.\<close>

definition kq_wait :: "'k kq_ops \<Rightarrow> int \<Rightarrow> Event \<Rightarrow> waiter \<Rightarrow> 'k \<Rightarrow> fd_error option \<times> 'k" where
  "kq_wait K fd event self k =
     (case kq_add K fd event (udata_encode (fst self) (snd self)) k of
        None \<Rightarrow> (Some SystemError, k)
      | Some k' \<Rightarrow> (None, k'))"

text \<open>
  One round of \<^verbatim>\<open>kqueue_poll\<close>: whether the loop goes on, and the responses it sends, from the last
  event to the first.
\<close>

definition kq_poll :: "'k kq_ops \<Rightarrow> 'k \<Rightarrow> bool \<times> waiter list \<times> 'k" where
  "kq_poll K k =
     (case kq_events K k of
        (Inl e, k') \<Rightarrow> (e = EINTR, [], k')
      | (Inr udatas, k') \<Rightarrow> (True, map udata_decode (rev udatas), k'))"

text \<open>
  \<open>watched\<close> is what the queue holds: adding what is there already modifies it; an event is
  reported once and then forgotten (\<^verbatim>\<open>EV_ONESHOT\<close>).
\<close>

definition kqueue_contract :: "'k kq_ops \<Rightarrow> ('k \<Rightarrow> int \<times> Event \<Rightarrow> uint64 option) \<Rightarrow> bool" where
  "kqueue_contract K watched \<longleftrightarrow>
     (\<forall>k k' fd event u. kq_add K fd event u k = Some k' \<longrightarrow> watched k' = (watched k)((fd, event) \<mapsto> u)) \<and>
     (\<forall>k k' e. kq_events K k = (Inl e, k') \<longrightarrow> watched k' = watched k) \<and>
     (\<forall>k k' us. kq_events K k = (Inr us, k') \<longrightarrow>
        (\<exists>keys. distinct keys \<and> map (watched k) keys = map Some us \<and>
          watched k' = (\<lambda>key. if key \<in> set keys then None else watched k key)))"

section \<open>All waiters\<close>

text \<open>
  \<open>kw_last\<close> is the waiter that waited last for a descriptor and an event and has not been answered,
  \<open>kw_used\<close> all that ever waited: each wait has a session of its own.
\<close>

record 'k kq_sys =
  kw_kernel :: 'k
  kw_last :: "int \<times> Event \<Rightarrow> waiter option"
  kw_used :: "waiter set"
  kw_answered :: "waiter list"

definition kq_start :: "'k \<Rightarrow> 'k kq_sys" where
  "kq_start k = \<lparr>kw_kernel = k, kw_last = (\<lambda>_. None), kw_used = {}, kw_answered = []\<rparr>"

inductive kq_step :: "'k kq_ops \<Rightarrow> 'k kq_sys \<Rightarrow> 'k kq_sys \<Rightarrow> bool" for K :: "'k kq_ops" where
  kq_waits: "self \<notin> kw_used s \<Longrightarrow> kq_wait K fd event self (kw_kernel s) = (None, k) \<Longrightarrow>
    kq_step K s (s\<lparr>kw_kernel := k, kw_last := (kw_last s)((fd, event) \<mapsto> self), kw_used := insert self (kw_used s)\<rparr>)"
| kq_polls: "kq_poll K (kw_kernel s) = (alive, rs, k) \<Longrightarrow>
    kq_step K s (s\<lparr>kw_kernel := k, kw_answered := kw_answered s @ rs,
      kw_last := (\<lambda>key. if kw_last s key \<in> Some ` set rs then None else kw_last s key)\<rparr>)"

text \<open>The queue holds the last waiters, each for one descriptor and event, and none of those answered.\<close>

definition kq_inv :: "('k \<Rightarrow> int \<times> Event \<Rightarrow> uint64 option) \<Rightarrow> 'k kq_sys \<Rightarrow> bool" where
  "kq_inv watched s \<longleftrightarrow>
     (\<forall>key. watched (kw_kernel s) key = map_option (\<lambda>w. udata_encode (fst w) (snd w)) (kw_last s key)) \<and>
     (\<forall>key key' w. kw_last s key = Some w \<longrightarrow> kw_last s key' = Some w \<longrightarrow> key = key') \<and>
     (\<forall>key w. kw_last s key = Some w \<longrightarrow> w \<in> kw_used s \<and> w \<notin> set (kw_answered s)) \<and>
     set (kw_answered s) \<subseteq> kw_used s \<and> distinct (kw_answered s)"

lemma udata_decode_encode: "udata_decode (udata_encode pid sid) = (pid, sid)"
proof -
  have "ucast (udata_encode pid sid) = pid"
    by (rule bit_word_eqI) (auto simp: udata_encode_def bit_simps)
  moreover have "ucast (drop_bit 32 (udata_encode pid sid)) = sid"
    by (rule bit_word_eqI) (auto simp: udata_encode_def bit_simps dest: bit_imp_le_length)
  ultimately show ?thesis by (simp add: udata_decode_def)
qed

lemma kq_invD:
  assumes "kq_inv watched s"
  shows "watched (kw_kernel s) key = map_option (\<lambda>w. udata_encode (fst w) (snd w)) (kw_last s key)"
    "kw_last s key = Some w \<Longrightarrow> kw_last s key' = Some w \<Longrightarrow> key = key'"
    "kw_last s key = Some w \<Longrightarrow> w \<in> kw_used s \<and> w \<notin> set (kw_answered s)"
    "set (kw_answered s) \<subseteq> kw_used s" "distinct (kw_answered s)"
  using assms unfolding kq_inv_def by blast+

lemma kq_invI:
  assumes "\<And>key. watched (kw_kernel s) key = map_option (\<lambda>w. udata_encode (fst w) (snd w)) (kw_last s key)"
    "\<And>key key' w. kw_last s key = Some w \<Longrightarrow> kw_last s key' = Some w \<Longrightarrow> key = key'"
    "\<And>key w. kw_last s key = Some w \<Longrightarrow> w \<in> kw_used s \<and> w \<notin> set (kw_answered s)"
    "set (kw_answered s) \<subseteq> kw_used s" "distinct (kw_answered s)"
  shows "kq_inv watched s"
  unfolding kq_inv_def using assms by blast

lemma map_Some_through:
  "map g xs = map Some ys \<Longrightarrow> (\<And>x y. g x = Some y \<Longrightarrow> h x = Some (d y)) \<Longrightarrow> map h xs = map Some (map d ys)"
proof (induction ys arbitrary: xs)
  case (Cons y ys)
  then obtain x xs' where "xs = x # xs'" by (cases xs) auto
  with Cons show ?case by simp
qed simp

text \<open>What one round answers.\<close>

lemma poll_last:
  assumes C: "kqueue_contract K watched" and inv: "kq_inv watched s" and p: "kq_poll K (kw_kernel s) = (alive, rs, k)"
  shows "\<exists>keys. distinct keys \<and> map (kw_last s) keys = map Some rs \<and>
    watched k = (\<lambda>key. if key \<in> set keys then None else watched (kw_kernel s) key)"
proof (cases "kq_events K (kw_kernel s)")
  case (Pair r k')
  show ?thesis
  proof (cases r)
    case (Inl e)
    with Pair p C show ?thesis by (auto simp: kq_poll_def kqueue_contract_def)
  next
    case (Inr us)
    have "kq_events K (kw_kernel s) = (Inr us, k')" using Pair Inr by simp
    with C obtain keys where keys: "distinct keys" "map (watched (kw_kernel s)) keys = map Some us"
      "watched k' = (\<lambda>key. if key \<in> set keys then None else watched (kw_kernel s) key)"
      unfolding kqueue_contract_def by blast
    have last: "watched (kw_kernel s) key = Some u \<Longrightarrow> kw_last s key = Some (udata_decode u)" for key u
      using kq_invD(1) [OF inv, of key] by (auto simp: udata_decode_encode)
    have "map (kw_last s) keys = map Some (map udata_decode us)"
      using keys(2) last by (rule map_Some_through)
    then have "map (kw_last s) (rev keys) = map Some (map udata_decode (rev us))"
      by (simp add: rev_map [symmetric])
    with keys(1,3) Pair Inr p show ?thesis
      by (intro exI [of _ "rev keys"]) (auto simp: kq_poll_def)
  qed
qed

lemma kq_inv_step:
  assumes C: "kqueue_contract K watched" and inv: "kq_inv watched s" and st: "kq_step K s t"
  shows "kq_inv watched t"
  using st
proof cases
  case (kq_waits self fd event k)
  note D = kq_invD [OF inv]
  have "kq_add K fd event (udata_encode (fst self) (snd self)) (kw_kernel s) = Some k"
    using kq_waits(3) by (auto simp: kq_wait_def split: option.splits)
  with C have k: "watched k = (watched (kw_kernel s))((fd, event) \<mapsto> udata_encode (fst self) (snd self))"
    by (simp add: kqueue_contract_def)
  have other: "kw_last s key \<noteq> Some self" for key using D(3) kq_waits(2) by blast
  show ?thesis
  proof (rule kq_invI)
    fix key key' w assume "kw_last t key = Some w" "kw_last t key' = Some w"
    with other kq_waits(1) D(2) show "key = key'" by (auto split: if_splits)
  next
    fix key w assume "kw_last t key = Some w"
    with kq_waits(1,2) D(3,4) show "w \<in> kw_used t \<and> w \<notin> set (kw_answered t)" by (auto split: if_splits)
  qed (use D(1,4,5) k kq_waits(1) in \<open>auto\<close>)
next
  case (kq_polls alive rs k)
  note D = kq_invD [OF inv]
  from poll_last [OF C inv kq_polls(2)] obtain keys where keys: "distinct keys" "map (kw_last s) keys = map Some rs"
    "watched k = (\<lambda>key. if key \<in> set keys then None else watched (kw_kernel s) key)" by blast
  have img: "kw_last s ` set keys = Some ` set rs" by (metis keys(2) list.set_map)
  have hit: "kw_last s key \<in> Some ` set rs \<longleftrightarrow> key \<in> set keys" for key
  proof
    assume "kw_last s key \<in> Some ` set rs"
    then obtain w key' where "kw_last s key = Some w" "key' \<in> set keys" "kw_last s key' = Some w"
      using img by (metis imageE)
    with D(2) show "key \<in> set keys" by blast
  qed (use img in blast)
  have old: "\<exists>key. kw_last s key = Some w" if "w \<in> set rs" for w using img that by (metis imageE imageI)
  have "inj_on (kw_last s) (set keys)" using D(2) img by (intro inj_onI) (metis imageE imageI)
  with keys(1) have "distinct (map (kw_last s) keys)" by (simp add: distinct_map)
  then have rs: "distinct rs" by (simp add: keys(2) distinct_map)
  show ?thesis
  proof (rule kq_invI)
    fix key show "watched (kw_kernel t) key = map_option (\<lambda>w. udata_encode (fst w) (snd w)) (kw_last t key)"
      using kq_polls(1) keys(3) hit [of key] D(1) by simp
  next
    fix key w assume "kw_last t key = Some w"
    then have "kw_last s key = Some w" "w \<notin> set rs" using kq_polls(1) by (auto split: if_splits)
    with D(3) kq_polls(1) show "w \<in> kw_used t \<and> w \<notin> set (kw_answered t)" by auto
  next
    fix key key' w assume "kw_last t key = Some w" "kw_last t key' = Some w"
    with D(2) kq_polls(1) show "key = key'" by (auto split: if_splits)
  qed (use old D(3-5) rs kq_polls(1) in \<open>fastforce+\<close>)
qed

lemma kq_reach:
  assumes C: "kqueue_contract K watched" and "watched k0 = (\<lambda>_. None)"
  shows "reach (\<lambda>s. s = kq_start k0) (kq_step K) s \<Longrightarrow> kq_inv watched s"
proof (induction rule: reach.induct)
  case (reach_init s)
  then show ?case using assms(2) by (simp add: kq_inv_def kq_start_def)
next
  case (reach_step s t)
  then show ?case using kq_inv_step [OF C] by blast
qed

section \<open>Who is answered\<close>

text \<open>A kernel that reports descriptor 3 as readable whenever it is watched.\<close>

definition ready_kq :: "(int \<times> Event \<Rightarrow> uint64 option) kq_ops" where
  "ready_kq = \<lparr>kq_add = (\<lambda>fd event u k. Some (k((fd, event) \<mapsto> u))),
     kq_events = (\<lambda>k. case k (3, kRead) of None \<Rightarrow> (Inr [], k) | Some u \<Rightarrow> (Inr [u], k((3, kRead) := None)))\<rparr>"

lemma ready_contract: "kqueue_contract ready_kq (\<lambda>k. k)"
proof -
  have "\<exists>keys. distinct keys \<and> map k keys = map Some us \<and> k' = (\<lambda>key. if key \<in> set keys then None else k key)"
    if "kq_events ready_kq k = (Inr us, k')" for k k' us
    using that by (cases "k (3, kRead)")
      (auto simp: ready_kq_def intro!: exI [of _ "[]"] exI [of _ "[(3, kRead)]"])
  then show ?thesis by (auto simp: kqueue_contract_def) (auto simp: ready_kq_def split: option.splits)
qed

definition kq_one :: "(int \<times> Event \<Rightarrow> uint64 option) kq_sys" where
  "kq_one = \<lparr>kw_kernel = [(3, kRead) \<mapsto> udata_encode 1 7], kw_last = [(3, kRead) \<mapsto> (1, 7)], kw_used = {(1, 7)}, kw_answered = []\<rparr>"

lemma kq_one_reach: "reach (\<lambda>s. s = kq_start (\<lambda>_. None)) (kq_step ready_kq) kq_one"
proof -
  let ?s0 = "kq_start (\<lambda>_. None) :: (int \<times> Event \<Rightarrow> uint64 option) kq_sys"
  have "kq_wait ready_kq 3 kRead (1, 7) (kw_kernel ?s0) = (None, kw_kernel kq_one)"
    by (simp add: kq_wait_def ready_kq_def kq_start_def kq_one_def)
  then have "kq_step ready_kq ?s0 kq_one"
    using kq_step.kq_waits [of "(1, 7)" ?s0 ready_kq 3 kRead "kw_kernel kq_one"]
    by (simp add: kq_start_def kq_one_def)
  then show ?thesis by (rule reach_step [rotated]) (rule reach_init, rule refl)
qed

text \<open>With \<^verbatim>\<open>kqueue\<close>, whatever threads wait and poll, a round of the polling thread answers exactly
  coroutines that wait, each the last that waited for its descriptor and event, with its own process
  and session, and no wait is ever answered twice.\<close>

theorem kqueue_answers_last_waiter:
  assumes "kqueue_contract K watched" "watched k0 = (\<lambda>_. None)"
    and "reach (\<lambda>s. s = kq_start k0) (kq_step K) s" "kq_poll K (kw_kernel s) = (alive, rs, k)"
  shows "(\<exists>keys. distinct keys \<and> map (kw_last s) keys = map Some rs) \<and> distinct (kw_answered s @ rs)"
proof -
  note inv = kq_reach [OF assms(1-3)]
  have "kq_inv watched (s\<lparr>kw_kernel := k, kw_answered := kw_answered s @ rs,
      kw_last := (\<lambda>key. if kw_last s key \<in> Some ` set rs then None else kw_last s key)\<rparr>)"
    by (rule kq_inv_step [OF assms(1) inv kq_polls [OF assms(4)]])
  from kq_invD(5) [OF this] poll_last [OF assms(1) inv assms(4)] show ?thesis by auto
qed

theorem kqueue_answers_last_waiter_witness:
  "\<exists>k. kq_poll ready_kq (kw_kernel kq_one) = (True, [(1, 7)], k) \<and>
    (\<exists>keys. distinct keys \<and> map (kw_last kq_one) keys = [Some (1, 7)])"
proof -
  have p: "kq_poll ready_kq (kw_kernel kq_one) = (True, [(1, 7)], (kw_kernel kq_one)((3, kRead) := None))"
    by (simp add: kq_poll_def ready_kq_def kq_one_def udata_decode_encode)
  from kqueue_answers_last_waiter [OF ready_contract refl kq_one_reach p] p show ?thesis by auto
qed

text \<open>With \<^verbatim>\<open>kqueue\<close>, a second wait for a descriptor and an event that are waited for already does not
  fail, as it does with \<^verbatim>\<open>epoll\<close>: it silently takes the place of the first, which is never
  answered again.\<close>

theorem kqueue_second_waiter_replaces:
  assumes "kqueue_contract K watched" "watched k0 = (\<lambda>_. None)"
    and "reach (\<lambda>s. s = kq_start k0) (kq_step K) s" "kw_last s (fd, event) = Some first"
    and "second \<notin> kw_used s" "kq_wait K fd event second (kw_kernel s) = (None, k)"
    and "(kq_step K)\<^sup>*\<^sup>* (s\<lparr>kw_kernel := k, kw_last := (kw_last s)((fd, event) \<mapsto> second), kw_used := insert second (kw_used s)\<rparr>) t"
  shows "first \<notin> set (kw_answered t) \<and> (\<forall>key. kw_last t key \<noteq> Some first)"
proof -
  let ?s = "s\<lparr>kw_kernel := k, kw_last := (kw_last s)((fd, event) \<mapsto> second), kw_used := insert second (kw_used s)\<rparr>"
  let ?lost = "\<lambda>s. first \<in> kw_used s \<and> first \<notin> set (kw_answered s) \<and> (\<forall>key. kw_last s key \<noteq> Some first)"
  note inv = kq_reach [OF assms(1-3)]
  have "kq_inv watched ?s" by (rule kq_inv_step [OF assms(1) inv kq_waits [OF assms(5,6)]])
  moreover have "?lost ?s"
    using kq_invD(2,3) [OF inv assms(4)] assms(5) by auto
  ultimately have start: "kq_inv watched ?s \<and> ?lost ?s" by blast
  have "kq_inv watched t \<and> ?lost t"
    using assms(7) start
  proof (induction rule: rtranclp_induct)
    case (step u v)
    then have u: "kq_inv watched u" "?lost u" by simp_all
    have "?lost v"
      using step.hyps(2)
    proof cases
      case (kq_waits self fd event k)
      with u(2) show ?thesis by auto
    next
      case (kq_polls alive rs k)
      from poll_last [OF assms(1) u(1) kq_polls(2)] obtain keys where "map (kw_last u) keys = map Some rs" by blast
      then have "Some ` set rs = kw_last u ` set keys" by (metis list.set_map)
      have "first \<notin> set rs"
      proof
        assume "first \<in> set rs"
        then have "Some first \<in> kw_last u ` set keys" unfolding \<open>Some ` set rs = kw_last u ` set keys\<close> [symmetric] by (rule imageI)
        then obtain key where "kw_last u key = Some first" by (elim imageE) simp
        with u(2) show False by blast
      qed
      with u(2) kq_polls(1) show ?thesis by auto
    qed
    with kq_inv_step [OF assms(1) u(1) step.hyps(2)] show ?case by blast
  qed
  then show ?thesis by blast
qed

theorem kqueue_second_waiter_replaces_witness:
  "\<exists>k. kq_wait ready_kq 3 kRead (2, 9) (kw_kernel kq_one) = (None, k) \<and>
    (\<forall>t. (kq_step ready_kq)\<^sup>*\<^sup>* (kq_one\<lparr>kw_kernel := k, kw_last := (kw_last kq_one)((3, kRead) \<mapsto> (2, 9)),
      kw_used := insert (2, 9) (kw_used kq_one)\<rparr>) t \<longrightarrow> (1, 7) \<notin> set (kw_answered t))"
proof -
  have w: "kq_wait ready_kq 3 kRead (2, 9) (kw_kernel kq_one) = (None, (kw_kernel kq_one)((3, kRead) \<mapsto> udata_encode 2 9))"
    by (simp add: kq_wait_def ready_kq_def)
  have l: "kw_last kq_one (3, kRead) = Some (1, 7)" "(2, 9) \<notin> kw_used kq_one" by (simp_all add: kq_one_def)
  from kqueue_second_waiter_replaces [OF ready_contract refl kq_one_reach l w] w show ?thesis by blast
qed

end
