(* ===== verification/Kqueue_Wake.thy ===== *)
theory Kqueue_Wake
  imports Fd_Wake Kqueue
begin

text \<open>
  Waiting for a descriptor with \<^verbatim>\<open>kqueue\<close>, over the runtime (\<^verbatim>\<open>src/fd_kqueue.cpp\<close>): \<^verbatim>\<open>fd::wait\<close> as a
  call of a running coroutine, and the rounds of the polling thread. The kernel's queue forgets a
  waiter only when it has been reported: one that is interrupted stays in it.
\<close>

section \<open>The call and the thread\<close>

definition kq_wait_enter :: "'k kq_ops \<Rightarrow> 'i alloc_ops \<Rightarrow> addr \<Rightarrow> co \<Rightarrow> int \<Rightarrow> Event \<Rightarrow>
    'k \<times> ('v, 'l, 'i, 'h) runtime \<Rightarrow> ((fd_error + session_t) \<times> 'k \<times> ('v, 'l, 'i, 'h) runtime) option" where
  "kq_wait_enter K I running co fd event = (\<lambda>(k, s).
     (case rt_procs s running of
        None \<Rightarrow> None
      | Some q \<Rightarrow>
          (case proc_new_session I q of (session, q1) \<Rightarrow>
            (case kq_wait K fd event (pid_value (p_pid q1), sid_value session) k of
               (None, k1) \<Rightarrow> Some (Inr session, k1, s\<lparr>rt_procs := (rt_procs s)(running \<mapsto> proc_block session co q1)\<rparr>)
             | (Some e, k1) \<Rightarrow> Some (Inl e, k1, s\<lparr>rt_procs := (rt_procs s)(running \<mapsto>
                 (if sid_set session then proc_release_session I session q1 else q1))\<rparr>)))))"

text \<open>After the switch, whether \<^verbatim>\<open>block\<close> returns or throws, only the session is given back.\<close>

definition kq_wait_leave :: "'i alloc_ops \<Rightarrow> addr \<Rightarrow> session_t \<Rightarrow>
    'k \<times> ('v, 'l, 'i, 'h) runtime \<Rightarrow> ('k \<times> ('v, 'l, 'i, 'h) runtime) option" where
  "kq_wait_leave I running session = (\<lambda>(k, s). map_option (Pair k)
     (with_proc running (\<lambda>q. if sid_set session then proc_release_session I session q else q) s))"

definition kq_round :: "'k kq_ops \<Rightarrow> ('l, 'v message) append_ops \<Rightarrow>
    'k \<times> ('v, 'l, 'i, 'h) runtime \<Rightarrow> (bool \<times> 'k \<times> ('v, 'l, 'i, 'h) runtime) option option" where
  "kq_round K A = (\<lambda>(k, s).
     (case kq_poll K k of (alive, waiters, k1) \<Rightarrow> map_option (map_option (\<lambda>s1. (alive, k1, s1))) (poll_wakeups A waiters s)))"

section \<open>The call blocks\<close>

theorem kq_wait_blocks:
  fixes s :: "('v, 'l, 'i, 'h) runtime"
  assumes "mid_turn rep running co H s" "rt_procs s running = Some q" "proc_new_session I q = (session, q1)"
    and "session \<notin> fst ` set (p_block q)" "sid_set session"
  shows "case kq_add K fd event (udata_encode (pid_value (p_pid q)) (sid_value session)) k of
      Some k1 \<Rightarrow> kq_wait_enter K I running co fd event (k, s) =
          Some (Inr session, k1, s\<lparr>rt_procs := (rt_procs s)(running \<mapsto> proc_block session co q1)\<rparr>) \<and>
        rt_inv rep between {#running#} (add_mset running H) (s\<lparr>rt_procs := (rt_procs s)(running \<mapsto> proc_block session co q1)\<rparr>)
    | None \<Rightarrow> kq_wait_enter K I running co fd event (k, s) =
          Some (Inl SystemError, k, s\<lparr>rt_procs := (rt_procs s)(running \<mapsto> proc_release_session I session q1)\<rparr>) \<and>
        mid_turn rep running co H (s\<lparr>rt_procs := (rt_procs s)(running \<mapsto> proc_release_session I session q1)\<rparr>)"
  using block_new_session(1,3) [OF assms(1-3)] block_new_session(2) [OF assms(1-4)] assms(2,3,5)
  by (simp add: kq_wait_enter_def kq_wait_def split: option.split)

section \<open>The polling thread wakes\<close>



section \<open>Interrupted waiters\<close>

text \<open>A coroutine whose wait ends by an exception leaves its entry in the queue: the next event of the descriptor
  answers its session, which has been given back, and wakes whoever blocks on it then.\<close>

theorem kqueue_interrupted_wakes_other:
  fixes s :: "('v, 'l, 'i, 'h) runtime"
  assumes "kqueue_contract K watched" "mid_turn rep running co H s" "rt_procs s running = Some q"
    and "proc_new_session I q = (session, q1)" "sid_set session" "0 < sint (sid_value session)"
    and "kq_wait_enter K I running co fd event (k, s) = Some (Inr session, k1, s1)"
    and "kq_wait_leave I running session (k1, s2) = Some (k2, s3)"
  shows "watched k2 (fd, event) = Some (udata_encode (pid_value (p_pid q)) (sid_value session)) \<and>
    (wf_owned {#} p \<and> (session, other) \<in> set (p_block p) \<and> p_cos p other = Some c \<and> co_exception c = None \<longrightarrow>
      (\<exists>p' c'. proc_deliver seg (message_create (process_t 0) (sessionForResponse session) EmptyAny) p = Some (Normal (kResume, p')) \<and>
        p_wakeup p' = p_wakeup p @ [other] \<and> p_cos p' other = Some c' \<and> fst (get_result c') = Inr EmptyAny))"
proof -
  have "p_pid q1 = p_pid q" by (rule block_new_session(1) [OF assms(2-4)])
  with assms(3,4,7) have "kq_add K fd event (udata_encode (pid_value (p_pid q)) (sid_value session)) k = Some k1"
    by (auto simp: kq_wait_enter_def kq_wait_def split: option.splits prod.splits)
  with assms(1) have "watched k1 = (watched k)((fd, event) \<mapsto> udata_encode (pid_value (p_pid q)) (sid_value session))"
    unfolding kqueue_contract_def by blast
  moreover have "k2 = k1" using assms(8) by (auto simp: kq_wait_leave_def)
  ultimately show ?thesis using answer_resumes [OF _ _ _ _ assms(6)] by fastforce
qed

end
