(* ===== verification/Io.thy ===== *)
theory Io
  imports Fd_Poll
begin

text \<open>
  The reading and writing loops of \<^verbatim>\<open>src/io.cpp\<close>. The system calls behind \<^verbatim>\<open>wild::io\<close> and the
  suspension in \<^verbatim>\<open>fd::wait\<close> are parameters over a state of the world; the buffer is memory
  with addresses, so that the pointer arithmetic of the loops is visible.
\<close>

section \<open>The loops\<close>

type_synonym byte = "8 word"
type_synonym memory = "nat \<Rightarrow> byte"

datatype io_err = NoError | EAGAIN | EEOF | OtherError nat

record 'w io_ops =
  io_Read :: "nat \<Rightarrow> 'w \<Rightarrow> (byte list \<times> io_err) \<times> 'w"
  io_Write :: "byte list \<Rightarrow> 'w \<Rightarrow> (nat \<times> io_err) \<times> 'w"
  io_wait :: "Event \<Rightarrow> 'w \<Rightarrow> 'w"

fun store_bytes :: "nat \<Rightarrow> byte list \<Rightarrow> memory \<Rightarrow> memory" where
  "store_bytes buf [] mem = mem"
| "store_bytes buf (b # bs) mem = store_bytes (buf + 1) bs (mem(buf := b))"

partial_function (option) read_full_loop ::
  "'w io_ops \<Rightarrow> nat \<Rightarrow> nat \<Rightarrow> nat \<Rightarrow> memory \<Rightarrow> 'w \<Rightarrow> ((nat \<times> io_err) \<times> memory \<times> 'w) option" where
  "read_full_loop R buf len rd mem w =
     (case io_Read R len w of ((bs, err), w1) \<Rightarrow>
        (let n = length bs; rd1 = rd + n; len1 = len - n; mem1 = store_bytes buf bs mem
         in if len1 = 0 then Some ((rd1, NoError), mem1, w1)
            else if err = EAGAIN then read_full_loop R (buf + n) len1 rd1 mem1 (io_wait R kRead w1)
            else Some ((rd1, err), mem1, w1)))"

definition read_full :: "'w io_ops \<Rightarrow> nat \<Rightarrow> nat \<Rightarrow> memory \<Rightarrow> 'w \<Rightarrow> ((nat \<times> io_err) \<times> memory \<times> 'w) option" where
  "read_full R buf len mem w = read_full_loop R buf len 0 mem w"

text \<open>\<^verbatim>\<open>read\<close> does not advance its pointer: it only goes round when nothing has been read.\<close>

partial_function (option) read_loop ::
  "'w io_ops \<Rightarrow> nat \<Rightarrow> nat \<Rightarrow> nat \<Rightarrow> memory \<Rightarrow> 'w \<Rightarrow> ((nat \<times> io_err) \<times> memory \<times> 'w) option" where
  "read_loop R buf len rd mem w =
     (case io_Read R len w of ((bs, err), w1) \<Rightarrow>
        (let n = length bs; rd1 = rd + n; len1 = len - n; mem1 = store_bytes buf bs mem
         in if len1 = 0 then Some ((rd1, NoError), mem1, w1)
            else if err = EAGAIN then
              (if rd1 = 0 then read_loop R buf len1 rd1 mem1 (io_wait R kRead w1)
               else Some ((rd1, NoError), mem1, w1))
            else Some ((rd1, err), mem1, w1)))"

definition io_read :: "'w io_ops \<Rightarrow> nat \<Rightarrow> nat \<Rightarrow> memory \<Rightarrow> 'w \<Rightarrow> ((nat \<times> io_err) \<times> memory \<times> 'w) option" where
  "io_read R buf len mem w = read_loop R buf len 0 mem w"

text \<open>The data pointer and the size of \<^verbatim>\<open>write\<close> are the list of the bytes that are left.\<close>

partial_function (option) write_loop ::
  "'w io_ops \<Rightarrow> byte list \<Rightarrow> nat \<Rightarrow> 'w \<Rightarrow> ((nat \<times> io_err) \<times> 'w) option" where
  "write_loop R data wr w =
     (case io_Write R data w of ((n, err), w1) \<Rightarrow>
        (let wr1 = wr + n; data1 = drop n data
         in if data1 = [] then Some ((wr1, NoError), w1)
            else if err = EAGAIN then write_loop R data1 wr1 (io_wait R kWrite w1)
            else Some ((wr1, err), w1)))"

definition io_write :: "'w io_ops \<Rightarrow> byte list \<Rightarrow> 'w \<Rightarrow> ((nat \<times> io_err) \<times> 'w) option" where
  "io_write R data w = write_loop R data 0 w"

section \<open>What the loops rely on\<close>

text \<open>
  A read gives the first bytes of the incoming stream, at most as many as asked for, and fewer
  only with an error; waiting loses nothing. \<open>patience\<close> bounds how often the descriptor can
  become ready without anything being ready (a connection that stays silent for ever makes the
  loops wait for ever). For writing likewise.
\<close>

definition stream_contract :: "'w io_ops \<Rightarrow> ('w \<Rightarrow> byte list) \<Rightarrow> ('w \<Rightarrow> nat) \<Rightarrow> bool" where
  "stream_contract R incoming patience \<longleftrightarrow>
     (\<forall>len w bs err w1. io_Read R len w = ((bs, err), w1) \<longrightarrow>
        length bs \<le> len \<and> incoming w = bs @ incoming w1 \<and> (length bs < len \<longrightarrow> err \<noteq> NoError) \<and>
        (err = EAGAIN \<longrightarrow> patience (io_wait R kRead w1) < patience w)) \<and>
     (\<forall>w. incoming (io_wait R kRead w) = incoming w)"

definition sink_contract :: "'w io_ops \<Rightarrow> ('w \<Rightarrow> byte list) \<Rightarrow> ('w \<Rightarrow> nat) \<Rightarrow> bool" where
  "sink_contract R sent patience \<longleftrightarrow>
     (\<forall>data w n err w1. io_Write R data w = ((n, err), w1) \<longrightarrow>
        n \<le> length data \<and> sent w1 = sent w @ take n data \<and> (n < length data \<longrightarrow> err \<noteq> NoError) \<and>
        (err = EAGAIN \<longrightarrow> patience (io_wait R kWrite w1) < patience w)) \<and>
     (\<forall>w. sent (io_wait R kWrite w) = sent w)"

lemma stream_contractD:
  assumes "stream_contract R incoming patience"
  shows "io_Read R len w = ((bs, err), w1) \<Longrightarrow> length bs \<le> len \<and> incoming w = bs @ incoming w1 \<and>
      (length bs < len \<longrightarrow> err \<noteq> NoError) \<and> (err = EAGAIN \<longrightarrow> patience (io_wait R kRead w1) < patience w)"
    "incoming (io_wait R kRead w) = incoming w"
  using assms unfolding stream_contract_def by blast+

lemma sink_contractD:
  assumes "sink_contract R sent patience"
  shows "io_Write R data w = ((n, err), w1) \<Longrightarrow> n \<le> length data \<and> sent w1 = sent w @ take n data \<and>
      (n < length data \<longrightarrow> err \<noteq> NoError) \<and> (err = EAGAIN \<longrightarrow> patience (io_wait R kWrite w1) < patience w)"
    "sent (io_wait R kWrite w) = sent w"
  using assms unfolding sink_contract_def by blast+

lemma store_append: "store_bytes buf (bs @ cs) mem = store_bytes (buf + length bs) cs (store_bytes buf bs mem)"
  by (induction bs arbitrary: buf mem) simp_all

section \<open>The loops are exact\<close>

lemma read_full_loop_exact:
  assumes C: "stream_contract R incoming patience"
  shows "\<exists>bs err w'. read_full_loop R buf len rd mem w = Some ((rd + length bs, err), store_bytes buf bs mem, w') \<and>
    length bs \<le> len \<and> incoming w = bs @ incoming w' \<and> (err = NoError \<longleftrightarrow> length bs = len) \<and> err \<noteq> EAGAIN"
proof (induction "patience w" arbitrary: buf len rd mem w rule: less_induct)
  case less
  obtain bs err w1 where r: "io_Read R len w = ((bs, err), w1)" by (metis surj_pair)
  note D = stream_contractD(1) [OF C r]
  show ?case
  proof (cases "length bs < len \<and> err = EAGAIN")
    case True
    let ?w = "io_wait R kRead w1"
    obtain cs e w' where IH: "read_full_loop R (buf + length bs) (len - length bs) (rd + length bs) (store_bytes buf bs mem) ?w =
        Some ((rd + length bs + length cs, e), store_bytes (buf + length bs) cs (store_bytes buf bs mem), w')"
      "length cs \<le> len - length bs" "incoming ?w = cs @ incoming w'" "e = NoError \<longleftrightarrow> length cs = len - length bs" "e \<noteq> EAGAIN"
      using less [of ?w "buf + length bs" "len - length bs" "rd + length bs" "store_bytes buf bs mem"] D True by blast
    have "read_full_loop R buf len rd mem w = Some ((rd + length (bs @ cs), e), store_bytes buf (bs @ cs) mem, w')"
      using r True IH(1) by (subst read_full_loop.simps) (simp add: store_append add.assoc Let_def)
    moreover have "length (bs @ cs) \<le> len" "incoming w = (bs @ cs) @ incoming w'" "e = NoError \<longleftrightarrow> length (bs @ cs) = len"
      using IH(2-4) D True stream_contractD(2) [OF C, of w1] by auto
    ultimately show ?thesis using IH(5) by blast
  next
    case False
    let ?e = "if len - length bs = 0 then NoError else err"
    have "read_full_loop R buf len rd mem w = Some ((rd + length bs, ?e), store_bytes buf bs mem, w1)"
      using r False D by (subst read_full_loop.simps) (auto simp: Let_def)
    moreover have "?e = NoError \<longleftrightarrow> length bs = len" "?e \<noteq> EAGAIN" using D False by auto
    ultimately show ?thesis using D by blast
  qed
qed

lemma read_loop_exact:
  assumes C: "stream_contract R incoming patience"
  shows "\<exists>bs err w'. read_loop R buf len 0 mem w = Some ((length bs, err), store_bytes buf bs mem, w') \<and>
    length bs \<le> len \<and> incoming w = bs @ incoming w' \<and> err \<noteq> EAGAIN \<and> (err = NoError \<longrightarrow> bs \<noteq> [] \<or> len = 0)"
proof (induction "patience w" arbitrary: mem w rule: less_induct)
  case less
  obtain bs err w1 where r: "io_Read R len w = ((bs, err), w1)" by (metis surj_pair)
  note D = stream_contractD(1) [OF C r]
  show ?case
  proof (cases "len \<noteq> 0 \<and> bs = [] \<and> err = EAGAIN")
    case True
    with D have "patience (io_wait R kRead w1) < patience w" by blast
    from less [OF this, of mem] True D stream_contractD(2) [OF C, of w1] r show ?thesis
      by (subst read_loop.simps) simp
  next
    case False
    let ?e = "if len - length bs = 0 \<or> err = EAGAIN then NoError else err"
    have "read_loop R buf len 0 mem w = Some ((length bs, ?e), store_bytes buf bs mem, w1)"
      using r False D by (subst read_loop.simps) (auto simp: Let_def)
    moreover have "?e \<noteq> EAGAIN" "?e = NoError \<longrightarrow> bs \<noteq> [] \<or> len = 0" using D False by auto
    ultimately show ?thesis using D by blast
  qed
qed

lemma write_loop_exact:
  assumes C: "sink_contract R sent patience"
  shows "\<exists>n err w'. write_loop R data wr w = Some ((wr + n, err), w') \<and> n \<le> length data \<and>
    sent w' = sent w @ take n data \<and> (err = NoError \<longleftrightarrow> n = length data) \<and> err \<noteq> EAGAIN"
proof (induction "patience w" arbitrary: data wr w rule: less_induct)
  case less
  obtain n err w1 where r: "io_Write R data w = ((n, err), w1)" by (metis surj_pair)
  note D = sink_contractD(1) [OF C r]
  show ?case
  proof (cases "n < length data \<and> err = EAGAIN")
    case True
    let ?w = "io_wait R kWrite w1"
    obtain m e w' where IH: "write_loop R (drop n data) (wr + n) ?w = Some ((wr + n + m, e), w')"
      "m \<le> length (drop n data)" "sent w' = sent ?w @ take m (drop n data)" "e = NoError \<longleftrightarrow> m = length (drop n data)" "e \<noteq> EAGAIN"
      using less [of ?w "drop n data" "wr + n"] D True by blast
    have "write_loop R data wr w = Some ((wr + (n + m), e), w')"
      using r True IH(1) by (subst write_loop.simps) (simp add: add.assoc Let_def)
    moreover have "n + m \<le> length data" "e = NoError \<longleftrightarrow> n + m = length data" using IH(2,4) True by auto
    moreover have "sent w' = sent w @ take (n + m) data"
      using IH(3) D sink_contractD(2) [OF C, of w1] by (simp add: take_add)
    ultimately show ?thesis using IH(5) by blast
  next
    case False
    let ?e = "if drop n data = [] then NoError else err"
    have "write_loop R data wr w = Some ((wr + n, ?e), w1)"
      using r False D by (subst write_loop.simps) (auto simp: Let_def)
    moreover have "?e = NoError \<longleftrightarrow> n = length data" "?e \<noteq> EAGAIN" using D False by auto
    ultimately show ?thesis using D by blast
  qed
qed

text \<open>A world for the witnesses: every read or write moves one byte and would block after it.\<close>

definition trickle :: "(byte list \<times> byte list \<times> nat) io_ops" where
  "trickle =
     \<lparr>io_Read = (\<lambda>len (i, out, p). if i = [] then (([], EEOF), (i, out, p))
         else if len = 0 then (([], NoError), (i, out, p))
         else (([hd i], if len = 1 then NoError else EAGAIN), (tl i, out, p))),
      io_Write = (\<lambda>data (i, out, p). if data = [] then ((0, NoError), (i, out, p))
         else if p = 0 then ((0, OtherError 32), (i, out, p))
         else ((1, if length data = 1 then NoError else EAGAIN), (i, out @ [hd data], p - 1))),
      io_wait = (\<lambda>_ w. w)\<rparr>"

lemma trickle_stream: "stream_contract trickle fst (\<lambda>w. length (fst w))"
  by (auto simp: stream_contract_def trickle_def split: if_splits prod.splits)

lemma trickle_sink: "sink_contract trickle (fst \<circ> snd) (\<lambda>w. snd (snd w))"
  by (auto simp: sink_contract_def trickle_def take_Suc Suc_le_eq length_Suc_conv split: if_splits prod.splits)

text \<open>\<^verbatim>\<open>read_full\<close> returns, and fills the buffer without gap or overlap: the bytes stored from the
  start of the buffer on are exactly those taken from the stream, at most \<open>len\<close>; it reports no
  error exactly when the buffer is full, and never that it would have to wait.\<close>

theorem read_full_exact:
  assumes "stream_contract R incoming patience"
  shows "\<exists>bs err w'. read_full R buf len mem w = Some ((length bs, err), store_bytes buf bs mem, w') \<and>
    length bs \<le> len \<and> incoming w = bs @ incoming w' \<and> (err = NoError \<longleftrightarrow> length bs = len) \<and> err \<noteq> EAGAIN"
  using read_full_loop_exact [OF assms, of buf len 0 mem w] by (simp add: read_full_def)

theorem read_full_exact_witness:
  "\<exists>bs err w'. read_full trickle 100 3 (\<lambda>_. 0) ([7, 8, 9, 10], [], 0) = Some ((length bs, err), store_bytes 100 bs (\<lambda>_. 0), w') \<and>
    length bs \<le> 3 \<and> [7, 8, 9, 10] = bs @ fst w' \<and> (err = NoError \<longleftrightarrow> length bs = 3)"
  using read_full_exact [OF trickle_stream, of 100 3 "\<lambda>_. 0" "([7, 8, 9, 10], [], 0)"] by auto

text \<open>\<^verbatim>\<open>read\<close> returns, stores exactly the bytes it took from the stream at the start of the buffer
  although its pointer never moves, and comes back without an error only when it has read
  something or nothing was asked for.\<close>

theorem read_exact:
  assumes "stream_contract R incoming patience"
  shows "\<exists>bs err w'. io_read R buf len mem w = Some ((length bs, err), store_bytes buf bs mem, w') \<and>
    length bs \<le> len \<and> incoming w = bs @ incoming w' \<and> err \<noteq> EAGAIN \<and> (err = NoError \<longrightarrow> bs \<noteq> [] \<or> len = 0)"
  using read_loop_exact [OF assms] by (simp add: io_read_def)

theorem read_exact_witness:
  "\<exists>bs err w'. io_read trickle 100 3 (\<lambda>_. 0) ([7, 8], [], 0) = Some ((length bs, err), store_bytes 100 bs (\<lambda>_. 0), w') \<and>
    [7, 8] = bs @ fst w' \<and> (err = NoError \<longrightarrow> bs \<noteq> [])"
  using read_exact [OF trickle_stream, of 100 3 "\<lambda>_. 0" "([7, 8], [], 0)"] by auto

text \<open>\<^verbatim>\<open>write\<close> returns, and sends a prefix of the data in order, each byte once: as many bytes as it
  reports, all of them exactly when it reports no error.\<close>

theorem write_exact:
  assumes "sink_contract R sent patience"
  shows "\<exists>n err w'. io_write R data w = Some ((n, err), w') \<and> n \<le> length data \<and>
    sent w' = sent w @ take n data \<and> (err = NoError \<longleftrightarrow> n = length data) \<and> err \<noteq> EAGAIN"
  using write_loop_exact [OF assms, of data 0 w] by (simp add: io_write_def)

theorem write_exact_witness:
  "\<exists>n err w'. io_write trickle [1, 2, 3] ([], [], 5) = Some ((n, err), w') \<and>
    fst (snd w') = take n [1, 2, 3] \<and> (err = NoError \<longleftrightarrow> n = 3)"
  using write_exact [OF trickle_sink, of "[1, 2, 3]" "([], [], 5)"] by auto

end
