(* ===== verification/Turn_Steps.thy ===== *)
theory Turn_Steps
  imports Process_Frame
begin

text \<open>
  A turn of a process in single steps: \<^verbatim>\<open>Process::resume()\<close> of \<^verbatim>\<open>src/process.cpp\<close> with its loops
  (\<^verbatim>\<open>dispatch\<close>, \<^verbatim>\<open>run\<close>, \<^verbatim>\<open>exit\<close>) as program points, so that other threads can act between any
  two of them. Run without interruption the steps compute what \<open>proc_resume\<close> does.
\<close>

section \<open>Program points\<close>

text \<open>
  The two inner loops of \<^verbatim>\<open>run\<close> and the one of \<^verbatim>\<open>exit\<close>; a turn is before the condition of the outer
  loop of \<^verbatim>\<open>run\<close>, before the condition of an inner loop, inside the coroutine that this loop has resumed,
  at the top of the loop of \<^verbatim>\<open>exit\<close>, before \<^verbatim>\<open>take\<close>, before the \<^verbatim>\<open>switch\<close> on the message, or it returns.
\<close>

datatype loop = SpawnLoop | WakeupLoop | ExitLoop

datatype 'v turn_point =
    RunTest
  | InLoop loop
  | InCo loop co
  | ExitTop
  | TakeMail
  | Delivering "'v message"
  | Decided ResumeResult

definition switch_to :: "loop \<Rightarrow> co \<Rightarrow> ('v, 'l, 'i, 'h) process \<Rightarrow> ('v turn_point \<times> ('v, 'l, 'i, 'h) process) option" where
  "switch_to loop co p = (if p_cos p co = None then None else Some (InCo loop co, p))"

text \<open>
  The steps of the loops. \<open>None\<close> is the use of a coroutine that has been destroyed; there is no step
  of the loops while a coroutine runs and after the turn has decided.
\<close>

fun turn_next :: "('l, 'v message) append_ops \<Rightarrow> 'v turn_point \<Rightarrow> ('v, 'l, 'i, 'h) process \<Rightarrow>
    ('v turn_point \<times> ('v, 'l, 'i, 'h) process) option" where
  "turn_next A RunTest p =
     (if run_ready p then Some (InLoop SpawnLoop, p)
      else case sweep_zombies p of
        Normal q \<Rightarrow> Some (if p_block q = [] \<and> p_suspend q = [] then Decided kDown else TakeMail, q)
      | _ \<Rightarrow> None)"
| "turn_next A (InLoop SpawnLoop) p =
     (case p_spawn p of
        [] \<Rightarrow> Some (InLoop WakeupLoop, p)
      | co # cos \<Rightarrow> switch_to SpawnLoop co (p\<lparr>p_spawn := cos\<rparr>))"
| "turn_next A (InLoop WakeupLoop) p =
     (case p_wakeup p of
        [] \<Rightarrow> Some (RunTest, wake_inbox p)
      | co # cos \<Rightarrow> switch_to WakeupLoop co (p\<lparr>p_wakeup := cos\<rparr>))"
| "turn_next A (InLoop ExitLoop) p =
     (case p_wakeup p of
        [] \<Rightarrow> Some (ExitTop, p)
      | co # cos \<Rightarrow> switch_to ExitLoop co (p\<lparr>p_wakeup := cos\<rparr>))"
| "turn_next A ExitTop p =
     (case interrupt_waiting p of
        Normal p1 \<Rightarrow>
          (if p_wakeup p1 \<noteq> [] then Some (InLoop ExitLoop, p1)
           else case sweep_zombies (abandon_spawn p1) of
             Normal q \<Rightarrow> Some (Decided kDown, q)
           | _ \<Rightarrow> None)
      | _ \<Rightarrow> None)"
| "turn_next A TakeMail p =
     (case mailbox_take A (p_mailbox p) of
        (None, mb) \<Rightarrow> Some (Decided kBreak, p\<lparr>p_mailbox := mb\<rparr>)
      | (Some msg, mb) \<Rightarrow> Some (Delivering msg, p\<lparr>p_mailbox := mb\<rparr>))"
| "turn_next A (Delivering msg) p =
     (case typeOfMessage msg of
        kRequest \<Rightarrow> Some (Decided kResume, inbox_push msg (serve_request (msg_source msg) (msg_session msg) p))
      | kResponse \<Rightarrow>
          (case deliver_response msg p of
             Normal (res, q) \<Rightarrow> Some (Decided res, q)
           | _ \<Rightarrow> None)
      | kNotify \<Rightarrow>
          (if any_type (msg_content msg) = TypeKill then Some (ExitTop, p)
           else Some (Decided kResume, inbox_push msg p)))"
| "turn_next A (InCo loop co) p = None"
| "turn_next A (Decided res) p = None"

text \<open>
  The coroutine has switched back: the rest of \<^verbatim>\<open>resume(co, exiting)\<close>. The exception that ends the
  process leaves \<^verbatim>\<open>run\<close> for \<^verbatim>\<open>exit\<close>.
\<close>

definition co_back :: "loop \<Rightarrow> co \<Rightarrow> ('v, 'l, 'i, 'h) process \<Rightarrow> ('v turn_point \<times> ('v, 'l, 'i, 'h) process) option" where
  "co_back loop co q =
     (case p_cos q co of
        None \<Rightarrow> None
      | Some c \<Rightarrow>
          (let (r, c') = get_result c;
               q' = q\<lparr>p_cos := (p_cos q)(co := Some c')\<rparr>;
               dead = q'\<lparr>p_zombie := p_zombie q' @ [co]\<rparr>
           in case r of
                Inr _ \<Rightarrow> Some (InLoop loop, q')
              | Inl ProcessExit \<Rightarrow> Some (if loop = ExitLoop then InLoop ExitLoop else ExitTop, dead)
              | Inl _ \<Rightarrow> Some (InLoop loop, dead)))"

inductive turn_step :: "('l, 'v message) append_ops \<Rightarrow> (co \<Rightarrow> ('v, 'l, 'i, 'h) process \<Rightarrow> ('v, 'l, 'i, 'h) process option) \<Rightarrow>
    'v turn_point \<times> ('v, 'l, 'i, 'h) process \<Rightarrow> 'v turn_point \<times> ('v, 'l, 'i, 'h) process \<Rightarrow> bool"
  for A :: "('l, 'v message) append_ops" and seg :: "co \<Rightarrow> ('v, 'l, 'i, 'h) process \<Rightarrow> ('v, 'l, 'i, 'h) process option" where
  step_loop: "turn_next A pc p = Some x \<Longrightarrow> turn_step A seg (pc, p) x"
| step_co: "seg co p = Some q \<Longrightarrow> co_back loop co q = Some x \<Longrightarrow> turn_step A seg (InCo loop co, p) x"

inductive_cases turn_stepE: "turn_step A seg (pc, p) x"

section \<open>From the steps to the turn\<close>

text \<open>What is still to be computed at each point, by the loops of \<^verbatim>\<open>Process\<close>.\<close>

definition and_then :: "'a outcome option \<Rightarrow> ('a \<Rightarrow> 'b outcome option) \<Rightarrow> ('a \<Rightarrow> 'b outcome option) \<Rightarrow> 'b outcome option" where
  "and_then r thrown f =
     (case r of
        None \<Rightarrow> None
      | Some (Normal q) \<Rightarrow> f q
      | Some (ExitThrown q) \<Rightarrow> thrown q
      | Some UseAfterFree \<Rightarrow> Some UseAfterFree)"

lemma and_then_simps [simp]:
  "and_then None th f = None"
  "and_then (Some (Normal q)) th f = f q"
  "and_then (Some (ExitThrown q)) th f = th q"
  "and_then (Some UseAfterFree) th f = Some UseAfterFree"
  by (simp_all add: and_then_def)

definition take_rest where
  "take_rest A seg q =
     (case mailbox_take A (p_mailbox q) of
        (None, mb) \<Rightarrow> Some (Normal (kBreak, q\<lparr>p_mailbox := mb\<rparr>))
      | (Some msg, mb) \<Rightarrow> proc_deliver seg msg (q\<lparr>p_mailbox := mb\<rparr>))"

definition exit_rest where
  "exit_rest r = and_then r (\<lambda>q. Some (ExitThrown (kDown, q)))
     (\<lambda>q. and_then (Some (sweep_zombies (abandon_spawn q))) (\<lambda>q. Some (ExitThrown (kDown, q))) (\<lambda>q. Some (Normal (kDown, q))))"

definition run_rest where
  "run_rest A seg r = and_then r (\<lambda>q. exit_rest (exit_loop seg q))
     (\<lambda>q. and_then (Some (sweep_zombies q)) (\<lambda>q. exit_rest (exit_loop seg q))
       (\<lambda>q. if p_block q = [] \<and> p_suspend q = [] then Some (Normal (kDown, q)) else take_rest A seg q))"

lemma rest_simps [simp]:
  "exit_rest None = None" "exit_rest (Some UseAfterFree) = Some UseAfterFree"
  "exit_rest (Some (ExitThrown q)) = Some (ExitThrown (kDown, q))"
  "run_rest A seg None = None" "run_rest A seg (Some UseAfterFree) = Some UseAfterFree"
  "run_rest A seg (Some (ExitThrown q)) = exit_rest (exit_loop seg q)"
  by (simp_all add: exit_rest_def run_rest_def)

lemma run_loop_rest: "run_loop seg p =
    (if run_ready p then and_then (drain_spawn seg p) (\<lambda>q. Some (ExitThrown q))
       (\<lambda>q. and_then (drain_wakeup seg False q) (\<lambda>q. Some (ExitThrown q)) (\<lambda>q. run_loop seg (wake_inbox q)))
     else Some (Normal p))"
  by (subst run_loop.simps) (auto simp: and_then_def split: option.splits outcome.splits)

lemma proc_exit_rest: "exit_rest (exit_loop seg q) = and_then (proc_exit seg q)
    (\<lambda>q. Some (ExitThrown (kDown, q))) (\<lambda>q. Some (Normal (kDown, q)))"
  by (auto simp: exit_rest_def proc_exit_def and_then_def split: option.splits outcome.splits)

lemma proc_resume_rest: "proc_resume A seg p = run_rest A seg (run_loop seg p)"
  by (auto simp: proc_resume_def proc_dispatch_def proc_run_def run_rest_def proc_exit_rest take_rest_def and_then_def
      split: option.splits outcome.splits)

lemma proc_deliver_rest: "typeOfMessage msg = kNotify \<Longrightarrow> any_type (msg_content msg) = TypeKill \<Longrightarrow>
    proc_deliver seg msg p = exit_rest (exit_loop seg p)"
  by (simp add: proc_deliver_def proc_exit_rest and_then_def split: option.splits outcome.splits)

fun loop_rest where
  "loop_rest A seg (InLoop SpawnLoop) p = run_rest A seg (and_then (drain_spawn seg p) (\<lambda>q. Some (ExitThrown q))
     (\<lambda>q. and_then (drain_wakeup seg False q) (\<lambda>q. Some (ExitThrown q)) (\<lambda>q. run_loop seg (wake_inbox q))))"
| "loop_rest A seg (InLoop WakeupLoop) p =
     run_rest A seg (and_then (drain_wakeup seg False p) (\<lambda>q. Some (ExitThrown q)) (\<lambda>q. run_loop seg (wake_inbox q)))"
| "loop_rest A seg (InLoop ExitLoop) p = exit_rest (and_then (drain_wakeup seg True p) (\<lambda>q. Some (ExitThrown q)) (exit_loop seg))"
| "loop_rest A seg RunTest p = run_rest A seg (run_loop seg p)"
| "loop_rest A seg ExitTop p = exit_rest (exit_loop seg p)"
| "loop_rest A seg TakeMail p = take_rest A seg p"
| "loop_rest A seg (Delivering msg) p = proc_deliver seg msg p"
| "loop_rest A seg (Decided res) p = Some (Normal (res, p))"
| "loop_rest A seg (InCo loop co) p = None"

definition turn_rest where
  "turn_rest A seg pc p =
     (case pc of
        InCo loop co \<Rightarrow>
          (case seg co p of
             None \<Rightarrow> None
           | Some q \<Rightarrow> (case co_back loop co q of None \<Rightarrow> Some UseAfterFree | Some (pc', q') \<Rightarrow> loop_rest A seg pc' q'))
      | _ \<Rightarrow> loop_rest A seg pc p)"

lemma turn_rest_simps [simp]:
  "turn_rest A seg RunTest p = loop_rest A seg RunTest p"
  "turn_rest A seg (InLoop loop) p = loop_rest A seg (InLoop loop) p"
  "turn_rest A seg ExitTop p = loop_rest A seg ExitTop p"
  "turn_rest A seg TakeMail p = loop_rest A seg TakeMail p"
  "turn_rest A seg (Delivering msg) p = loop_rest A seg (Delivering msg) p"
  "turn_rest A seg (Decided res) p = loop_rest A seg (Decided res) p"
  by (simp_all add: turn_rest_def)

text \<open>\<open>resume_co\<close> is the switch to the coroutine, its segment, and what follows it.\<close>

lemma resume_co_back:
  "resume_co seg (loop = ExitLoop) co p =
    (if p_cos p co = None then Some UseAfterFree
     else case seg co p of
       None \<Rightarrow> None
     | Some q \<Rightarrow>
         (case co_back loop co q of
            None \<Rightarrow> Some UseAfterFree
          | Some (pc, q') \<Rightarrow> Some (if pc = InLoop loop then Normal q' else ExitThrown q')))"
  by (auto simp: resume_co_def co_back_def Let_def split: option.splits prod.splits sum.splits exn.splits)

lemma co_back_point: "co_back loop co q = Some (pc, q') \<Longrightarrow> pc = InLoop loop \<or> loop \<noteq> ExitLoop \<and> pc = ExitTop"
  by (auto simp: co_back_def Let_def split: option.splits prod.splits sum.splits exn.splits if_splits)

lemma resume_cos:
  "resume_co seg False co p = (if p_cos p co = None then Some UseAfterFree else case seg co p of None \<Rightarrow> None
    | Some q \<Rightarrow> (case co_back SpawnLoop co q of None \<Rightarrow> Some UseAfterFree
       | Some (pc, q') \<Rightarrow> Some (if pc = InLoop SpawnLoop then Normal q' else ExitThrown q')))"
  "resume_co seg False co p = (if p_cos p co = None then Some UseAfterFree else case seg co p of None \<Rightarrow> None
    | Some q \<Rightarrow> (case co_back WakeupLoop co q of None \<Rightarrow> Some UseAfterFree
       | Some (pc, q') \<Rightarrow> Some (if pc = InLoop WakeupLoop then Normal q' else ExitThrown q')))"
  "resume_co seg True co p = (if p_cos p co = None then Some UseAfterFree else case seg co p of None \<Rightarrow> None
    | Some q \<Rightarrow> (case co_back ExitLoop co q of None \<Rightarrow> Some UseAfterFree
       | Some (pc, q') \<Rightarrow> Some (if pc = InLoop ExitLoop then Normal q' else ExitThrown q')))"
  using resume_co_back [of seg SpawnLoop] resume_co_back [of seg WakeupLoop] resume_co_back [of seg ExitLoop] by simp_all

lemma spawn_loop_rest:
  "p_spawn p = co # cos \<Longrightarrow> p_cos p co \<noteq> None \<Longrightarrow>
    loop_rest A seg (InLoop SpawnLoop) p = turn_rest A seg (InCo SpawnLoop co) (p\<lparr>p_spawn := cos\<rparr>)"
  by (subst loop_rest.simps, subst drain_spawn.simps)
    (auto simp: turn_rest_def resume_cos(1) split: option.splits dest: co_back_point)

lemma wakeup_loop_rest:
  "p_wakeup p = co # cos \<Longrightarrow> p_cos p co \<noteq> None \<Longrightarrow>
    loop_rest A seg (InLoop WakeupLoop) p = turn_rest A seg (InCo WakeupLoop co) (p\<lparr>p_wakeup := cos\<rparr>)"
  by (subst loop_rest.simps, subst drain_wakeup.simps)
    (auto simp: turn_rest_def resume_cos(2) split: option.splits dest: co_back_point)

lemma exit_drain_rest:
  "p_wakeup p = co # cos \<Longrightarrow> p_cos p co \<noteq> None \<Longrightarrow>
    loop_rest A seg (InLoop ExitLoop) p = turn_rest A seg (InCo ExitLoop co) (p\<lparr>p_wakeup := cos\<rparr>)"
  by (subst loop_rest.simps, subst drain_wakeup.simps)
    (auto simp: turn_rest_def resume_cos(3) split: option.splits dest: co_back_point)

lemma exit_top_rest:
  "loop_rest A seg ExitTop p =
    (case interrupt_waiting p of
       Normal p1 \<Rightarrow> if p_wakeup p1 = [] then exit_rest (Some (Normal p1)) else loop_rest A seg (InLoop ExitLoop) p1
     | ExitThrown p1 \<Rightarrow> Some (ExitThrown (kDown, p1))
     | UseAfterFree \<Rightarrow> Some UseAfterFree)"
  by (subst loop_rest.simps, subst exit_loop.simps) (auto simp: exit_rest_def and_then_def split: outcome.splits option.splits)

lemma exit_rest_Normal: "exit_rest (Some (Normal p)) =
    and_then (Some (sweep_zombies (abandon_spawn p))) (\<lambda>q. Some (ExitThrown (kDown, q))) (\<lambda>q. Some (Normal (kDown, q)))"
  by (simp add: exit_rest_def)

lemma turn_next_rest:
  "turn_next A pc p = Some (pc', q) \<Longrightarrow> loop_rest A seg pc p = turn_rest A seg pc' q"
proof (induction A pc p rule: turn_next.induct)
  case (1 A p)
  then show ?case
    by (cases "run_ready p") (auto simp: run_loop_rest [of seg p] run_loop_rest [of seg q] run_rest_def [of A seg "Some (Normal p)"] split: outcome.splits)
next
  case (2 A p)
  show ?case
  proof (cases "p_spawn p")
    case Nil
    with 2 show ?thesis by (auto simp: drain_spawn.simps [of seg q])
  next
    case (Cons co cos)
    with 2 spawn_loop_rest [of p co cos A seg] show ?thesis
      by (auto simp: switch_to_def simp del: loop_rest.simps split: if_splits)
  qed
next
  case (3 A p)
  show ?case
  proof (cases "p_wakeup p")
    case Nil
    with 3 show ?thesis by (auto simp: drain_wakeup.simps [of seg False p])
  next
    case (Cons co cos)
    with 3 wakeup_loop_rest [of p co cos A seg] show ?thesis
      by (auto simp: switch_to_def simp del: loop_rest.simps split: if_splits)
  qed
next
  case (4 A p)
  show ?case
  proof (cases "p_wakeup p")
    case Nil
    with 4 show ?thesis by (auto simp: drain_wakeup.simps [of seg True q])
  next
    case (Cons co cos)
    with 4 exit_drain_rest [of p co cos A seg] show ?thesis
      by (auto simp: switch_to_def simp del: loop_rest.simps split: if_splits)
  qed
next
  case (5 A p)
  then show ?case
    by (auto simp: exit_top_rest exit_rest_Normal simp del: loop_rest.simps(3,5) split: outcome.splits if_splits)
next
  case (6 A p)
  then show ?case by (auto simp: take_rest_def split: prod.splits option.splits)
next
  case (7 A msg p)
  then show ?case
    by (auto simp: proc_deliver_rest split: MessageType.splits if_splits outcome.splits) (auto simp: proc_deliver_def)
qed simp_all

lemma turn_step_rest:
  assumes "turn_step A seg (pc, p) (pc', q)"
  shows "turn_rest A seg pc p = turn_rest A seg pc' q"
  using assms
proof cases
  case step_loop
  then have "loop_rest A seg pc p = turn_rest A seg pc' q" by (rule turn_next_rest)
  with step_loop show ?thesis by (cases pc) simp_all
next
  case (step_co co r loop)
  from co_back_point [OF step_co(3)] have "turn_rest A seg pc' q = loop_rest A seg pc' q" by auto
  with step_co show ?thesis by (simp add: turn_rest_def)
qed

lemma turn_steps_rest:
  assumes "(turn_step A seg)\<^sup>*\<^sup>* x y"
  shows "turn_rest A seg (fst x) (snd x) = turn_rest A seg (fst y) (snd y)"
  using assms
proof (induction rule: rtranclp_induct)
  case (step y z)
  with turn_step_rest [of A seg "fst y" "snd y" "fst z" "snd z"] show ?case by simp
qed simp

section \<open>From the turn to the steps\<close>

lemma step_to: "turn_next A pc p = Some y \<Longrightarrow> (turn_step A seg)\<^sup>*\<^sup>* y z \<Longrightarrow> (turn_step A seg)\<^sup>*\<^sup>* (pc, p) z"
  by (meson converse_rtranclp_into_rtranclp turn_step.step_loop)

text \<open>\<open>arrives\<close>: where a loop that ends with the outcome \<open>r\<close> leaves the program point.\<close>

fun arrives where
  "arrives A seg x pc (Normal q) = (turn_step A seg)\<^sup>*\<^sup>* x (pc, q)"
| "arrives A seg x pc (ExitThrown q) = (turn_step A seg)\<^sup>*\<^sup>* x (ExitTop, q)"
| "arrives A seg x pc UseAfterFree = True"

lemma arrives_trans: "(turn_step A seg)\<^sup>*\<^sup>* x y \<Longrightarrow> arrives A seg y pc r \<Longrightarrow> arrives A seg x pc r"
  by (cases r) auto

text \<open>One resumption.\<close>

lemma resume_arrives:
  assumes "turn_next A (InLoop loop) p = switch_to loop co p'" "resume_co seg (loop = ExitLoop) co p' = Some r"
  shows "arrives A seg (InLoop loop, p) (InLoop loop) r \<and> (loop = ExitLoop \<longrightarrow> (\<forall>q. r \<noteq> ExitThrown q))"
proof (cases "p_cos p' co = None")
  case True
  with assms(2) show ?thesis by (auto simp: resume_co_back)
next
  case False
  with assms(2) obtain q where q: "seg co p' = Some q" by (auto simp: resume_co_back split: option.splits)
  show ?thesis
  proof (cases "co_back loop co q")
    case None
    with assms(2) False q show ?thesis by (auto simp: resume_co_back)
  next
    case (Some x)
    obtain pc q' where x: "x = (pc, q')" by fastforce
    with assms(2) False q Some have r: "r = (if pc = InLoop loop then Normal q' else ExitThrown q')"
      by (simp add: resume_co_back)
    have "turn_next A (InLoop loop) p = Some (InCo loop co, p')" using assms(1) False by (simp add: switch_to_def)
    moreover have "turn_step A seg (InCo loop co, p') (pc, q')" using q Some x by (simp add: turn_step.step_co)
    ultimately have "(turn_step A seg)\<^sup>*\<^sup>* (InLoop loop, p) (pc, q')" by (auto intro: step_to)
    with r co_back_point Some x show ?thesis by fastforce
  qed
qed

lemma drain_spawn_arrives:
  assumes "drain_spawn seg p = Some r"
  shows "arrives A seg (InLoop SpawnLoop, p) (InLoop WakeupLoop) r"
proof (rule drain_spawn.raw_induct [OF _ assms, where P = "\<lambda>seg p r. arrives A seg (InLoop SpawnLoop, p) (InLoop WakeupLoop) r"])
  fix f seg p r
  assume IH: "\<And>seg p r. f seg p = Some r \<Longrightarrow> arrives A seg (InLoop SpawnLoop, p) (InLoop WakeupLoop) r"
    and eq: "(case p_spawn p of [] \<Rightarrow> Some (Normal p)
      | co # cos \<Rightarrow> (case resume_co seg False co (p\<lparr>p_spawn := cos\<rparr>) of None \<Rightarrow> None
        | Some r \<Rightarrow> (case r of Normal q \<Rightarrow> f seg q | ExitThrown q \<Rightarrow> Some (ExitThrown q)
          | UseAfterFree \<Rightarrow> Some UseAfterFree))) = Some r"
  show "arrives A seg (InLoop SpawnLoop, p) (InLoop WakeupLoop) r"
  proof (cases "p_spawn p")
    case Nil
    with eq show ?thesis by (auto intro!: step_to)
  next
    case (Cons co cos)
    with eq obtain r1 where r1: "resume_co seg False co (p\<lparr>p_spawn := cos\<rparr>) = Some r1" by (auto split: option.splits)
    have "arrives A seg (InLoop SpawnLoop, p) (InLoop SpawnLoop) r1"
      using resume_arrives [of A SpawnLoop p co "p\<lparr>p_spawn := cos\<rparr>" seg r1] Cons r1 by simp
    with IH eq Cons r1 show ?thesis by (cases r1) (auto intro: arrives_trans)
  qed
qed

text \<open>The loops over the coroutines that have been woken, in \<^verbatim>\<open>run\<close> and in \<^verbatim>\<open>exit\<close>.\<close>

abbreviation wake_loop :: "bool \<Rightarrow> loop" where
  "wake_loop exiting \<equiv> if exiting then ExitLoop else WakeupLoop"

abbreviation after_wake :: "bool \<Rightarrow> ('v, 'l, 'i, 'h) process \<Rightarrow> 'v turn_point \<times> ('v, 'l, 'i, 'h) process" where
  "after_wake exiting q \<equiv> if exiting then (ExitTop, q) else (RunTest, wake_inbox q)"

fun woken where
  "woken A seg x exiting (Normal q) = (turn_step A seg)\<^sup>*\<^sup>* x (after_wake exiting q)"
| "woken A seg x exiting (ExitThrown q) = (\<not> exiting \<and> (turn_step A seg)\<^sup>*\<^sup>* x (ExitTop, q))"
| "woken A seg x exiting UseAfterFree = True"

lemma woken_trans: "(turn_step A seg)\<^sup>*\<^sup>* x y \<Longrightarrow> woken A seg y e r \<Longrightarrow> woken A seg x e r"
  by (cases r) (auto split: if_splits)

lemma drain_wakeup_arrives:
  assumes "drain_wakeup seg exiting p = Some r"
  shows "woken A seg (InLoop (wake_loop exiting), p) exiting r"
proof (rule drain_wakeup.raw_induct [OF _ assms, where P = "\<lambda>seg exiting p r. woken A seg (InLoop (wake_loop exiting), p) exiting r"])
  fix f seg exiting p r
  assume IH: "\<And>seg exiting p r. f seg exiting p = Some r \<Longrightarrow> woken A seg (InLoop (wake_loop exiting), p) exiting r"
    and eq: "(case p_wakeup p of [] \<Rightarrow> Some (Normal p)
      | co # cos \<Rightarrow> (case resume_co seg exiting co (p\<lparr>p_wakeup := cos\<rparr>) of None \<Rightarrow> None
        | Some r \<Rightarrow> (case r of Normal q \<Rightarrow> f seg exiting q | ExitThrown q \<Rightarrow> Some (ExitThrown q)
          | UseAfterFree \<Rightarrow> Some UseAfterFree))) = Some r"
  show "woken A seg (InLoop (wake_loop exiting), p) exiting r"
  proof (cases "p_wakeup p")
    case Nil
    with eq show ?thesis by (auto intro!: step_to)
  next
    case (Cons co cos)
    let ?p = "p\<lparr>p_wakeup := cos\<rparr>"
    from Cons eq obtain r1 where r1: "resume_co seg exiting co ?p = Some r1" by (auto split: option.splits)
    have "arrives A seg (InLoop (wake_loop exiting), p) (InLoop (wake_loop exiting)) r1 \<and> (exiting \<longrightarrow> (\<forall>q. r1 \<noteq> ExitThrown q))"
      using resume_arrives [of A "wake_loop exiting" p co ?p seg r1] Cons r1 by (cases exiting) auto
    then show ?thesis
      using IH eq Cons r1 woken_trans [of A seg "(InLoop (wake_loop exiting), p)" "(InLoop (wake_loop exiting), _)" exiting r]
      by (cases r1) auto
  qed
qed

lemma run_loop_arrives:
  assumes "run_loop seg p = Some r"
  shows "case r of Normal q \<Rightarrow> (turn_step A seg)\<^sup>*\<^sup>* (RunTest, p) (RunTest, q) \<and> \<not> run_ready q
    | ExitThrown q \<Rightarrow> (turn_step A seg)\<^sup>*\<^sup>* (RunTest, p) (ExitTop, q) | UseAfterFree \<Rightarrow> True"
    (is "?P p r")
proof (rule run_loop.raw_induct [OF _ assms, where P = "\<lambda>s p r. s = seg \<longrightarrow> ?P p r", THEN mp], intro impI)
  fix f s p r
  assume IH: "\<And>s p r. f s p = Some r \<Longrightarrow> s = seg \<longrightarrow> ?P p r" and s: "s = seg"
    and eq: "(if \<not> run_ready p then Some (Normal p)
      else case drain_spawn s p of None \<Rightarrow> None
      | Some r1 \<Rightarrow> (case r1 of
          Normal p1 \<Rightarrow> (case drain_wakeup s False p1 of None \<Rightarrow> None
            | Some r2 \<Rightarrow> (case r2 of Normal p2 \<Rightarrow> f s (wake_inbox p2)
                | ExitThrown p2 \<Rightarrow> Some (ExitThrown p2) | UseAfterFree \<Rightarrow> Some UseAfterFree))
        | ExitThrown p1 \<Rightarrow> Some (ExitThrown p1) | UseAfterFree \<Rightarrow> Some UseAfterFree)) = Some r"
  show "?P p r"
  proof (cases "run_ready p")
    case True
    with eq s obtain r1 where r1: "drain_spawn seg p = Some r1" by (auto split: option.splits)
    have "turn_next A RunTest p = Some (InLoop SpawnLoop, p)" using True by simp
    from arrives_trans [OF step_to [OF this rtranclp.rtrancl_refl] drain_spawn_arrives [OF r1]]
    have a1: "arrives A seg (RunTest, p) (InLoop WakeupLoop) r1" .
    show ?thesis
    proof (cases r1)
      case (Normal p1)
      with True r1 eq s obtain r2 where r2: "drain_wakeup seg False p1 = Some r2" by (auto split: option.splits)
      from woken_trans [OF _ drain_wakeup_arrives [OF r2, of A]] a1 Normal
      have a2: "woken A seg (RunTest, p) False r2" by simp
      show ?thesis
      proof (cases r2)
        case (Normal p2)
        with True r1 eq \<open>r1 = Normal p1\<close> r2 s IH have "?P (wake_inbox p2) r" by simp
        with a2 Normal show ?thesis by (cases r) auto
      qed (use True r1 eq \<open>r1 = Normal p1\<close> r2 s a2 in auto)
    qed (use True r1 eq a1 s in auto)
  qed (use eq in auto)
qed simp

lemma exit_loop_arrives:
  assumes "exit_loop seg p = Some r"
  shows "case r of Normal q \<Rightarrow> \<exists>q0. (turn_step A seg)\<^sup>*\<^sup>* (ExitTop, p) (ExitTop, q0) \<and> interrupt_waiting q0 = Normal q \<and> p_wakeup q = []
    | ExitThrown q \<Rightarrow> False | UseAfterFree \<Rightarrow> True"
    (is "?P p r")
proof (rule exit_loop.raw_induct [OF _ assms, where P = "\<lambda>s p r. s = seg \<longrightarrow> ?P p r", THEN mp], intro impI)
  fix f s p r
  assume IH: "\<And>s p r. f s p = Some r \<Longrightarrow> s = seg \<longrightarrow> ?P p r" and s: "s = seg"
    and eq: "(case interrupt_waiting p of
        Normal p1 \<Rightarrow> (if p_wakeup p1 = [] then Some (Normal p1)
          else case drain_wakeup s True p1 of None \<Rightarrow> None
          | Some r \<Rightarrow> (case r of Normal p2 \<Rightarrow> f s p2
              | ExitThrown p2 \<Rightarrow> Some (ExitThrown p2) | UseAfterFree \<Rightarrow> Some UseAfterFree))
      | ExitThrown p1 \<Rightarrow> Some (ExitThrown p1) | UseAfterFree \<Rightarrow> Some UseAfterFree) = Some r"
  show "?P p r"
  proof (cases "interrupt_waiting p")
    case (Normal p1)
    show ?thesis
    proof (cases "p_wakeup p1 = []")
      case True
      with eq Normal show ?thesis by auto
    next
      case False
      with eq Normal s obtain r1 where r1: "drain_wakeup seg True p1 = Some r1" by (auto split: option.splits)
      have "turn_next A ExitTop p = Some (InLoop ExitLoop, p1)" using False Normal by simp
      from woken_trans [OF step_to [OF this rtranclp.rtrancl_refl] drain_wakeup_arrives [OF r1, of A, simplified]]
      have a: "woken A seg (ExitTop, p) True r1" .
      show ?thesis
      proof (cases r1)
        case (Normal p2)
        with eq False \<open>interrupt_waiting p = Normal p1\<close> r1 s IH have "?P p2 r" by simp
        with a Normal show ?thesis by (cases r) (auto intro: rtranclp_trans)
      qed (use eq False \<open>interrupt_waiting p = Normal p1\<close> r1 s a in auto)
    qed
  qed (use eq interrupt_waiting_not_thrown [of p] in auto)
qed simp

lemma exit_rest_arrives:
  assumes "exit_rest (exit_loop seg p) = Some (Normal (res, q))"
  shows "(turn_step A seg)\<^sup>*\<^sup>* (ExitTop, p) (Decided res, q)"
proof -
  obtain r where r: "exit_loop seg p = Some r" using assms by (cases "exit_loop seg p") auto
  show ?thesis
  proof (cases r)
    case (Normal p1)
    with exit_loop_arrives [OF r, of A] obtain q0 where q0: "(turn_step A seg)\<^sup>*\<^sup>* (ExitTop, p) (ExitTop, q0)"
      "interrupt_waiting q0 = Normal p1" "p_wakeup p1 = []" by auto
    from assms r Normal have "res = kDown" "sweep_zombies (abandon_spawn p1) = Normal q"
      by (auto simp: exit_rest_def and_then_def split: outcome.splits)
    with q0(2,3) have "turn_next A ExitTop q0 = Some (Decided res, q)" by simp
    from rtranclp_trans [OF q0(1) step_to [OF this rtranclp.rtrancl_refl]] show ?thesis .
  qed (use assms r exit_loop_arrives [OF r, of A] in auto)
qed

lemma take_rest_arrives:
  assumes "take_rest A seg p = Some (Normal (res, q))"
  shows "(turn_step A seg)\<^sup>*\<^sup>* (TakeMail, p) (Decided res, q)"
proof -
  obtain taken mb where t: "mailbox_take A (p_mailbox p) = (taken, mb)" by fastforce
  show ?thesis
  proof (cases taken)
    case None
    with assms t show ?thesis by (auto simp: take_rest_def intro!: step_to)
  next
    case (Some msg)
    let ?p = "p\<lparr>p_mailbox := mb\<rparr>"
    have d: "proc_deliver seg msg ?p = Some (Normal (res, q))" using assms t Some by (simp add: take_rest_def)
    have "(turn_step A seg)\<^sup>*\<^sup>* (Delivering msg, ?p) (Decided res, q)"
    proof (cases "typeOfMessage msg = kNotify \<and> any_type (msg_content msg) = TypeKill")
      case True
      with d have "exit_rest (exit_loop seg ?p) = Some (Normal (res, q))" by (simp add: proc_deliver_rest)
      from exit_rest_arrives [OF this, of A] True show ?thesis by (auto intro: step_to)
    next
      case False
      with d show ?thesis by (cases "typeOfMessage msg") (auto simp: proc_deliver_def intro!: step_to)
    qed
    with t Some show ?thesis by (auto intro: step_to)
  qed
qed

lemma turn_steps_iff:
  "(turn_step A seg)\<^sup>*\<^sup>* (RunTest, p) (Decided res, q) \<longleftrightarrow> proc_resume A seg p = Some (Normal (res, q))"
proof
  assume "(turn_step A seg)\<^sup>*\<^sup>* (RunTest, p) (Decided res, q)"
  from turn_steps_rest [OF this] show "proc_resume A seg p = Some (Normal (res, q))" by (simp add: proc_resume_rest)
next
  assume "proc_resume A seg p = Some (Normal (res, q))"
  then have t: "run_rest A seg (run_loop seg p) = Some (Normal (res, q))" by (simp add: proc_resume_rest)
  then obtain r where r: "run_loop seg p = Some r" by (cases "run_loop seg p") auto
  note a = run_loop_arrives [OF r, of A]
  show "(turn_step A seg)\<^sup>*\<^sup>* (RunTest, p) (Decided res, q)"
  proof (cases r)
    case (Normal p1)
    with a t r obtain p2 where p2: "sweep_zombies p1 = Normal p2"
      by (cases "sweep_zombies p1") (auto simp: run_rest_def sweep_zombies_def destroy_not_thrown split: outcome.splits)
    let ?pc = "if p_block p2 = [] \<and> p_suspend p2 = [] then Decided kDown else TakeMail"
    have "turn_next A RunTest p1 = Some (?pc, p2)" using a Normal p2 by simp
    moreover have "(turn_step A seg)\<^sup>*\<^sup>* (?pc, p2) (Decided res, q)"
      using t r Normal p2 take_rest_arrives [of A seg p2 res q] by (auto simp: run_rest_def split: if_splits)
    ultimately have "(turn_step A seg)\<^sup>*\<^sup>* (RunTest, p1) (Decided res, q)" by (rule step_to)
    with a Normal show ?thesis by auto
  next
    case (ExitThrown p1)
    with t r have "exit_rest (exit_loop seg p1) = Some (Normal (res, q))" by simp
    from exit_rest_arrives [OF this, of A] a ExitThrown show ?thesis by auto
  qed (use t r in auto)
qed


end
