(* ===== verification/Interleaving.thy ===== *)
theory Interleaving
  imports Runtime_Calls Turn_Steps
begin

text \<open>
  All workers at once. Each worker is at a program point of the turn it runs (\<open>Turn_Steps\<close>), or past
  it; coroutines call the runtime in the middle of a turn, and every other thread can act between
  any two steps: send to the process that runs, spawn, drop a reference. What \<open>Runtime_Spec\<close> shows of whole turns
  holds of these interleavings, and the whole turns are among them.
\<close>

section \<open>One step of a turn\<close>

fun in_coroutine :: "'v turn_point \<Rightarrow> co multiset" where
  "in_coroutine (InCo loop co) = {#co#}"
| "in_coroutine _ = {#}"

text \<open>Decisions and messages go with what the process still holds.\<close>

fun point_ok :: "'v turn_point \<Rightarrow> ('v, 'l, 'i, 'h) process \<Rightarrow> bool" where
  "point_ok (Decided res) q \<longleftrightarrow> (res = kDown \<longleftrightarrow> all_gone q)"
| "point_ok TakeMail q \<longleftrightarrow> \<not> all_gone q"
| "point_ok (Delivering msg) q \<longleftrightarrow> \<not> all_gone q"
| "point_ok _ q \<longleftrightarrow> True"

lemma point_ok_same: "point_ok pc q \<Longrightarrow> owned q' = owned q \<Longrightarrow> p_cos q' = p_cos q \<Longrightarrow> point_ok pc q'"
  by (cases pc) (simp_all add: all_gone_def)

lemma switch_to_ok:
  assumes "wf_owned {#co#} p"
  shows "switch_to loop co p = Some (InCo loop co, p)"
  using wf_allocated [OF assms, of co] by (simp add: switch_to_def)

lemma sweep_idle:
  assumes "wf_owned {#} p" "\<not> run_ready p"
  shows "\<exists>q. sweep_zombies p = Normal q \<and> wf_owned {#} q \<and> p_pid q = p_pid p \<and> p_mailbox q = p_mailbox p \<and>
    (p_block q = [] \<and> p_suspend q = [] \<longleftrightarrow> all_gone q)"
proof -
  obtain q where q: "sweep_zombies p = Normal q" "wf_owned {#} q"
    "q = p\<lparr>p_cos := (\<lambda>c. if c \<in> set (p_zombie p) then None else p_cos p c), p_zombie := []\<rparr>"
    using sweep_wf [OF assms(1)] by blast
  then have z: "p_zombie q = []" "p_spawn q = []" "p_wakeup q = []" using assms(2) by (simp_all add: run_ready_def)
  then have "all_gone q" if "p_block q = []" "p_suspend q = []"
    using that owned_empty [OF _ q(2)] by (simp add: owned_def)
  moreover have "p_block q = [] \<and> p_suspend q = []" if "all_gone q" using that z by (simp add: all_gone_def owned_def)
  ultimately show ?thesis using q by auto
qed

text \<open>
  Every step of the loops is defined, keeps ownership, and leaves identifier and mailbox alone, except for
  \<^verbatim>\<open>take\<close>; after it the deciding turn knows whether the process still has coroutines.
\<close>

lemma turn_next_ok:
  assumes "wf_owned {#} p" "point_ok pc p" "\<forall>loop co. pc \<noteq> InCo loop co" "\<forall>res. pc \<noteq> Decided res"
  shows "\<exists>pc' q. turn_next A pc p = Some (pc', q) \<and> wf_owned (in_coroutine pc') q \<and> point_ok pc' q \<and> p_pid q = p_pid p \<and>
    (if pc = TakeMail then p_mailbox q = snd (mailbox_take A (p_mailbox p)) \<and> (pc' = Decided kBreak \<longleftrightarrow> fst (mailbox_take A (p_mailbox p)) = None)
     else p_mailbox q = p_mailbox p \<and> pc' \<noteq> Decided kBreak)"
  using assms
proof (induction A pc p rule: turn_next.induct)
  case (1 A p)
  show ?case
  proof (cases "run_ready p")
    case False
    from sweep_idle [OF 1(1) False] obtain q where q: "sweep_zombies p = Normal q" "wf_owned {#} q" "p_pid q = p_pid p"
      "p_mailbox q = p_mailbox p" "p_block q = [] \<and> p_suspend q = [] \<longleftrightarrow> all_gone q" by blast
    with False show ?thesis by (cases "all_gone q") simp_all
  qed (use 1 in simp)
next
  case (2 A p)
  show ?case
  proof (cases "p_spawn p")
    case (Cons co cos)
    with wf_pop_spawn [OF 2(1) this] switch_to_ok show ?thesis by fastforce
  qed (use 2 in simp)
next
  case (3 A p)
  show ?case
  proof (cases "p_wakeup p")
    case Nil
    with wf_wake_inbox [OF 3(1)] show ?thesis by (simp add: same_mail)
  next
    case (Cons co cos)
    with wf_pop_wakeup [OF 3(1) this] switch_to_ok show ?thesis by fastforce
  qed
next
  case (4 A p)
  show ?case
  proof (cases "p_wakeup p")
    case (Cons co cos)
    with wf_pop_wakeup [OF 4(1) this] switch_to_ok show ?thesis by fastforce
  qed (use 4 in simp)
next
  case (5 A p)
  let ?p = "all_interrupted p"
  have i: "interrupt_waiting p = Normal ?p" by (rule interrupt_waiting_eq [OF 5(1)])
  note wf = all_interrupted_wf [OF 5(1)] and m = interrupt_waiting_mail [OF i]
  show ?case
  proof (cases "p_wakeup ?p = []")
    case True
    from sweep_wf [OF abandon_wf [OF wf]] obtain q where q: "sweep_zombies (abandon_spawn ?p) = Normal q" "wf_owned {#} q"
      "p_pid q = p_pid ?p" "p_mailbox q = p_mailbox ?p" by (auto simp: abandon_spawn_def)
    with sweep_abandoned [OF wf True] i m True show ?thesis by (auto simp: proc_simps)
  next
    case False
    with i m wf show ?thesis by simp
  qed
next
  case (6 A p)
  obtain taken mb where t: "mailbox_take A (p_mailbox p) = (taken, mb)" by fastforce
  have "wf_owned {#} (p\<lparr>p_mailbox := mb\<rparr>)" using 6(1) same_tables_ops(10) same_tables_wf by blast
  with 6(2) t show ?case by (cases taken) (auto simp: all_gone_def owned_def)
next
  case (7 A msg p)
  have same: "wf_owned {#} (inbox_push msg q) \<and> \<not> all_gone (inbox_push msg q)" if "same_tables p q" for q
    using that same_tables_wf [OF same_tables_trans [OF that same_tables_ops(11)] 7(1)] 7(2)
    by (simp add: all_gone_def owned_def inbox_push_def same_tables_def)
  show ?case
  proof (cases "typeOfMessage msg")
    case kRequest
    with same [OF same_tables_ops(12)] show ?thesis by (simp add: same_mail)
  next
    case kResponse
    from deliver_response_wf [OF 7(1), of msg] 7(2) obtain q where
      q: "deliver_response msg p = Normal (kResume, q)" "wf_owned {#} q" "\<not> all_gone q" by auto
    then have "p_pid q = p_pid p \<and> p_mailbox q = p_mailbox p"
      by (auto simp: deliver_response_def proc_unblock_def Let_def split: option.splits)
    with kResponse q show ?thesis by simp
  next
    case kNotify
    with same [of p] 7(1) show ?thesis by (auto simp: same_mail same_tables_def)
  qed
qed simp_all

text \<open>A coroutine that switches back leaves the loop at a point where none runs.\<close>

lemma co_back_ok:
  assumes "switch_back A I co p q" "wf_owned {#co#} p"
  shows "\<exists>pc r. co_back loop co q = Some (pc, r) \<and> wf_owned {#} r \<and> in_coroutine pc = {#} \<and> point_ok pc r \<and>
    p_pid r = p_pid q \<and> p_mailbox r = p_mailbox q"
proof -
  from switch_back_wf [OF assms] obtain c where c: "p_cos q co = Some c"
      "wf_owned (if co_exception c = None then {#} else {#co#}) q" by blast
  show ?thesis
  proof (cases "co_exception c")
    case None
    with c wf_heap [of "{#}" q co] show ?thesis by (auto simp: co_back_def get_result_def)
  next
    case (Some e)
    let ?q = "q\<lparr>p_cos := (p_cos q)(co := Some c)\<rparr>"
    have "wf_owned {#co#} ?q" using c Some wf_heap [of "{#co#}" q co c] by simp
    then have "wf_owned {#} (?q\<lparr>p_zombie := p_zombie ?q @ [co]\<rparr>)" by (rule wf_zombie)
    with c(1) Some show ?thesis by (cases e) (auto simp: co_back_def get_result_def Let_def)
  qed
qed

section \<open>Workers\<close>

text \<open>
  After the turn the worker acts on the decision (\<^verbatim>\<open>process::resume\<close>), drops the reference of the table if it has taken the
  process out of it (\<^verbatim>\<open>retire\<close>), and then the one of the queue.
\<close>

datatype 'v worker_point =
    InTurn "'v turn_point"
  | Retiring
  | Leaving

record ('v, 'l, 'i, 'h) workers =
  wk_runtime :: "('v, 'l, 'i, 'h) runtime"
  wk_held :: "addr multiset"
  wk_turns :: "(addr \<times> 'v worker_point) multiset"

definition worker_decide :: "ResumeResult \<Rightarrow> addr \<Rightarrow> ('v, 'l, 'i, 'h) runtime \<Rightarrow>
    ('v worker_point \<times> ('v, 'l, 'i, 'h) runtime) option" where
  "worker_decide res p s =
     (case res of
        kResume \<Rightarrow> map_option (Pair Leaving) (rt_sched_resume p s)
      | kDown \<Rightarrow>
          (case rt_procs s p of
             None \<Rightarrow> None
           | Some q \<Rightarrow> (case unreg (p_pid q) (rt_reg s) of (erased, r) \<Rightarrow>
               Some (if erased then Retiring else Leaving, s\<lparr>rt_reg := r\<rparr>)))
      | kBreak \<Rightarrow> Some (Leaving, s))"

definition set_point :: "addr \<Rightarrow> 'v worker_point \<Rightarrow> 'v worker_point \<Rightarrow> ('v, 'l, 'i, 'h) workers \<Rightarrow> ('v, 'l, 'i, 'h) workers" where
  "set_point p pt pt' w = w\<lparr>wk_turns := add_mset (p, pt') (wk_turns w - {#(p, pt)#})\<rparr>"

definition set_process :: "addr \<Rightarrow> ('v, 'l, 'i, 'h) process \<Rightarrow> ('v, 'l, 'i, 'h) workers \<Rightarrow> ('v, 'l, 'i, 'h) workers" where
  "set_process p q w = w\<lparr>wk_runtime := (wk_runtime w)\<lparr>rt_procs := (rt_procs (wk_runtime w))(p \<mapsto> q)\<rparr>\<rparr>"

inductive worker_step :: "('l, 'v message) append_ops \<Rightarrow> 'i alloc_ops \<Rightarrow>
    ('v, 'l, 'i, 'h) workers \<Rightarrow> ('v, 'l, 'i, 'h) workers \<Rightarrow> bool"
  for A :: "('l, 'v message) append_ops" and I :: "'i alloc_ops" where
  wk_spawned: "rg_heap (rt_reg (wk_runtime w)) p = None \<Longrightarrow>
    rg_map (rt_reg (wk_runtime w)) (rg_seq (rt_reg (wk_runtime w)) + 1) = None \<Longrightarrow>
    rt_spawn A p co ids (wk_runtime w) = Some (pid, t) \<Longrightarrow> worker_step A I w (w\<lparr>wk_runtime := t\<rparr>)"
| wk_found: "rt_find pid (wk_runtime w) = Some (Some p, t) \<Longrightarrow>
    worker_step A I w (w\<lparr>wk_runtime := t, wk_held := add_mset p (wk_held w)\<rparr>)"
| wk_pushed: "p \<in># wk_held w \<Longrightarrow> rt_push A p msg (wk_runtime w) = Some t \<Longrightarrow> worker_step A I w (w\<lparr>wk_runtime := t\<rparr>)"
| wk_dropped: "p \<in># wk_held w \<Longrightarrow> rt_tasks A self [UnrefTask p] (wk_runtime w) = Some (Some t) \<Longrightarrow>
    worker_step A I w (w\<lparr>wk_runtime := t, wk_held := wk_held w - {#p#}\<rparr>)"
| wk_sent: "rt_tasks A self [SendTask pid session content] (wk_runtime w) = Some (Some t) \<Longrightarrow>
    worker_step A I w (w\<lparr>wk_runtime := t\<rparr>)"
| wk_start: "rt_resumed (wk_runtime w) = p # ps \<Longrightarrow>
    worker_step A I w (w\<lparr>wk_runtime := (wk_runtime w)\<lparr>rt_resumed := ps\<rparr>, wk_turns := add_mset (p, InTurn RunTest) (wk_turns w)\<rparr>)"
| wk_loop: "(p, InTurn pc) \<in># wk_turns w \<Longrightarrow> rt_procs (wk_runtime w) p = Some q \<Longrightarrow> turn_next A pc q = Some (pc', q') \<Longrightarrow>
    worker_step A I w (set_process p q' (set_point p (InTurn pc) (InTurn pc') w))"
| wk_call: "(p, InTurn (InCo loop co)) \<in># wk_turns w \<Longrightarrow> rt_procs (wk_runtime w) p = Some q \<Longrightarrow> api A I co q q' \<Longrightarrow>
    worker_step A I w (set_process p q' w)"
| wk_back: "(p, InTurn (InCo loop co)) \<in># wk_turns w \<Longrightarrow> rt_procs (wk_runtime w) p = Some q \<Longrightarrow>
    switch_back A I co q q1 \<Longrightarrow> co_back loop co q1 = Some (pc', q') \<Longrightarrow>
    worker_step A I w (set_process p q' (set_point p (InTurn (InCo loop co)) (InTurn pc') w))"
| wk_decide: "(p, InTurn (Decided res)) \<in># wk_turns w \<Longrightarrow> worker_decide res p (wk_runtime w) = Some (pt, t) \<Longrightarrow>
    worker_step A I w ((set_point p (InTurn (Decided res)) pt w)\<lparr>wk_runtime := t\<rparr>)"
| wk_retire: "(p, Retiring) \<in># wk_turns w \<Longrightarrow> rt_tasks A (process_t 0) [UnrefTask p] (wk_runtime w) = Some (Some t) \<Longrightarrow>
    worker_step A I w ((set_point p Retiring Leaving w)\<lparr>wk_runtime := t\<rparr>)"
| wk_leave: "(p, Leaving) \<in># wk_turns w \<Longrightarrow> rt_tasks A (process_t 0) [UnrefTask p] (wk_runtime w) = Some (Some t) \<Longrightarrow>
    worker_step A I w (w\<lparr>wk_runtime := t, wk_turns := wk_turns w - {#(p, Leaving)#}\<rparr>)"

definition wk_init :: "('v, 'l, 'i, 'h) workers \<Rightarrow> bool" where
  "wk_init w \<longleftrightarrow> w = \<lparr>wk_runtime = runtime_start, wk_held = {#}, wk_turns = {#}\<rparr>"

section \<open>The invariant\<close>

text \<open>
  A worker counts as running its process until it has given up the turn, which \<^verbatim>\<open>take\<close> does when it finds
  nothing and raises the flag. It has the reference of the queue until it has left.
\<close>

fun running_turn :: "addr \<times> 'v worker_point \<Rightarrow> bool" where
  "running_turn (p, InTurn pc) \<longleftrightarrow> pc \<noteq> Decided kBreak"
| "running_turn (p, _) \<longleftrightarrow> False"

fun turn_refs :: "addr \<times> 'v worker_point \<Rightarrow> addr multiset" where
  "turn_refs (p, Retiring) = {#p, p#}"
| "turn_refs (p, _) = {#p#}"

fun turn_coroutine :: "addr \<Rightarrow> addr \<times> 'v worker_point \<Rightarrow> co multiset" where
  "turn_coroutine a (p, InTurn pc) = (if p = a then in_coroutine pc else {#})"
| "turn_coroutine a (p, _) = {#}"

definition active :: "(addr \<times> 'v worker_point) multiset \<Rightarrow> addr multiset" where
  "active T = image_mset fst (filter_mset running_turn T)"

definition refs_of :: "(addr \<times> 'v worker_point) multiset \<Rightarrow> addr multiset" where
  "refs_of T = sum_mset (image_mset turn_refs T)"

definition running_at :: "(addr \<times> 'v worker_point) multiset \<Rightarrow> addr \<Rightarrow> co multiset" where
  "running_at T a = sum_mset (image_mset (turn_coroutine a) T)"

lemma turns_add [simp]:
  "active (add_mset x T) = (if running_turn x then add_mset (fst x) (active T) else active T)"
  "refs_of (add_mset x T) = turn_refs x + refs_of T"
  "running_at (add_mset x T) a = turn_coroutine a x + running_at T a"
  "active {#} = {#}" "refs_of {#} = {#}" "running_at {#} a = {#}"
  by (simp_all add: active_def refs_of_def running_at_def)

lemma running_past [simp]:
  "running_at (add_mset (p, Leaving) T) = running_at T"
  "running_at (add_mset (p, Retiring) T) = running_at T"
  "in_coroutine pc = {#} \<Longrightarrow> running_at (add_mset (p, InTurn pc) T) = running_at T"
  "running_at {#} = between"
  by (simp_all add: fun_eq_iff)

lemma active_refs: "active T \<subseteq># refs_of T"
proof (induction T)
  case (add x T)
  have "(if running_turn x then {#fst x#} else {#}) \<subseteq># turn_refs x" by (cases x rule: turn_refs.cases) auto
  from subset_mset.add_mono [OF this add] show ?case by (auto split: if_splits)
qed simp

lemma no_turn_no_coroutine: "p \<notin># active T \<Longrightarrow> running_at T p = {#}"
proof (induction T)
  case (add x T)
  then show ?case by (cases "(p, x)" rule: turn_coroutine.cases) (auto split: if_splits)
qed simp

definition wk_inv :: "('l \<Rightarrow> 'v message list \<Rightarrow> bool) \<Rightarrow> ('v, 'l, 'i, 'h) workers \<Rightarrow> bool" where
  "wk_inv rep w \<longleftrightarrow>
     rt_inv rep (running_at (wk_turns w)) (active (wk_turns w)) (wk_held w + refs_of (wk_turns w)) (wk_runtime w) \<and>
     (\<forall>p pc q. (p, InTurn pc) \<in># wk_turns w \<longrightarrow> pc \<noteq> Decided kBreak \<longrightarrow> rt_procs (wk_runtime w) p = Some q \<longrightarrow> point_ok pc q)"

lemma turn_held: "(p, pt) \<in># T \<Longrightarrow> p \<in># refs_of T"
  by (drule multi_member_split) (cases "(p, pt)" rule: turn_refs.cases; auto)

lemma turn_active: "(p, InTurn pc) \<in># T \<Longrightarrow> pc \<noteq> Decided kBreak \<Longrightarrow> p \<in># active T"
  by (drule multi_member_split) auto

text \<open>A process in a turn: it is there, nobody else runs it, its flag is down.\<close>

lemma turn_process:
  assumes inv: "wk_inv rep w" and t: "wk_turns w = add_mset (p, InTurn pc) T" and pc: "pc \<noteq> Decided kBreak"
  shows "\<exists>q. rt_procs (wk_runtime w) p = Some q \<and> rg_map (rt_reg (wk_runtime w)) (pid_value (p_pid q)) = Some p \<and>
    \<not> mb_wait (p_mailbox q) \<and> idle_empty rep q \<and> wf_owned (in_coroutine pc) q \<and> point_ok pc q \<and>
    p \<notin># active T \<and> running_at T p = {#} \<and> p \<notin> set (rt_resumed (wk_runtime w))"
proof -
  let ?s = "wk_runtime w" and ?C = "running_at (wk_turns w)" and ?R = "active (wk_turns w)"
  have ri: "rt_inv rep ?C ?R (wk_held w + refs_of (wk_turns w)) ?s" using inv by (simp add: wk_inv_def)
  have "rg_heap (rt_reg ?s) p \<noteq> None" using rt_inv_held [OF ri] t by simp
  from rt_invE [OF ri this] obtain ob q where q: "rt_procs ?s p = Some q"
    "proc_ok rep ?C ?R (wk_held w + refs_of (wk_turns w)) (rt_reg ?s) (rt_resumed ?s) p ob q" by metis
  then have n: "count (mset (rt_resumed ?s)) p + count (active T) p + 1 + of_bool (mb_wait (p_mailbox q)) =
      (of_bool (registered (rt_reg ?s) p (p_pid q)) :: nat)"
    using t pc by (simp add: proc_ok_def)
  then have c: "count (mset (rt_resumed ?s)) p = 0" "count (active T) p = 0" "\<not> mb_wait (p_mailbox q)"
    "registered (rt_reg ?s) p (p_pid q)"
    by (simp_all add: of_bool_def split: if_splits)
  then have a: "p \<notin># active T" by (simp add: count_eq_zero_iff)
  note r = no_turn_no_coroutine [OF a]
  have "wf_owned (in_coroutine pc) q" "idle_empty rep q" using q(2) r t by (simp_all add: proc_ok_def)
  moreover have "point_ok pc q" using inv t pc q(1) by (simp add: wk_inv_def)
  ultimately show ?thesis using q(1) c a r by (simp add: registered_def)
qed

text \<open>One step of a turn.\<close>

lemma turn_moves:
  assumes inv: "wk_inv rep w" and t: "(p, InTurn pc) \<in># wk_turns w" and pc: "pc \<noteq> Decided kBreak"
    and q: "rt_procs (wk_runtime w) p = Some q"
    and q': "p_pid q' = p_pid q" "wf_owned (in_coroutine pc') q'" "idle_empty rep q'" "point_ok pc' q'"
      "mb_wait (p_mailbox q') \<longleftrightarrow> pc' = Decided kBreak"
  shows "wk_inv rep (set_process p q' (set_point p (InTurn pc) (InTurn pc') w))"
proof -
  let ?s = "wk_runtime w" and ?T = "wk_turns w - {#(p, InTurn pc)#}" and ?H = "wk_held w + refs_of (wk_turns w)"
  let ?T' = "add_mset (p, InTurn pc') ?T"
  have T: "wk_turns w = add_mset (p, InTurn pc) ?T" using t by simp
  from turn_process [OF inv T pc] q have f: "\<not> mb_wait (p_mailbox q)" "p \<notin># active ?T" "running_at ?T p = {#}" by auto
  have ri: "rt_inv rep (running_at (wk_turns w)) (active (wk_turns w)) ?H ?s" using inv by (simp add: wk_inv_def)
  have "p \<in># active (wk_turns w)" using pc by (subst T) simp
  then have "mb_wait (p_mailbox q') \<longrightarrow> mb_wait (p_mailbox q) \<or> p \<in># active (wk_turns w)" by blast
  from rt_replace_inv [OF ri q q'(1-3) this] f(1) have "rt_inv rep ((running_at (wk_turns w))(p := in_coroutine pc'))
      (running_after p False (mb_wait (p_mailbox q')) (active (wk_turns w))) ?H (?s\<lparr>rt_procs := (rt_procs ?s)(p \<mapsto> q')\<rparr>)" by simp
  moreover have "(running_at (wk_turns w))(p := in_coroutine pc') = running_at ?T'"
    using f(3) by (subst T) (auto simp: fun_eq_iff)
  moreover have "running_after p False (mb_wait (p_mailbox q')) (active (wk_turns w)) = active ?T'"
    using q'(5) pc by (subst T) (simp add: running_after_def)
  moreover have "?H = wk_held w + refs_of ?T'" by (subst T) simp
  ultimately have "rt_inv rep (running_at ?T') (active ?T') (wk_held w + refs_of ?T') (?s\<lparr>rt_procs := (rt_procs ?s)(p \<mapsto> q')\<rparr>)"
    by simp
  moreover have "point_ok pc1 q1" if "(a, InTurn pc1) \<in># ?T'" "pc1 \<noteq> Decided kBreak"
    "((rt_procs ?s)(p \<mapsto> q')) a = Some q1" for a pc1 q1
  proof (cases "(a, InTurn pc1) = (p, InTurn pc')")
    case False
    then have m: "(a, InTurn pc1) \<in># ?T" using that(1) by auto
    then have "a \<in># active ?T" using that(2) by (rule turn_active)
    then have "a \<noteq> p" using f(2) by blast
    with m that(2,3) inv show ?thesis by (auto simp: wk_inv_def dest: in_diffD)
  qed (use that(3) q'(4) in simp)
  ultimately show ?thesis by (auto simp: wk_inv_def set_process_def set_point_def)
qed

section \<open>Calls from other threads\<close>

definition tables_kept :: "('v, 'l, 'i, 'h) runtime \<Rightarrow> ('v, 'l, 'i, 'h) runtime \<Rightarrow> bool" where
  "tables_kept s t \<longleftrightarrow> (\<forall>a q'. rt_procs t a = Some q' \<longrightarrow> (\<exists>q. rt_procs s a = Some q \<and> same_tables q q'))"

lemma tables_kept_refl: "rt_procs t = rt_procs s \<Longrightarrow> tables_kept s t"
  by (simp add: tables_kept_def same_tables_def)

lemma tables_kept_trans: "tables_kept s t \<Longrightarrow> tables_kept t u \<Longrightarrow> tables_kept s u"
  unfolding tables_kept_def by (metis same_tables_trans)

lemma find_tables: "rt_find pid s = Some (found, t) \<Longrightarrow> tables_kept s t"
  by (rule tables_kept_refl) (auto simp: rt_find_def)

lemma resume_tables: "rt_sched_resume p s = Some t \<Longrightarrow> tables_kept s t"
  by (rule tables_kept_refl) (auto simp: rt_sched_resume_def split: option.splits)

lemma push_tables:
  assumes "rt_push A p msg s = Some t"
  shows "tables_kept s t"
proof -
  obtain q where q: "rt_procs s p = Some q"
    using assms by (auto simp: rt_push_def rt_append_def with_proc_def split: bind_splits option.splits)
  let ?s = "s\<lparr>rt_procs := (rt_procs s)(p \<mapsto> pushed A msg q)\<rparr>"
  have "tables_kept s ?s" using q by (auto simp: tables_kept_def same_tables_def pushed_def)
  moreover have "tables_kept ?s t"
    using assms rt_push_eq [OF q, of A msg] resume_tables [of p ?s t] by (auto simp: Let_def tables_kept_refl split: if_splits)
  ultimately show ?thesis by (rule tables_kept_trans)
qed

lemma tasks_tables:
  assumes "rt_tasks A self tasks s = Some r"
  shows "r = Some t \<longrightarrow> tables_kept s t"
proof (rule rt_tasks.raw_induct [OF _ assms, where P = "\<lambda>A self tasks s r. r = Some t \<longrightarrow> tables_kept s t"], intro impI)
  fix f A self tasks s r
  assume IH: "\<And>A self tasks s r. f A self tasks s = Some r \<Longrightarrow> r = Some t \<longrightarrow> tables_kept s t" and r: "r = Some t"
    and eq: "(case tasks of [] \<Rightarrow> Some (Some s)
      | task # rest \<Rightarrow> (case task of
          SendTask pid session content \<Rightarrow> (case rt_find pid s of None \<Rightarrow> Some None
            | Some (found, s1) \<Rightarrow> (case found of None \<Rightarrow> f A self rest s1
              | Some p \<Rightarrow> (case rt_push A p (message_create self session content) s1 of None \<Rightarrow> Some None
                | Some s2 \<Rightarrow> f A self (UnrefTask p # rest) s2)))
        | UnrefTask p \<Rightarrow> (case unref p (rt_reg s) of None \<Rightarrow> Some None
            | Some r \<Rightarrow> if rg_heap r p \<noteq> None then f A self rest (s\<lparr>rt_reg := r\<rparr>)
              else (case rt_procs s p of None \<Rightarrow> Some None
                | Some q \<Rightarrow> (case proc_destructor A q of None \<Rightarrow> None
                  | Some aborts \<Rightarrow> f A self (map abort_task aborts @ rest)
                      (s\<lparr>rt_reg := r, rt_procs := (rt_procs s)(p := None)\<rparr>)))))) = Some r"
  show "tables_kept s t"
  proof (cases tasks)
    case Nil
    with eq r show ?thesis by (simp add: tables_kept_refl)
  next
    case (Cons task rest)
    have gone: "tables_kept s (s\<lparr>rt_reg := g, rt_procs := (rt_procs s)(p := None)\<rparr>)" for g p
      by (auto simp: tables_kept_def same_tables_def)
    have reg: "tables_kept s (s\<lparr>rt_reg := g\<rparr>)" for g by (simp add: tables_kept_refl)
    show ?thesis
    proof (cases task)
      case (SendTask pid session content)
      with eq Cons r obtain found s1 where f: "rt_find pid s = Some (found, s1)" by (cases "rt_find pid s") auto
      show ?thesis
      proof (cases found)
        case None
        with eq Cons SendTask f IH r find_tables [OF f] show ?thesis by (auto intro: tables_kept_trans)
      next
        case (Some p)
        with eq Cons SendTask f r obtain s2 where s2: "rt_push A p (message_create self session content) s1 = Some s2"
          by (cases "rt_push A p (message_create self session content) s1") auto
        with eq Cons SendTask f Some IH r have "tables_kept s2 t" by simp
        with find_tables [OF f] push_tables [OF s2] show ?thesis by (blast intro: tables_kept_trans)
      qed
    next
      case (UnrefTask p)
      with eq Cons r obtain g where g: "unref p (rt_reg s) = Some g" by (cases "unref p (rt_reg s)") auto
      show ?thesis
      proof (cases "rg_heap g p = None")
        case False
        with eq Cons UnrefTask g IH r have "tables_kept (s\<lparr>rt_reg := g\<rparr>) t" by simp
        with reg show ?thesis by (rule tables_kept_trans)
      next
        case True
        with eq Cons UnrefTask g r obtain q where q: "rt_procs s p = Some q" by (cases "rt_procs s p") auto
        with eq Cons UnrefTask g True r obtain aborts where "proc_destructor A q = Some aborts"
          by (cases "proc_destructor A q") auto
        with eq Cons UnrefTask g True q IH r have "tables_kept (s\<lparr>rt_reg := g, rt_procs := (rt_procs s)(p := None)\<rparr>) t" by simp
        with gone show ?thesis by (rule tables_kept_trans)
      qed
    qed
  qed
qed

text \<open>What other threads do leaves the turns where they are.\<close>

lemma wk_inv_runtime:
  assumes inv: "wk_inv rep w" and ri: "rt_inv rep (running_at T) (active T) (H + refs_of T) t"
    and kept: "\<And>a q'. a \<in># refs_of T \<Longrightarrow> rt_procs t a = Some q' \<Longrightarrow> \<exists>q. rt_procs (wk_runtime w) a = Some q \<and> same_tables q q'"
    and T: "\<And>p pc. (p, InTurn pc) \<in># T \<Longrightarrow> (p, InTurn pc) \<in># wk_turns w \<or> pc = RunTest"
  shows "wk_inv rep \<lparr>wk_runtime = t, wk_held = H, wk_turns = T\<rparr>"
proof -
  have "point_ok pc q'" if h: "(p, InTurn pc) \<in># T" "pc \<noteq> Decided kBreak" "rt_procs t p = Some q'" for p pc q'
  proof (cases "pc = RunTest")
    case False
    obtain q where q: "rt_procs (wk_runtime w) p = Some q" "same_tables q q'" using kept [OF turn_held [OF h(1)] h(3)] by blast
    with inv h(2) T [OF h(1)] False have "point_ok pc q" by (auto simp: wk_inv_def)
    with point_ok_same [of pc q q'] q(2) show ?thesis by (simp add: same_tables_def owned_def)
  qed simp
  with ri show ?thesis by (auto simp: wk_inv_def)
qed

lemma wk_inv_kept:
  assumes "wk_inv rep w" "rt_inv rep (running_at (wk_turns w)) (active (wk_turns w)) (H + refs_of (wk_turns w)) t"
    "tables_kept (wk_runtime w) t"
  shows "wk_inv rep (w\<lparr>wk_runtime := t, wk_held := H\<rparr>)"
  using wk_inv_runtime [OF assms(1,2)] assms(3) by (cases w) (auto simp: tables_kept_def)

text \<open>The end of a turn: the decision, and the references that are dropped.\<close>

lemma decide_ok:
  assumes inv: "wk_inv rep w" and t: "(p, InTurn (Decided res)) \<in># wk_turns w"
  shows "\<exists>pt t. worker_decide res p (wk_runtime w) = Some (pt, t) \<and>
    wk_inv rep ((set_point p (InTurn (Decided res)) pt w)\<lparr>wk_runtime := t\<rparr>)"
proof -
  let ?s = "wk_runtime w" and ?T = "wk_turns w - {#(p, InTurn (Decided res))#}"
  have T: "wk_turns w = add_mset (p, InTurn (Decided res)) ?T" using t by simp
  have ri: "rt_inv rep (running_at (wk_turns w)) (active (wk_turns w)) (wk_held w + refs_of (wk_turns w)) ?s"
    using inv by (simp add: wk_inv_def)
  have C: "running_at (wk_turns w) = running_at ?T"
    "active (wk_turns w) = (if res = kBreak then active ?T else add_mset p (active ?T))"
    "refs_of (wk_turns w) = {#p#} + refs_of ?T"
    by (subst T, simp)+
  have decided: "\<exists>pt t. worker_decide res p (wk_runtime w) = Some (pt, t) \<and>
      wk_inv rep ((set_point p (InTurn (Decided res)) pt w)\<lparr>wk_runtime := t\<rparr>)"
    if "worker_decide res p ?s = Some (pt, t)" "pt = Leaving \<or> pt = Retiring"
      "rt_inv rep (running_at ?T) (active ?T) (wk_held w + (turn_refs (p, pt) + refs_of ?T)) t" "tables_kept ?s t" for pt t
  proof -
    have "wk_inv rep \<lparr>wk_runtime = t, wk_held = wk_held w, wk_turns = add_mset (p, pt) ?T\<rparr>"
      using that(2-4) by (intro wk_inv_runtime [OF inv]) (auto simp: tables_kept_def dest: in_diffD)
    with that(1) show ?thesis by (cases w) (auto simp: set_point_def)
  qed
  show ?thesis
  proof (cases res)
    case kResume
    then have "rt_inv rep (running_at ?T) (add_mset p (active ?T)) (wk_held w + ({#p#} + refs_of ?T)) ?s"
      using ri by (simp add: C)
    from rt_sched_resume_inv [OF this] obtain t where "rt_sched_resume p ?s = Some t"
      "rt_inv rep (running_at ?T) (active ?T) (wk_held w + ({#p#} + refs_of ?T)) t" by auto
    with kResume decided [of Leaving t] resume_tables show ?thesis by (auto simp: worker_decide_def)
  next
    case kDown
    then have r1: "rt_inv rep (running_at ?T) (add_mset p (active ?T)) (add_mset p (wk_held w + refs_of ?T)) ?s"
      using ri by (simp add: C)
    obtain q where q: "rt_procs ?s p = Some q"
      using turn_process [OF inv T] kDown by auto
    from unreg_inv [OF r1 q] obtain r where "unreg (p_pid q) (rt_reg ?s) = (True, r)"
      "rt_inv rep (running_at ?T) (active ?T) (wk_held w + ({#p, p#} + refs_of ?T)) (?s\<lparr>rt_reg := r\<rparr>)" by auto
    with kDown q decided [of Retiring "?s\<lparr>rt_reg := r\<rparr>"] show ?thesis by (auto simp: worker_decide_def tables_kept_refl)
  next
    case kBreak
    then have "rt_inv rep (running_at ?T) (active ?T) (wk_held w + ({#p#} + refs_of ?T)) ?s"
      using ri by (simp add: C)
    with kBreak decided [of Leaving ?s] show ?thesis by (auto simp: worker_decide_def tables_kept_refl)
  qed
qed

lemma unref_ok:
  assumes A: "append_list A (\<lambda>_ _. True) rep" and inv: "wk_inv rep w"
    and ri: "rt_inv rep (running_at T) (active T) (H + refs_of T + {#p#}) (wk_runtime w)"
    and T: "\<And>p pc. (p, InTurn pc) \<in># T \<Longrightarrow> (p, InTurn pc) \<in># wk_turns w"
  shows "\<exists>t. rt_tasks A self [UnrefTask p] (wk_runtime w) = Some (Some t) \<and>
    wk_inv rep \<lparr>wk_runtime = t, wk_held = H, wk_turns = T\<rparr>"
proof -
  from rt_tasks_return [OF A, of _ _ "H + refs_of T" "[UnrefTask p]" "wk_runtime w" self] ri obtain t where
    t: "rt_tasks A self [UnrefTask p] (wk_runtime w) = Some (Some t)"
      "rt_inv rep (running_at T) (active T) (H + refs_of T) t" by auto
  have "tables_kept (wk_runtime w) t" using tasks_tables [OF t(1)] by simp
  then have "wk_inv rep \<lparr>wk_runtime = t, wk_held = H, wk_turns = T\<rparr>"
    using T by (intro wk_inv_runtime [OF inv t(2)]) (auto simp: tables_kept_def)
  with t(1) show ?thesis by blast
qed

lemma leave_ok:
  assumes A: "append_list A (\<lambda>_ _. True) rep" and inv: "wk_inv rep w" and t: "(p, pt) \<in># wk_turns w"
  shows "pt = Leaving \<Longrightarrow> \<exists>t. rt_tasks A self [UnrefTask p] (wk_runtime w) = Some (Some t) \<and>
      wk_inv rep (w\<lparr>wk_runtime := t, wk_turns := wk_turns w - {#(p, Leaving)#}\<rparr>)"
    "pt = Retiring \<Longrightarrow> \<exists>t. rt_tasks A self [UnrefTask p] (wk_runtime w) = Some (Some t) \<and>
      wk_inv rep ((set_point p Retiring Leaving w)\<lparr>wk_runtime := t\<rparr>)"
proof -
  let ?T = "wk_turns w - {#(p, pt)#}"
  have T: "wk_turns w = add_mset (p, pt) ?T" using t by simp
  have ri: "rt_inv rep (running_at (wk_turns w)) (active (wk_turns w)) (wk_held w + refs_of (wk_turns w)) (wk_runtime w)"
    using inv by (simp add: wk_inv_def)
  {
    assume pt: "pt = Leaving"
    then have "rt_inv rep (running_at ?T) (active ?T) (wk_held w + refs_of ?T + {#p#}) (wk_runtime w)"
      using ri by (subst (asm) T, subst (asm) T, subst (asm) T) simp
    from unref_ok [OF A inv this, of self] pt show "\<exists>t. rt_tasks A self [UnrefTask p] (wk_runtime w) = Some (Some t) \<and>
      wk_inv rep (w\<lparr>wk_runtime := t, wk_turns := wk_turns w - {#(p, Leaving)#}\<rparr>)"
      by (cases w) (auto dest: in_diffD)
  next
    assume pt: "pt = Retiring"
    then have "rt_inv rep (running_at (add_mset (p, Leaving) ?T)) (active (add_mset (p, Leaving) ?T))
        (wk_held w + refs_of (add_mset (p, Leaving) ?T) + {#p#}) (wk_runtime w)"
      using ri by (subst (asm) T, subst (asm) T, subst (asm) T) simp
    from unref_ok [OF A inv this, of self] pt show "\<exists>t. rt_tasks A self [UnrefTask p] (wk_runtime w) = Some (Some t) \<and>
      wk_inv rep ((set_point p Retiring Leaving w)\<lparr>wk_runtime := t\<rparr>)"
      by (cases w) (auto simp: set_point_def dest: in_diffD)
  }
qed

text \<open>What \<^verbatim>\<open>take\<close> does to the flag, and what the calls of the running coroutine keep.\<close>

lemma loop_ok:
  assumes A: "append_list A (\<lambda>_ _. True) rep" and inv: "wk_inv rep w" and t: "(p, InTurn pc) \<in># wk_turns w"
    and pc: "\<forall>loop co. pc \<noteq> InCo loop co" "\<forall>res. pc \<noteq> Decided res"
  shows "\<exists>q pc' q'. rt_procs (wk_runtime w) p = Some q \<and> turn_next A pc q = Some (pc', q') \<and>
    wk_inv rep (set_process p q' (set_point p (InTurn pc) (InTurn pc') w))"
proof -
  have b: "pc \<noteq> Decided kBreak" using pc(2) by blast
  from turn_process [OF inv insert_DiffM [OF t, symmetric] b] obtain q where q: "rt_procs (wk_runtime w) p = Some q"
    "\<not> mb_wait (p_mailbox q)" "idle_empty rep q" "wf_owned (in_coroutine pc) q" "point_ok pc q" by blast
  have "in_coroutine pc = {#}" using pc(1) by (cases pc) simp_all
  with turn_next_ok [OF _ q(5) pc, of A] q(4) obtain pc' q' where q': "turn_next A pc q = Some (pc', q')"
    "wf_owned (in_coroutine pc') q'" "point_ok pc' q'" "p_pid q' = p_pid q"
    "if pc = TakeMail then p_mailbox q' = snd (mailbox_take A (p_mailbox q)) \<and>
       (pc' = Decided kBreak \<longleftrightarrow> fst (mailbox_take A (p_mailbox q)) = None)
     else p_mailbox q' = p_mailbox q \<and> pc' \<noteq> Decided kBreak" by metis
  have m: "idle_empty rep q' \<and> (mb_wait (p_mailbox q') \<longleftrightarrow> pc' = Decided kBreak)"
  proof (cases "pc = TakeMail")
    case True
    obtain ws where ws: "rep (mb_write (p_mailbox q)) ws" using q(3) by (auto simp: idle_empty_def boxed_def)
    obtain taken mb where k: "mailbox_take A (p_mailbox q) = (taken, mb)" by fastforce
    show ?thesis
    proof (cases taken)
      case None
      with append_list.take_none [OF A ws] k have "mb_read mb = [] \<and> mb_wait mb \<and> rep (mb_write mb) []" by auto
      with q'(5) True k None show ?thesis by (auto simp: idle_empty_def boxed_def)
    next
      case (Some msg)
      with append_list.take_some [OF A ws] k q(2) q'(5) True show ?thesis by (auto simp: idle_empty_def boxed_def)
    qed
  qed (use q(2,3) q'(5) in \<open>simp add: idle_empty_def boxed_def\<close>)
  from turn_moves [OF inv t b q(1) q'(4,2) _ q'(3)] m q(1) q'(1) show ?thesis by blast
qed

lemma mail_idle: "mail_kept rep p q \<Longrightarrow> \<not> mb_wait (p_mailbox p) \<Longrightarrow> idle_empty rep p \<Longrightarrow>
    p_pid q = p_pid p \<and> \<not> mb_wait (p_mailbox q) \<and> idle_empty rep q"
  by (auto simp: mail_kept_def idle_empty_def)

lemma set_point_same: "(p, pt) \<in># wk_turns w \<Longrightarrow> set_point p pt pt w = w"
  by (simp add: set_point_def)

lemma call_ok:
  assumes A: "append_list A (\<lambda>_ _. True) rep" and inv: "wk_inv rep w" and t: "(p, InTurn (InCo loop co)) \<in># wk_turns w"
    and q: "rt_procs (wk_runtime w) p = Some q" and c: "api A I co q q'"
  shows "wk_inv rep (set_process p q' w)"
proof -
  from turn_process [OF inv insert_DiffM [OF t, symmetric]] q have f: "\<not> mb_wait (p_mailbox q)" "idle_empty rep q"
    "wf_owned {#co#} q" by auto
  have "wf_owned {#co#} q'" using api_frame [OF c f(3)] by simp
  with mail_idle [OF api_mail [OF A c] f(1,2)] turn_moves [OF inv t _ q, of q' "InCo loop co"] show ?thesis
    by (simp add: set_point_same [OF t])
qed

lemma back_ok:
  assumes A: "append_list A (\<lambda>_ _. True) rep" and inv: "wk_inv rep w" and t: "(p, InTurn (InCo loop co)) \<in># wk_turns w"
    and q: "rt_procs (wk_runtime w) p = Some q" and c: "switch_back A I co q q1"
  shows "\<exists>pc' q'. co_back loop co q1 = Some (pc', q') \<and>
    wk_inv rep (set_process p q' (set_point p (InTurn (InCo loop co)) (InTurn pc') w))"
proof -
  from turn_process [OF inv insert_DiffM [OF t, symmetric]] q have f: "\<not> mb_wait (p_mailbox q)" "idle_empty rep q"
    "wf_owned {#co#} q" by auto
  from co_back_ok [OF c f(3), of loop] obtain pc' q' where q': "co_back loop co q1 = Some (pc', q')" "wf_owned {#} q'"
    "in_coroutine pc' = {#}" "point_ok pc' q'" "p_pid q' = p_pid q1" "p_mailbox q' = p_mailbox q1" by blast
  have m: "p_pid q1 = p_pid q" "\<not> mb_wait (p_mailbox q1)" "idle_empty rep q1"
    using mail_idle [OF switch_back_mail [OF A c] f(1,2)] by simp_all
  have "pc' \<noteq> Decided kBreak" using co_back_point [OF q'(1)] by auto
  with turn_moves [OF inv t _ q, of q' pc'] q' m show ?thesis by (simp add: idle_empty_def boxed_def)
qed

section \<open>Every interleaving\<close>

lemma spawned_ok:
  assumes A: "append_list A (\<lambda>_ _. True) rep" and inv: "wk_inv rep w"
    and fresh: "rg_heap (rt_reg (wk_runtime w)) p = None"
      "rg_map (rt_reg (wk_runtime w)) (rg_seq (rt_reg (wk_runtime w)) + 1) = None"
    and t: "rt_spawn A p co ids (wk_runtime w) = Some (pid, t)"
  shows "wk_inv rep (w\<lparr>wk_runtime := t\<rparr>)"
proof -
  let ?T = "wk_turns w" and ?H = "wk_held w + refs_of (wk_turns w)"
  have ri: "rt_inv rep (running_at ?T) (active ?T) ?H (wk_runtime w)" using inv by (simp add: wk_inv_def)
  have n: "p \<notin># refs_of ?T" using rt_inv_held [OF ri, of p] fresh(1) by auto
  then have "p \<notin># active ?T" using mset_subset_eqD [OF active_refs, of p ?T] by (rule contrapos_nn)
  from rt_spawn_inv [OF A ri fresh this no_turn_no_coroutine [OF this], of co ids] obtain t' where
    "rt_spawn A p co ids (wk_runtime w) = Some (process_t (rg_seq (rt_reg (wk_runtime w)) + 1), t')"
    "rt_inv rep (running_at ?T) (active ?T) ?H t'" by (elim exE conjE)
  with t have "rt_inv rep (running_at ?T) (active ?T) ?H t" by simp
  moreover have "rt_procs t a = rt_procs (wk_runtime w) a" if "a \<in># refs_of ?T" for a
    using t that n by (auto simp: rt_spawn_def create_def reg_def Let_def rt_sched_resume_def ref_def split: option.splits)
  ultimately have "wk_inv rep \<lparr>wk_runtime = t, wk_held = wk_held w, wk_turns = ?T\<rparr>"
    by (intro wk_inv_runtime [OF inv]) (auto simp: same_tables_def)
  then show ?thesis by (cases w) simp
qed

lemma worker_step_inv:
  assumes A: "append_list A (\<lambda>_ _. True) rep" and inv: "wk_inv rep w" and st: "worker_step A I w w'"
  shows "wk_inv rep w'"
proof -
  let ?T = "wk_turns w" and ?H = "wk_held w + refs_of (wk_turns w)"
  have ri: "rt_inv rep (running_at ?T) (active ?T) ?H (wk_runtime w)" using inv by (simp add: wk_inv_def)
  from st show ?thesis
  proof cases
    case (wk_spawned p co ids pid t)
    with spawned_ok [OF A inv] show ?thesis by simp
  next
    case (wk_found pid p t)
    from rt_find_inv [OF ri, of pid] wk_found(2) find_tables [OF wk_found(2)] show ?thesis
      by (auto simp: wk_found(1) intro!: wk_inv_kept [OF inv])
  next
    case (wk_pushed p msg t)
    from wk_pushed(2) have "p \<in># ?H" by simp
    from rt_push_inv [OF A ri this, of msg] wk_pushed(3) push_tables [OF wk_pushed(3)] wk_inv_kept [OF inv, of "wk_held w" t]
    show ?thesis by (cases w) (auto simp: wk_pushed(1))
  next
    case (wk_dropped p self t)
    have h: "?H = wk_held w - {#p#} + refs_of ?T + {#p#}" using wk_dropped(2) by simp
    have "rt_inv rep (running_at ?T) (active ?T) (wk_held w - {#p#} + refs_of ?T + {#p#}) (wk_runtime w)"
      by (subst h [symmetric]) (rule ri)
    from unref_ok [OF A inv this, of self] wk_dropped(1,3) show ?thesis by (cases w) auto
  next
    case (wk_sent self pid session content t)
    have "rt_inv rep (running_at ?T) (active ?T) ?H t"
      using rt_tasks_return [OF A, of _ _ ?H "[SendTask pid session content]" "wk_runtime w" self] ri wk_sent(2) by auto
    moreover have "tables_kept (wk_runtime w) t" using tasks_tables [OF wk_sent(2)] by simp
    ultimately show ?thesis using wk_inv_kept [OF inv, of "wk_held w" t] wk_sent(1) by (cases w) simp
  next
    case (wk_start p ps)
    have "rt_inv rep (running_at (add_mset (p, InTurn RunTest) ?T)) (active (add_mset (p, InTurn RunTest) ?T))
        (wk_held w + refs_of (add_mset (p, InTurn RunTest) ?T)) ((wk_runtime w)\<lparr>rt_resumed := ps\<rparr>)"
      using rt_dequeue_inv [OF ri wk_start(2)] by simp
    from wk_inv_runtime [OF inv this] wk_start(1) show ?thesis by (cases w) (auto simp: same_tables_def)
  next
    case (wk_loop p pc q pc' q')
    have "\<forall>loop co. pc \<noteq> InCo loop co" "\<forall>res. pc \<noteq> Decided res" using wk_loop(4) by auto
    with loop_ok [OF A inv wk_loop(2)] wk_loop(1,3,4) show ?thesis by fastforce
  next
    case (wk_call p loop co q q')
    with call_ok [OF A inv] show ?thesis by simp
  next
    case (wk_back p loop co q q1 pc' q')
    with back_ok [OF A inv wk_back(2-4)] show ?thesis by auto
  next
    case (wk_decide p res pt t)
    with decide_ok [OF inv wk_decide(2)] show ?thesis by auto
  next
    case (wk_retire p t)
    with leave_ok(2) [OF A inv wk_retire(2), of "process_t 0"] show ?thesis by auto
  next
    case (wk_leave p t)
    with leave_ok(1) [OF A inv wk_leave(2), of "process_t 0"] show ?thesis by auto
  qed
qed

lemma wk_inv_init: "wk_init w \<Longrightarrow> wk_inv rep w"
  using rt_inv_init [of rep] by (simp add: wk_init_def wk_inv_def)

lemma workers_contract:
  "append_list A (\<lambda>_ _. True) rep \<Longrightarrow> invariant_contract wk_init (worker_step A I) (wk_inv rep)"
  by unfold_locales (auto intro: wk_inv_init worker_step_inv)

lemmas wk_reach_inv = invariant_contract.inv_reach [OF workers_contract]

section \<open>Whole turns are interleavings\<close>

lemma reach_steps: "R\<^sup>*\<^sup>* s t \<Longrightarrow> reach I R s \<Longrightarrow> reach I R t"
  by (induction rule: rtranclp_induct) (auto intro: reach_step)

definition turn_at :: "addr \<Rightarrow> ('v, 'l, 'i, 'h) runtime \<Rightarrow> addr multiset \<Rightarrow> 'v turn_point \<times> ('v, 'l, 'i, 'h) process \<Rightarrow>
    ('v, 'l, 'i, 'h) workers" where
  "turn_at p s H x = \<lparr>wk_runtime = s\<lparr>rt_procs := (rt_procs s)(p \<mapsto> snd x)\<rparr>, wk_held = H, wk_turns = {#(p, InTurn (fst x))#}\<rparr>"

lemma api_workers:
  "(api A I co)\<^sup>*\<^sup>* q q' \<Longrightarrow> (worker_step A I)\<^sup>*\<^sup>* (turn_at p s H (InCo loop co, q)) (turn_at p s H (InCo loop co, q'))"
proof (induction rule: rtranclp_induct)
  case (step q1 q2)
  have "worker_step A I (turn_at p s H (InCo loop co, q1)) (set_process p q2 (turn_at p s H (InCo loop co, q1)))"
    by (rule worker_step.wk_call [OF _ _ step.hyps(2)]) (simp_all add: turn_at_def)
  also have "set_process p q2 (turn_at p s H (InCo loop co, q1)) = turn_at p s H (InCo loop co, q2)"
    by (simp add: turn_at_def set_process_def)
  finally show ?case using step.IH by (rule rtranclp.rtrancl_into_rtrancl [rotated])
qed simp

lemma turn_next_co: "turn_next A pc p = Some (InCo loop co, q) \<Longrightarrow> p_cos q co \<noteq> None"
  by (induction A pc p rule: turn_next.induct)
    (auto simp: switch_to_def split: list.splits if_splits outcome.splits prod.splits option.splits MessageType.splits)

definition co_there :: "'v turn_point \<times> ('v, 'l, 'i, 'h) process \<Rightarrow> bool" where
  "co_there x \<longleftrightarrow> (case fst x of InCo loop co \<Rightarrow> p_cos (snd x) co \<noteq> None | _ \<Rightarrow> True)"

lemma turn_step_workers:
  assumes "turn_step A seg x y" "honest A I seg" "co_there x"
  shows "(worker_step A I)\<^sup>*\<^sup>* (turn_at p s H x) (turn_at p s H y) \<and> co_there y"
  using assms(1)
proof cases
  case (step_loop pc q)
  obtain pc' q' where y: "y = (pc', q')" by fastforce
  have "worker_step A I (turn_at p s H x) (set_process p q' (set_point p (InTurn pc) (InTurn pc') (turn_at p s H x)))"
    by (rule worker_step.wk_loop [of _ pc]) (use step_loop y in \<open>simp_all add: turn_at_def\<close>)
  also have "set_process p q' (set_point p (InTurn pc) (InTurn pc') (turn_at p s H x)) = turn_at p s H y"
    using step_loop(1) y by (simp add: turn_at_def set_process_def set_point_def)
  finally show ?thesis using step_loop(2) y turn_next_co [of A pc q] by (auto simp: co_there_def split: turn_point.splits)
next
  case (step_co co q q1 loop)
  then have "segment A I co q q1" using assms(2,3) by (auto simp: honest_def co_there_def)
  then obtain q0 where q0: "(api A I co)\<^sup>*\<^sup>* q q0" "switch_back A I co q0 q1" by (auto simp: segment_def)
  obtain pc' q' where y: "y = (pc', q')" by fastforce
  let ?w = "turn_at p s H (InCo loop co, q0)"
  have "worker_step A I ?w (set_process p q' (set_point p (InTurn (InCo loop co)) (InTurn pc') ?w))"
    by (rule worker_step.wk_back [OF _ _ q0(2)]) (use step_co(3) y in \<open>simp_all add: turn_at_def\<close>)
  also have "set_process p q' (set_point p (InTurn (InCo loop co)) (InTurn pc') ?w) = turn_at p s H y"
    using y by (simp add: turn_at_def set_process_def set_point_def)
  finally have "(worker_step A I)\<^sup>*\<^sup>* (turn_at p s H x) (turn_at p s H y)"
    using api_workers [OF q0(1), of p s H loop] step_co(1) by simp
  with co_back_point [of loop co q1 pc' q'] step_co(3) y show ?thesis by (auto simp: co_there_def)
qed

lemma turn_steps_workers:
  assumes "(turn_step A seg)\<^sup>*\<^sup>* x y" "honest A I seg" "co_there x"
  shows "(worker_step A I)\<^sup>*\<^sup>* (turn_at p s H x) (turn_at p s H y) \<and> co_there y"
  using assms(1)
proof (induction rule: rtranclp_induct)
  case (step y z)
  with turn_step_workers [OF step.hyps(2) assms(2), of p s H] show ?case by auto
qed (simp add: assms(3))

lemma leave_step:
  assumes "rt_tasks A (process_t 0) [UnrefTask p] s = Some (Some t)"
  shows "worker_step A I \<lparr>wk_runtime = s, wk_held = H, wk_turns = {#(p, Leaving)#}\<rparr> \<lparr>wk_runtime = t, wk_held = H, wk_turns = {#}\<rparr>"
  using worker_step.wk_leave [of p "\<lparr>wk_runtime = s, wk_held = H, wk_turns = {#(p, Leaving)#}\<rparr>" A t I] assms by simp

lemma decide_step:
  assumes "worker_decide res p (s\<lparr>rt_procs := (rt_procs s)(p \<mapsto> q)\<rparr>) = Some (pt, t)"
  shows "worker_step A I (turn_at p s H (Decided res, q)) \<lparr>wk_runtime = t, wk_held = H, wk_turns = {#(p, pt)#}\<rparr>"
  using worker_step.wk_decide [of p res "turn_at p s H (Decided res, q)" pt t A I] assms by (simp add: turn_at_def set_point_def)

text \<open>The end of \<^verbatim>\<open>process::resume\<close> after a decision, from \<open>resume_process\<close>.\<close>

lemma decision_workers:
  assumes A: "append_list A (\<lambda>_ _. True) rep"
    and inv: "rt_inv rep between (if res = kBreak then {#} else {#p#}) (add_mset p H) (s\<lparr>rt_procs := (rt_procs s)(p \<mapsto> q)\<rparr>)"
    and old: "rt_procs s p = Some q0" "proc_resume A seg q0 = Some (Normal (res, q))"
    and t: "resume_process A seg p s = Some (Some t)"
  shows "(worker_step A I)\<^sup>*\<^sup>* (turn_at p s H (Decided res, q)) \<lparr>wk_runtime = t, wk_held = H, wk_turns = {#}\<rparr>"
proof -
  let ?s = "s\<lparr>rt_procs := (rt_procs s)(p \<mapsto> q)\<rparr>"
  have direct: ?thesis if "worker_decide res p ?s = Some (Leaving, s2)" "rt_tasks A (process_t 0) [UnrefTask p] s2 = Some (Some t)" for s2
    using decide_step [OF that(1), of A I H] leave_step [OF that(2), of I H] by (rule converse_rtranclp_into_rtranclp [OF _ r_into_rtranclp])
  show ?thesis
  proof (cases res)
    case kResume
    with t old obtain s2 where "rt_sched_resume p ?s = Some s2" "rt_tasks A (process_t 0) [UnrefTask p] s2 = Some (Some t)"
      by (auto simp: resume_process_def Let_def split: option.splits)
    with kResume direct [of s2] show ?thesis by (simp add: worker_decide_def)
  next
    case kBreak
    with t old have "rt_tasks A (process_t 0) [UnrefTask p] ?s = Some (Some t)" by (simp add: resume_process_def Let_def)
    with kBreak direct [of ?s] show ?thesis by (simp add: worker_decide_def)
  next
    case kDown
    with inv have "rt_inv rep between (add_mset p {#}) (add_mset p H) ?s" by simp
    from unreg_inv [OF this, of q] obtain r where r: "unreg (p_pid q) (rt_reg s) = (True, r)"
      "rt_inv rep between {#} (add_mset p (add_mset p H)) (?s\<lparr>rt_reg := r\<rparr>)" by auto
    from rt_unref_inv [OF r(2)] obtain r1 where r1: "unref p r = Some r1" "rg_heap r1 p \<noteq> None"
      by (auto split: if_splits)
    from t old kDown r(1) have two: "rt_tasks A (process_t 0) [UnrefTask p, UnrefTask p] (?s\<lparr>rt_reg := r\<rparr>) = Some (Some t)"
      by (simp add: resume_process_def Let_def)
    let ?s1 = "?s\<lparr>rt_reg := r1\<rparr>"
    from two r1 have one: "rt_tasks A (process_t 0) [UnrefTask p] ?s1 = Some (Some t)"
      by (subst (asm) rt_tasks.simps) simp
    have first: "rt_tasks A (process_t 0) [UnrefTask p] (?s\<lparr>rt_reg := r\<rparr>) = Some (Some ?s1)"
      using r1 by (simp add: rt_tasks.simps)
    have "worker_step A I (turn_at p s H (Decided res, q)) \<lparr>wk_runtime = ?s\<lparr>rt_reg := r\<rparr>, wk_held = H, wk_turns = {#(p, Retiring)#}\<rparr>"
      by (rule decide_step) (use kDown r(1) in \<open>simp add: worker_decide_def\<close>)
    moreover have "worker_step A I \<lparr>wk_runtime = ?s\<lparr>rt_reg := r\<rparr>, wk_held = H, wk_turns = {#(p, Retiring)#}\<rparr>
        \<lparr>wk_runtime = ?s1, wk_held = H, wk_turns = {#(p, Leaving)#}\<rparr>"
      using worker_step.wk_retire [of p "\<lparr>wk_runtime = ?s\<lparr>rt_reg := r\<rparr>, wk_held = H, wk_turns = {#(p, Retiring)#}\<rparr>" A ?s1 I] first
      by (simp add: set_point_def)
    ultimately show ?thesis
      using leave_step [OF one, of I H] by (meson converse_rtranclp_into_rtranclp rtranclp.rtrancl_refl)
  qed
qed

lemma start_step:
  assumes "rt_resumed s = p # ps" "rt_procs s p = Some q"
  shows "worker_step A I \<lparr>wk_runtime = s, wk_held = H, wk_turns = {#}\<rparr> (turn_at p (s\<lparr>rt_resumed := ps\<rparr>) H (RunTest, q))"
proof -
  have "s\<lparr>rt_resumed := ps, rt_procs := (rt_procs s)(p \<mapsto> q)\<rparr> = s\<lparr>rt_resumed := ps\<rparr>"
    using assms(2) by (simp add: fun_upd_idem)
  with worker_step.wk_start [of "\<lparr>wk_runtime = s, wk_held = H, wk_turns = {#}\<rparr>" p ps A I] assms(1) show ?thesis
    by (simp add: turn_at_def)
qed

lemma whole_turn_workers:
  assumes A: "append_list A (\<lambda>_ _. True) rep" and h: "honest A I seg" and inv: "rt_inv rep between {#} H s"
    and p: "rt_resumed s = p # ps" and t: "resume_process A seg p (s\<lparr>rt_resumed := ps\<rparr>) = Some (Some t)"
  shows "(worker_step A I)\<^sup>*\<^sup>* \<lparr>wk_runtime = s, wk_held = H, wk_turns = {#}\<rparr> \<lparr>wk_runtime = t, wk_held = H, wk_turns = {#}\<rparr>"
proof -
  let ?s = "s\<lparr>rt_resumed := ps\<rparr>"
  have inv0: "rt_inv rep between {#p#} (add_mset p H) ?s" using rt_dequeue_inv [OF inv p] by simp
  have "rg_heap (rt_reg ?s) p \<noteq> None" using rt_inv_held [OF inv0] by simp
  from rt_invE [OF inv0 this] obtain q where q: "rt_procs ?s p = Some q" by metis
  obtain out where out: "proc_resume A seg q = Some out" using t q by (auto simp: resume_process_def split: option.splits)
  from turn_inv [OF A h inv0 q out] obtain res q1 where q1: "out = Normal (res, q1)"
    "rt_inv rep between (if res = kBreak then {#} else {#p#}) (add_mset p H) (?s\<lparr>rt_procs := (rt_procs ?s)(p \<mapsto> q1)\<rparr>)" by blast
  have "worker_step A I \<lparr>wk_runtime = s, wk_held = H, wk_turns = {#}\<rparr> (turn_at p ?s H (RunTest, q))"
    using p q by (intro start_step) simp_all
  moreover have "(worker_step A I)\<^sup>*\<^sup>* (turn_at p ?s H (RunTest, q)) (turn_at p ?s H (Decided res, q1))"
    using turn_steps_workers [of A seg "(RunTest, q)" "(Decided res, q1)" I p ?s H] h out q1(1)
      turn_steps_iff [of A seg q res q1] by (simp add: co_there_def)
  moreover have "(worker_step A I)\<^sup>*\<^sup>* (turn_at p ?s H (Decided res, q1)) \<lparr>wk_runtime = t, wk_held = H, wk_turns = {#}\<rparr>"
    by (rule decision_workers [OF A q1(2) q _ t]) (use out q1(1) in simp)
  ultimately show ?thesis by (meson converse_rtranclp_into_rtranclp rtranclp_trans)
qed

lemma turns_are_interleavings:
  assumes A: "append_list A (\<lambda>_ _. True) rep" and r: "reach rt_init (rt_step A I) (s, H)"
  shows "reach wk_init (worker_step A I) \<lparr>wk_runtime = s, wk_held = H, wk_turns = {#}\<rparr>"
proof -
  let ?w = "\<lambda>sh. \<lparr>wk_runtime = fst sh, wk_held = snd sh, wk_turns = {#}\<rparr>"
  have "reach wk_init (worker_step A I) (?w sh)" if "reach rt_init (rt_step A I) sh" for sh
    using that
  proof induction
    case (reach_init sh)
    then show ?case by (auto simp: rt_init_def wk_init_def intro: reach.reach_init)
  next
    case (reach_step sh th)
    have inv: "rt_inv rep between {#} (snd sh) (fst sh)" using rt_reach_inv [OF A, of I "fst sh" "snd sh"] reach_step.hyps(1) by simp
    from reach_step.hyps(2) have "(worker_step A I)\<^sup>*\<^sup>* (?w sh) (?w th)"
    proof cases
      case (rt_turn s p ps seg t H)
      with whole_turn_workers [OF A _ _ rt_turn(3) rt_turn(5), of I H] inv show ?thesis by simp
    next
      case (rt_spawned s p co ids pid t H)
      with worker_step.wk_spawned [of "?w sh" p A co ids pid t I] show ?thesis by (simp add: r_into_rtranclp)
    next
      case (rt_found pid s p t H)
      with worker_step.wk_found [of pid "?w sh" p t A I] show ?thesis by (simp add: r_into_rtranclp)
    next
      case (rt_pushed p H msg s t)
      with worker_step.wk_pushed [of p "?w sh" A msg t I] show ?thesis by (simp add: r_into_rtranclp)
    next
      case (rt_dropped p H self s t)
      with worker_step.wk_dropped [of p "?w sh" A self t I] show ?thesis by (simp add: r_into_rtranclp)
    next
      case (rt_sent self pid session content s t H)
      with worker_step.wk_sent [of A self pid session content "?w sh" t I] show ?thesis by (simp add: r_into_rtranclp)
    qed
    from reach_steps [OF this reach_step.IH] show ?case .
  qed
  from this [OF r] show ?thesis by simp
qed

section \<open>What holds of every interleaving\<close>

lemma in_coroutine_process:
  assumes "wk_inv rep w" "(p, InTurn pc) \<in># wk_turns w" "pc \<noteq> Decided kBreak"
  obtains q where "rt_procs (wk_runtime w) p = Some q" "wf_owned (in_coroutine pc) q" "point_ok pc q"
    "\<not> mb_wait (p_mailbox q)"
  using turn_process [OF assms(1) insert_DiffM [OF assms(2), symmetric] assms(3)] by blast


text \<open>For the witnesses: a worker that has switched to the first coroutine of the first process.\<close>

lemma small_workers:
  "\<exists>(w :: (nat, nat message list, nat, nat) workers) q. reach wk_init (worker_step queue_ops small_ops) w \<and>
    wk_turns w = {#(7, InTurn (InCo SpawnLoop 3))#} \<and> rt_procs (wk_runtime w) 7 = Some q"
proof -
  from small_history obtain s :: "(nat, nat message list, nat, nat) runtime" where
    s: "reach rt_init (rt_step queue_ops small_ops) (s, {#})" "rt_resumed s = [7]"
      "rt_procs s = [7 \<mapsto> proc_create 3 (process_t 1) (mailbox_new queue_ops) 0]" by blast
  let ?p = "proc_create 3 (process_t 1) (mailbox_new queue_ops) 0 :: (nat, nat message list, nat, nat) process"
  let ?s = "s\<lparr>rt_resumed := []\<rparr>" and ?q = "?p\<lparr>p_spawn := []\<rparr>"
  have n: "turn_next queue_ops RunTest ?p = Some (InLoop SpawnLoop, ?p)"
    "turn_next queue_ops (InLoop SpawnLoop) ?p = Some (InCo SpawnLoop 3, ?q)"
    by (simp_all add: run_ready_def proc_create_def proc_spawn_def proc_new_def switch_to_def)
  have "worker_step queue_ops small_ops \<lparr>wk_runtime = s, wk_held = {#}, wk_turns = {#}\<rparr> (turn_at 7 ?s {#} (RunTest, ?p))"
    using s(2,3) by (intro start_step) simp_all
  from reach_step [OF turns_are_interleavings [OF queue_append_list s(1)] this]
  have r: "reach wk_init (worker_step queue_ops small_ops) (turn_at 7 ?s {#} (RunTest, ?p))" .
  have "(turn_step queue_ops finishing)\<^sup>*\<^sup>* (RunTest, ?p) (InCo SpawnLoop 3, ?q)"
    using n by (blast intro: step_to)
  from turn_steps_workers [OF this honest_finishing, of small_ops 7 ?s "{#}"]
  have "(worker_step queue_ops small_ops)\<^sup>*\<^sup>* (turn_at 7 ?s {#} (RunTest, ?p)) (turn_at 7 ?s {#} (InCo SpawnLoop 3, ?q))"
    by (simp add: co_there_def)
  from reach_steps [OF this r] show ?thesis
    by (intro exI [of _ "turn_at 7 ?s {#} (InCo SpawnLoop 3, ?q)"] exI [of _ ?q]) (simp add: turn_at_def)
qed




end
