(* ===== verification/Echo.thy ===== *)
theory Echo
  imports Io
begin

text \<open>
  The echo server of \<^verbatim>\<open>examples/echo/server.cpp\<close>: what the process of a connection does with the
  loops of \<open>Io\<close>, and what the client gets back.
\<close>

section \<open>The process of a connection\<close>

fun load_bytes :: "nat \<Rightarrow> nat \<Rightarrow> memory \<Rightarrow> byte list" where
  "load_bytes buf 0 mem = []"
| "load_bytes buf (Suc n) mem = mem buf # load_bytes (buf + 1) n mem"

text \<open>It ends with the first error of a read or of a write; printing it is left out.\<close>

partial_function (option) echo_loop :: "'w io_ops \<Rightarrow> nat \<Rightarrow> memory \<Rightarrow> 'w \<Rightarrow> (io_err \<times> memory \<times> 'w) option" where
  "echo_loop R buf mem w =
     (case io_read R buf 1024 mem w of
        None \<Rightarrow> None
      | Some (rd, mem1, w1) \<Rightarrow>
          (case rd of (n, err) \<Rightarrow>
             if err \<noteq> NoError then Some (err, mem1, w1)
             else (case io_write R (load_bytes buf n mem1) w1 of
                     None \<Rightarrow> None
                   | Some (wr, w2) \<Rightarrow>
                       (case wr of (_, err1) \<Rightarrow> if err1 \<noteq> NoError then Some (err1, mem1, w2) else echo_loop R buf mem1 w2))))"

section \<open>What it relies on\<close>

text \<open>The two directions of a connection do not disturb each other.\<close>

definition duplex_contract :: "'w io_ops \<Rightarrow> ('w \<Rightarrow> byte list) \<Rightarrow> ('w \<Rightarrow> byte list) \<Rightarrow> ('w \<Rightarrow> nat) \<Rightarrow> ('w \<Rightarrow> nat) \<Rightarrow> bool" where
  "duplex_contract R incoming sent rpatience wpatience \<longleftrightarrow>
     stream_contract R incoming rpatience \<and> sink_contract R sent wpatience \<and>
     (\<forall>len w. sent (snd (io_Read R len w)) = sent w) \<and> (\<forall>w. sent (io_wait R kRead w) = sent w) \<and>
     (\<forall>data w. incoming (snd (io_Write R data w)) = incoming w) \<and> (\<forall>w. incoming (io_wait R kWrite w) = incoming w)"

lemma duplexD:
  assumes "duplex_contract R incoming sent rpatience wpatience"
  shows "stream_contract R incoming rpatience" "sink_contract R sent wpatience"
    "sent (snd (io_Read R len w)) = sent w" "sent (io_wait R kRead w) = sent w"
    "incoming (snd (io_Write R data w)) = incoming w" "incoming (io_wait R kWrite w) = incoming w"
  using assms unfolding duplex_contract_def by blast+

lemma read_keeps_sent:
  assumes C: "duplex_contract R incoming sent rpatience wpatience"
  shows "read_loop R buf len rd mem w = Some (x, mem1, w1) \<Longrightarrow> sent w1 = sent w"
proof (induction "rpatience w" arbitrary: len rd mem w rule: less_induct)
  case less
  obtain bs err w2 where r: "io_Read R len w = ((bs, err), w2)" by (metis surj_pair)
  note s = duplexD(1) [OF C]
  have w2: "sent w2 = sent w" "sent (io_wait R kRead w2) = sent w2"
    using duplexD(3) [OF C, of len w] duplexD(4) [OF C] r by simp_all
  have p: "err = EAGAIN \<Longrightarrow> rpatience (io_wait R kRead w2) < rpatience w" using stream_contractD(1) [OF s r] by simp
  have e: "read_loop R buf len rd mem w =
      (if len \<le> length bs then Some ((rd + length bs, NoError), store_bytes buf bs mem, w2)
       else if err = EAGAIN then
         (if rd + length bs = 0 then read_loop R buf len 0 mem (io_wait R kRead w2)
          else Some ((rd + length bs, NoError), store_bytes buf bs mem, w2))
       else Some ((rd + length bs, err), store_bytes buf bs mem, w2))"
    by (subst read_loop.simps) (simp add: r Let_def)
  show ?case
  proof (cases "len > length bs \<and> err = EAGAIN \<and> rd + length bs = 0")
    case True
    then have "read_loop R buf len 0 mem (io_wait R kRead w2) = Some (x, mem1, w1)" using less.prems e by simp
    from less.hyps [OF p this] True w2 show ?thesis by simp
  next
    case False
    with less.prems w2(1) show ?thesis by (auto simp: e split: if_splits)
  qed
qed

lemma write_keeps_incoming:
  assumes C: "duplex_contract R incoming sent rpatience wpatience"
  shows "write_loop R data wr w = Some (x, w1) \<Longrightarrow> incoming w1 = incoming w"
proof (induction "wpatience w" arbitrary: data wr w rule: less_induct)
  case less
  obtain n err w2 where r: "io_Write R data w = ((n, err), w2)" by (metis surj_pair)
  note s = duplexD(2) [OF C]
  have w2: "incoming w2 = incoming w" "incoming (io_wait R kWrite w2) = incoming w2"
    using duplexD(5) [OF C, of data w] duplexD(6) [OF C] r by simp_all
  have p: "err = EAGAIN \<Longrightarrow> wpatience (io_wait R kWrite w2) < wpatience w" using sink_contractD(1) [OF s r] by simp
  have e: "write_loop R data wr w = (if drop n data = [] then Some ((wr + n, NoError), w2)
      else if err = EAGAIN then write_loop R (drop n data) (wr + n) (io_wait R kWrite w2) else Some ((wr + n, err), w2))"
    by (subst write_loop.simps) (simp add: r Let_def)
  show ?case
  proof (cases "drop n data \<noteq> [] \<and> err = EAGAIN")
    case True
    then have "write_loop R (drop n data) (wr + n) (io_wait R kWrite w2) = Some (x, w1)" using less.prems e by simp
    from less.hyps [OF p this] True w2 show ?thesis by simp
  next
    case False
    with less.prems w2(1) show ?thesis by (auto simp: e split: if_splits)
  qed
qed

lemma store_above: "a < buf \<Longrightarrow> store_bytes buf bs mem a = mem a"
  by (induction bs arbitrary: buf mem) simp_all

lemma load_stored: "load_bytes buf (length bs) (store_bytes buf bs mem) = bs"
  by (induction bs arbitrary: buf mem) (simp_all add: store_above)

section \<open>What the client gets\<close>

text \<open>C38
  The echo server echoes. The process of a connection ends with an error that is not a mere wait; what it has
  sent until then is what it has received, byte for byte and in order, except for at most one buffer of
  bytes at the end: those that a failed write did not send, or that came together with a read error.\<close>

theorem echo_exact:
  assumes "duplex_contract R incoming sent rpatience wpatience"
  shows "\<exists>err mem' w' echoed lost. echo_loop R buf mem w = Some (err, mem', w') \<and> err \<noteq> NoError \<and> err \<noteq> EAGAIN \<and>
    incoming w = echoed @ lost @ incoming w' \<and> sent w' = sent w @ echoed \<and> length lost \<le> 1024"
proof (induction "length (incoming w)" arbitrary: mem w rule: less_induct)
  case less
  have S: "stream_contract R incoming rpatience" and W: "sink_contract R sent wpatience"
    using assms by (simp_all add: duplex_contract_def)
  from read_loop_exact [OF S, of buf 1024 mem w] obtain bs err w1 where
    r: "io_read R buf 1024 mem w = Some ((length bs, err), store_bytes buf bs mem, w1)" "length bs \<le> 1024"
      "incoming w = bs @ incoming w1" "err \<noteq> EAGAIN" "err = NoError \<Longrightarrow> bs \<noteq> []"
    by (auto simp: io_read_def)
  have s1: "sent w1 = sent w" using read_keeps_sent [OF assms] r(1) unfolding io_read_def .
  show ?case
  proof (cases "err = NoError")
    case False
    then have "echo_loop R buf mem w = Some (err, store_bytes buf bs mem, w1)"
      using r(1) by (subst echo_loop.simps) simp
    with False r s1 show ?thesis
      by (intro exI [of _ err] exI [of _ "store_bytes buf bs mem"] exI [of _ w1] exI [of _ "[]"] exI [of _ bs]) simp
  next
    case True
    let ?m = "store_bytes buf bs mem"
    from write_loop_exact [OF W, of bs 0 w1] obtain n err1 w2 where
      w: "io_write R bs w1 = Some ((n, err1), w2)" "n \<le> length bs" "sent w2 = sent w1 @ take n bs"
        "err1 = NoError \<longleftrightarrow> n = length bs" "err1 \<noteq> EAGAIN" by (auto simp: io_write_def)
    have i2: "incoming w2 = incoming w1" using write_keeps_incoming [OF assms] w(1) unfolding io_write_def .
    have e: "echo_loop R buf mem w = (if err1 \<noteq> NoError then Some (err1, ?m, w2) else echo_loop R buf ?m w2)"
      using r(1) w(1) True by (subst echo_loop.simps) (simp add: load_stored)
    show ?thesis
    proof (cases "err1 = NoError")
      case False
      have "incoming w = take n bs @ drop n bs @ incoming w2" using r(3) i2 by simp
      with False e r(2) w s1 show ?thesis
        by (intro exI [of _ err1] exI [of _ ?m] exI [of _ w2] exI [of _ "take n bs"] exI [of _ "drop n bs"]) simp
    next
      case all: True
      have "length (incoming w2) < length (incoming w)" using r(3,5) i2 True by simp
      from less [OF this, of ?m] obtain err' mem' w' echoed lost where
        ih: "echo_loop R buf ?m w2 = Some (err', mem', w')" "err' \<noteq> NoError" "err' \<noteq> EAGAIN"
          "incoming w2 = echoed @ lost @ incoming w'" "sent w' = sent w2 @ echoed" "length lost \<le> 1024" by blast
      have "incoming w = (bs @ echoed) @ lost @ incoming w'" "sent w' = sent w @ (bs @ echoed)"
        using r(3) i2 ih(4,5) w(3,4) all s1 by simp_all
      with ih(1-3,6) e all show ?thesis
        by (intro exI [of _ err'] exI [of _ mem'] exI [of _ w'] exI [of _ "bs @ echoed"] exI [of _ lost]) simp
    qed
  qed
qed

lemma trickle_duplex: "duplex_contract trickle fst (fst \<circ> snd) (\<lambda>w. length (fst w)) (\<lambda>w. snd (snd w))"
  using trickle_stream trickle_sink by (auto simp: duplex_contract_def) (auto simp: trickle_def)

theorem echo_exact_witness:
  "\<exists>err mem' w' echoed lost. echo_loop trickle 100 (\<lambda>_. 0) ([7, 8, 9], [1], 2) = Some (err, mem', w') \<and>
    [7, 8, 9] = echoed @ lost @ fst w' \<and> fst (snd w') = 1 # echoed"
  using echo_exact [OF trickle_duplex, of 100 "\<lambda>_. 0" "([7, 8, 9], [1], 2)"] by auto

end
