(* ===== verification/Echo_Client.thy ===== *)
theory Echo_Client
  imports Echo Wakeup
begin

text \<open>
  The clients of \<^verbatim>\<open>examples/echo/client.cpp\<close>: the service that numbers their requests, the loop that
  sends shuffled data and reads it back, and the process that counts the clients that have ended.
  Connecting is the client's call of \<open>Tcp.tcp_connect\<close>.
\<close>

section \<open>The numbering service\<close>

text \<open>
  The callback of \<^verbatim>\<open>seqService\<close>; its variable \<^verbatim>\<open>seqn\<close> is part of the state. A \<^verbatim>\<open>SeqResponse\<close> is
  an application value of the type \<open>seq_type\<close>.
\<close>

definition seq_type :: nat where "seq_type = 7"

definition seq_callback :: "('l, uint64 message) append_ops \<Rightarrow> addr \<Rightarrow> co \<Rightarrow>
    uint64 \<times> (uint64, 'l, 'i, 'h) runtime \<Rightarrow> (uint64 \<times> (uint64, 'l, 'i, 'h) runtime) option option" where
  "seq_callback A running co = (\<lambda>(seqn, s).
     (let seqn1 = seqn + 1
      in map_option (map_option (Pair seqn1)) (rt_answer A running co (AppValue seq_type seqn1) s)))"

text \<open>The requests it serves one after another; each sets the message of the coroutine.\<close>

fun seq_serve :: "('l, uint64 message) append_ops \<Rightarrow> addr \<Rightarrow> co \<Rightarrow> uint64 message list \<Rightarrow>
    uint64 \<times> (uint64, 'l, 'i, 'h) runtime \<Rightarrow> (uint64 \<times> (uint64, 'l, 'i, 'h) runtime) option option" where
  "seq_serve A running co [] st = Some (Some st)"
| "seq_serve A running co (msg # msgs) (seqn, s) =
     (case with_proc running (\<lambda>q. q\<lparr>p_cos := (p_cos q)(co :=
          map_option (set_message_info (msg_source msg) (msg_session msg)) (p_cos q co))\<rparr>) s of
        None \<Rightarrow> Some None
      | Some s1 \<Rightarrow>
          (case seq_callback A running co (seqn, s1) of
             None \<Rightarrow> None
           | Some None \<Rightarrow> Some None
           | Some (Some st1) \<Rightarrow> seq_serve A running co msgs st1))"

section \<open>The loop of a client\<close>

text \<open>
  A round: the number \<open>seqi\<close> the service gave and the data as \<^verbatim>\<open>std::shuffle\<close> left it. The loop
  ends at the first error; \<open>rounds\<close> is as much of the endless loop as is looked at. It prints the data
  sent and the bytes it got back, which \<open>buf\<close> holds.
\<close>

fun client_loop :: "'w io_ops \<Rightarrow> nat \<Rightarrow> (uint64 \<times> byte list) list \<Rightarrow> memory \<Rightarrow> 'w \<Rightarrow>
    ((uint64 \<times> byte list \<times> byte list) list \<times> io_err \<times> 'w) option" where
  "client_loop R buf [] mem w = Some ([], NoError, w)"
| "client_loop R buf ((seqi, data) # rounds) mem w =
     (case io_write R data w of
        None \<Rightarrow> None
      | Some ((_, err), w1) \<Rightarrow>
          if err \<noteq> NoError then Some ([], err, w1)
          else (case read_full R buf (length data) mem w1 of
                  None \<Rightarrow> None
                | Some ((_, err1), mem1, w2) \<Rightarrow>
                    if err1 \<noteq> NoError then Some ([], err1, w2)
                    else map_option (\<lambda>(out, rest). ((seqi, data, load_bytes buf (length data) mem1) # out, rest))
                      (client_loop R buf rounds mem1 w2)))"

text \<open>The callback that ends the program with the last client.\<close>

definition exit_callback :: "int \<Rightarrow> int \<times> bool" where
  "exit_callback n = (n - 1, n - 1 \<le> 0)"

section \<open>The numbers\<close>

text \<open>The service numbers the requests: served one after another they are answered, whoever asked, with the
  numbers that follow \<open>seqn\<close>, each once and in their order (modulo \<open>2 ^ 64\<close>); each process that is
  registered gets those of its own requests, as responses to their sessions.\<close>

theorem requests_are_numbered:
  fixes s :: "(uint64, 'l, 'i, 'h) runtime"
  assumes "append_list A (\<lambda>_ _. True) rep" "mid_turn rep running co H s" "rt_procs s running = Some q"
  shows "\<exists>t. seq_serve A running co msgs (seqn, s) = Some (Some (seqn + of_nat (length msgs), t)) \<and> mid_turn rep running co H t \<and>
    (\<forall>p. p \<noteq> running \<longrightarrow> rel_option (receives rep (replies (p_pid q) (rt_reg s) p
        (map (\<lambda>(msg, n). (msg_source msg, msg_session msg, AppValue seq_type n))
          (zip msgs (map (\<lambda>i. seqn + of_nat (Suc i)) [0..<length msgs])))))
      (rt_procs s p) (rt_procs t p))"
  using assms(2,3)
proof (induction msgs arbitrary: seqn s q)
  case Nil
  then show ?case by (auto simp: replies_def receives_none intro: option.rel_refl)
next
  case (Cons msg msgs)
  let ?src = "msg_source msg" and ?session = "msg_session msg"
  have wf: "wf_owned {#co#} q" using mid_turn_process [OF Cons.prems(1)] Cons.prems(2) by auto
  then obtain c where c: "p_cos q co = Some c" using wf_allocated [OF wf, of co] by auto
  let ?q = "q\<lparr>p_cos := (p_cos q)(co \<mapsto> set_message_info ?src ?session c)\<rparr>"
  let ?s = "s\<lparr>rt_procs := (rt_procs s)(running \<mapsto> ?q)\<rparr>"
  have "wf_owned {#co#} ?q" using wf_heap [OF wf, of co] c by simp
  then have m: "mid_turn rep running co H ?s" by (intro mid_turn_same [OF Cons.prems]) simp_all
  have q: "rt_procs ?s running = Some ?q" by simp
  from response_frame [OF assms(1) m q, of ?src ?session "AppValue seq_type (seqn + 1)"] obtain s1 q1 where
    s1: "rt_response A (Some (running, co)) ?src ?session (AppValue seq_type (seqn + 1)) ?s = Some (Some s1)" "mid_turn rep running co H s1"
      "rt_procs s1 running = Some q1" "p_pid q1 = p_pid q" "rg_map (rt_reg s1) = rg_map (rt_reg s)"
    and first: "\<forall>p. p \<noteq> running \<longrightarrow> rt_procs s1 p = (if rg_map (rt_reg s) (pid_value ?src) = Some p
      then map_option (pushed A (message_create (p_pid q) (sessionForResponse ?session) (AppValue seq_type (seqn + 1)))) (rt_procs s p)
      else rt_procs s p)" by auto
  from Cons.IH [OF s1(2,3), of "seqn + 1"] s1(4) obtain t where
    t: "seq_serve A running co msgs (seqn + 1, s1) = Some (Some (seqn + 1 + of_nat (length msgs), t))" "mid_turn rep running co H t"
    and rest: "\<forall>p. p \<noteq> running \<longrightarrow> rel_option (receives rep (replies (p_pid q) (rt_reg s1) p
        (map (\<lambda>(msg, n). (msg_source msg, msg_session msg, AppValue seq_type n))
          (zip msgs (map (\<lambda>i. seqn + 1 + of_nat (Suc i)) [0..<length msgs])))))
      (rt_procs s1 p) (rt_procs t p)" by auto
  have "rt_message_info running co ?s = Some (?src, ?session)" by (simp add: rt_message_info_def set_message_info_def)
  then have "seq_callback A running co (seqn, ?s) = Some (Some (seqn + 1, s1))"
    using s1(1) by (simp add: seq_callback_def rt_answer_def Let_def)
  then have r: "seq_serve A running co (msg # msgs) (seqn, s) = Some (Some (seqn + of_nat (length (msg # msgs)), t))"
    using Cons.prems(2) c t(1) by (simp add: with_proc_def add.assoc)
  have nums: "zip (msg # msgs) (map (\<lambda>i. seqn + of_nat (Suc i)) [0..<length (msg # msgs)]) =
      (msg, seqn + 1) # zip msgs (map (\<lambda>i. seqn + 1 + of_nat (Suc i)) [0..<length msgs])"
    by (simp add: upt_conv_Cons map_Suc_upt [symmetric] add.assoc comp_def del: upt_Suc)
  have "rel_option (receives rep (replies (p_pid q) (rt_reg s) p ((?src, ?session, AppValue seq_type (seqn + 1)) #
        map (\<lambda>(msg, n). (msg_source msg, msg_session msg, AppValue seq_type n))
          (zip msgs (map (\<lambda>i. seqn + 1 + of_nat (Suc i)) [0..<length msgs]))))) (rt_procs s p) (rt_procs t p)"
    if "p \<noteq> running" for p
    by (rule receives_reply [OF assms(1) first [rule_format, OF that] s1(5) rest [rule_format, OF that]])
  with r t(2) show ?case unfolding nums by auto
qed

theorem requests_are_numbered_witness:
  "\<exists>(s :: (uint64, uint64 message list, nat, nat) runtime) t q8 q8'. rt_procs s 8 = Some q8 \<and> mb_write (p_mailbox q8) = [] \<and>
    seq_serve queue_ops 7 3 [message_create (process_t 2) (session_t 4) EmptyAny, message_create (process_t 2) (session_t 5) EmptyAny]
      (10, s) = Some (Some (12, t)) \<and>
    rt_procs t 8 = Some q8' \<and> map msg_session (mb_write (p_mailbox q8')) = [session_t (- 4), session_t (- 5)] \<and>
    map msg_content (mb_write (p_mailbox q8')) = [AppValue seq_type 11, AppValue seq_type 12]"
proof -
  from two_processes obtain s :: "(uint64, uint64 message list, nat, nat) runtime" and q q8 where
    s: "mid_turn (\<lambda>l ms. l = ms) 7 3 {#} s" "rt_procs s 7 = Some q" "rt_procs s 8 = Some q8" "mb_write (p_mailbox q8) = []"
      "rg_map (rt_reg s) = [1 \<mapsto> 7, 2 \<mapsto> 8]" by blast
  let ?msgs = "[message_create (process_t 2) (session_t 4) EmptyAny, message_create (process_t 2) (session_t 5) EmptyAny]"
  from requests_are_numbered [OF queue_append_list s(1,2), of ?msgs 10] obtain t where
    t: "seq_serve queue_ops 7 3 ?msgs (10, s) = Some (Some (12, t))"
      "rel_option (receives (\<lambda>l ms. l = ms) (replies (p_pid q) (rt_reg s) 8
        [(process_t 2, session_t 4, AppValue seq_type 11), (process_t 2, session_t 5, AppValue seq_type 12)])) (rt_procs s 8) (rt_procs t 8)"
    by (auto simp: message_create_def simp del: seq_serve.simps)
  from t(2) s(3-5) obtain q8' where "rt_procs t 8 = Some q8'"
    "map msg_session (mb_write (p_mailbox q8')) = [session_t (- 4), session_t (- 5)]"
    "map msg_content (mb_write (p_mailbox q8')) = [AppValue seq_type 11, AppValue seq_type 12]"
    by (auto simp: replies_def receives_def message_create_def sessionForResponse_def option_rel_Some1)
  with t(1) s(3,4) show ?thesis
    by - (rule exI [of _ s], rule exI [of _ t], rule exI [of _ q8], rule exI [of _ q8'], simp del: seq_serve.simps)
qed

section \<open>A client gets its data back\<close>

text \<open>C39
  Through an echo a client reads what it has written. When the bytes to read are those it has sent and
  not read yet, every round that ends without an error prints as received exactly the data it sent,
  whatever the sizes of the single reads and writes; the loop returns, with an error or after the last round.\<close>

theorem client_reads_its_data:
  assumes "stream_contract R unread rpatience" "sink_contract R unread wpatience" "unread w = []"
  shows "\<exists>k err w'. client_loop R buf rounds mem w =
      Some (map (\<lambda>(seqi, data). (seqi, data, data)) (take k rounds), err, w') \<and>
    k \<le> length rounds \<and> (err = NoError \<longleftrightarrow> k = length rounds) \<and> (err = NoError \<longrightarrow> unread w' = [])"
  using assms(3)
proof (induction rounds arbitrary: mem w)
  case Nil
  then show ?case by simp
next
  case (Cons r rounds)
  obtain seqi data where r: "r = (seqi, data)" by fastforce
  from write_loop_exact [OF assms(2), of data 0 w] Cons.prems obtain n err w1 where
    w: "io_write R data w = Some ((n, err), w1)" "unread w1 = take n data" "err = NoError \<longleftrightarrow> n = length data"
    by (auto simp: io_write_def)
  from read_full_loop_exact [OF assms(1), of buf "length data" 0 mem w1] obtain bs err1 w2 where
    b: "read_full R buf (length data) mem w1 = Some ((length bs, err1), store_bytes buf bs mem, w2)"
      "length bs \<le> length data" "unread w1 = bs @ unread w2" "err1 = NoError \<longleftrightarrow> length bs = length data"
    by (auto simp: read_full_def)
  show ?case
  proof (cases "err = NoError \<and> err1 = NoError")
    case True
    with w b have bs: "bs @ unread w2 = data" "length bs = length data" by simp_all
    then have d: "bs = data" "unread w2 = []" by auto
    from Cons.IH [OF d(2), of "store_bytes buf bs mem"] obtain k e w' where
      k: "client_loop R buf rounds (store_bytes buf bs mem) w2 = Some (map (\<lambda>(seqi, data). (seqi, data, data)) (take k rounds), e, w')"
        "k \<le> length rounds" "e = NoError \<longleftrightarrow> k = length rounds" "e = NoError \<longrightarrow> unread w' = []" by blast
    with True r w(1) b(1) d(1) show ?thesis
      by (intro exI [of _ "Suc k"] exI [of _ e] exI [of _ w']) (simp add: load_stored)
  next
    case False
    with r w(1) b(1) show ?thesis by (intro exI [of _ 0]) auto
  qed
qed

text \<open>A connection to an echo, for the witness: each read and each write moves one byte.\<close>

definition loopback :: "(byte list \<times> nat) io_ops" where
  "loopback =
     \<lparr>io_Read = (\<lambda>len (u, p). if len = 0 then (([], NoError), (u, p))
         else if u = [] then (([], EEOF), (u, p))
         else (([hd u], if len = 1 then NoError else EAGAIN), (tl u, p))),
      io_Write = (\<lambda>data (u, p). if data = [] then ((0, NoError), (u, p))
         else if p = 0 then ((0, OtherError 32), (u, p))
         else ((1, if length data = 1 then NoError else EAGAIN), (u @ [hd data], p - 1))),
      io_wait = (\<lambda>_ w. w)\<rparr>"

lemma loopback_contracts:
  "stream_contract loopback fst (\<lambda>w. length (fst w))" "sink_contract loopback fst snd"
  by (auto simp: stream_contract_def sink_contract_def loopback_def take_Suc Suc_le_eq length_Suc_conv split: if_splits prod.splits)

theorem client_reads_its_data_witness:
  "\<exists>k err w'. client_loop loopback 100 [(1, [48, 49, 0]), (2, [49, 48, 0])] (\<lambda>_. 0) ([], 4) =
      Some (map (\<lambda>(seqi, data). (seqi, data, data)) (take k [(1, [48, 49, 0]), (2, [49, 48, 0])]), err, w') \<and>
    (err = NoError \<longleftrightarrow> k = Suc (Suc 0))"
  using client_reads_its_data [OF loopback_contracts, of "([], 4)" 100 "[(1, [48, 49, 0]), (2, [49, 48, 0])]" "\<lambda>_. 0"]
  by (auto simp del: client_loop.simps)

end
