(* ===== verification/Tcp.thy ===== *)
theory Tcp
  imports Fd_Poll
begin

text \<open>
  \<^verbatim>\<open>src/tcp.cpp\<close>: the parser of addresses, which works in place on a copy of the string, and
  \<^verbatim>\<open>listen\<close>, \<^verbatim>\<open>connect\<close> and \<^verbatim>\<open>accept\<close> over the system calls, which are parameters on a state of
  the world. \<^verbatim>\<open>wild::Fd\<close> closes its descriptor when it goes out of scope: each such close is
  written where the scope ends.
\<close>

section \<open>Errors\<close>

datatype net_errc = none | illegal_address | all_address_failed | no_match_addrinfo | ambiguous_address

datatype error_condition = NoCondition | NetCondition net_errc | SystemCondition int | GaiCondition int

fun net_errc_value :: "net_errc \<Rightarrow> int" where
  "net_errc_value none = 0"
| "net_errc_value illegal_address = 1"
| "net_errc_value all_address_failed = 2"
| "net_errc_value no_match_addrinfo = 3"
| "net_errc_value ambiguous_address = 4"

definition net_message :: "int \<Rightarrow> string" where
  "net_message condition =
     (if condition = 1 then ''illegal address format''
      else if condition = 2 then ''all address failed''
      else if condition = 3 then ''no match addrinfo''
      else if condition = 4 then ''ambiguous address''
      else ''unknown error code'')"

text \<open>The other category asks the library.\<close>

definition gai_message :: "(int \<Rightarrow> string option) \<Rightarrow> int \<Rightarrow> string" where
  "gai_message gai_strerror condition = (case gai_strerror condition of None \<Rightarrow> ''unknown error'' | Some strerr \<Rightarrow> strerr)"

text \<open>The conversion of \<^verbatim>\<open>std::error_condition\<close> to bool.\<close>

fun is_error :: "error_condition \<Rightarrow> bool" where
  "is_error NoCondition = False"
| "is_error (NetCondition e) = (net_errc_value e \<noteq> 0)"
| "is_error (SystemCondition e) = (e \<noteq> 0)"
| "is_error (GaiCondition e) = (e \<noteq> 0)"

text \<open>How a call ends when it does not return: a failed assertion, the use of a null pointer, or the
  exception with which a coroutine is woken from \<^verbatim>\<open>fd::wait\<close>.\<close>

datatype net_fault = AssertionFailed | NullDereferenced | Interrupted

section \<open>Addresses\<close>

datatype family = AF_UNSPEC | AF_INET | AF_INET6

abbreviation NUL :: char where "NUL \<equiv> CHR 0x00"

fun memrchr :: "char \<Rightarrow> string \<Rightarrow> nat option" where
  "memrchr c [] = None"
| "memrchr c (x # xs) = (case memrchr c xs of Some i \<Rightarrow> Some (Suc i) | None \<Rightarrow> if x = c then Some 0 else None)"

text \<open>The C string that starts at a position of a buffer.\<close>

definition c_string :: "string \<Rightarrow> nat \<Rightarrow> string" where
  "c_string buf i = takeWhile (\<lambda>c. c \<noteq> NUL) (drop i buf)"

definition tcp_trim :: "string \<Rightarrow> nat \<times> family" where
  "tcp_trim addr =
     (if take 6 addr = ''tcp://'' then (6, AF_UNSPEC)
      else if take 7 addr = ''tcp4://'' then (7, AF_INET)
      else if take 7 addr = ''tcp6://'' then (7, AF_INET6)
      else (0, AF_UNSPEC))"

text \<open>Host and port are positions in the buffer, which comes back with the host terminated.\<close>

record tcp_parsed =
  parsed_family :: family
  parsed_host :: "nat option"
  parsed_port :: nat
  parsed_buf :: string

definition tcp_parse :: "string \<Rightarrow> nat \<Rightarrow> net_fault + tcp_parsed option" where
  "tcp_parse buf len =
     (case tcp_trim buf of (n, family) \<Rightarrow>
      case memrchr (CHR '':'') (take (len - n) (drop n buf)) of
        None \<Rightarrow> Inr None
      | Some i \<Rightarrow>
          (let sep = n + i; bracket = (buf ! n = CHR ''['');
               beg = (if bracket then n + 1 else n);
               fin = (if bracket then sep - 1 else sep)
           in if bracket \<and> buf ! fin \<noteq> CHR '']'' then Inr None
              else if \<not> beg \<le> fin then Inl AssertionFailed
              else if beg = fin \<or> (beg + 1 = fin \<and> buf ! beg = CHR ''*'')
                then Inr (Some \<lparr>parsed_family = family, parsed_host = None, parsed_port = sep + 1, parsed_buf = buf\<rparr>)
              else Inr (Some \<lparr>parsed_family = family, parsed_host = Some beg, parsed_port = sep + 1,
                             parsed_buf = buf[fin := NUL]\<rparr>)))"

section \<open>The system calls\<close>

datatype ai_flag = AI_PASSIVE | AI_NUMERICHOST | AI_NUMERICSERV

datatype sock_flag = SOCK_NONBLOCK | SOCK_CLOEXEC

record addrinfo =
  ai_flags :: "ai_flag list"
  ai_family :: family
  ai_socktype :: int
  ai_protocol :: int
  ai_addr :: string

definition SOCK_STREAM :: int where "SOCK_STREAM = 1"
definition IPPROTO_TCP :: int where "IPPROTO_TCP = 6"
definition EAI_SYSTEM :: int where "EAI_SYSTEM = -11"
definition E_INPROGRESS :: int where "E_INPROGRESS = 115"
definition E_AGAIN :: int where "E_AGAIN = 11"
definition E_INTR :: int where "E_INTR = 4"

definition SOCK_FLAGS :: "sock_flag list" where "SOCK_FLAGS = [SOCK_NONBLOCK, SOCK_CLOEXEC]"

text \<open>\<^verbatim>\<open>net_wait\<close> is \<^verbatim>\<open>fd::wait\<close>: it says whether the coroutine is woken by an exception.\<close>

record 'w net_ops =
  net_errno :: "'w \<Rightarrow> int"
  net_getaddrinfo :: "string option \<Rightarrow> string \<Rightarrow> addrinfo \<Rightarrow> 'w \<Rightarrow> (int \<times> addrinfo list) \<times> 'w"
  net_freeaddrinfo :: "addrinfo list \<Rightarrow> 'w \<Rightarrow> 'w"
  net_socket :: "family \<Rightarrow> int \<Rightarrow> sock_flag list \<Rightarrow> int \<Rightarrow> 'w \<Rightarrow> int \<times> 'w"
  net_reuseaddr :: "int \<Rightarrow> 'w \<Rightarrow> int \<times> 'w"
  net_bind :: "int \<Rightarrow> string \<Rightarrow> 'w \<Rightarrow> int \<times> 'w"
  net_listen :: "int \<Rightarrow> 'w \<Rightarrow> int \<times> 'w"
  net_connect :: "int \<Rightarrow> string \<Rightarrow> 'w \<Rightarrow> int \<times> 'w"
  net_accept :: "int \<Rightarrow> sock_flag list \<Rightarrow> 'w \<Rightarrow> (int \<times> family \<times> string) \<times> 'w"
  net_ntop :: "family \<Rightarrow> string \<Rightarrow> string option"
  net_sockerr :: "int \<Rightarrow> 'w \<Rightarrow> (int \<times> int) \<times> 'w"
  net_wait :: "int \<Rightarrow> Event \<Rightarrow> 'w \<Rightarrow> bool \<times> 'w"
  net_close :: "int \<Rightarrow> 'w \<Rightarrow> 'w"

definition tcp_getaddrinfo :: "'w net_ops \<Rightarrow> string \<Rightarrow> ai_flag list \<Rightarrow> 'w \<Rightarrow> (net_fault + error_condition \<times> addrinfo list) \<times> 'w" where
  "tcp_getaddrinfo R addr flag w =
     (case tcp_parse (addr @ [NUL]) (length addr) of
        Inl f \<Rightarrow> (Inl f, w)
      | Inr None \<Rightarrow> (Inr (NetCondition illegal_address, []), w)
      | Inr (Some p) \<Rightarrow>
          (let hint = \<lparr>ai_flags = flag @ [AI_NUMERICHOST, AI_NUMERICSERV], ai_family = parsed_family p,
                       ai_socktype = SOCK_STREAM, ai_protocol = IPPROTO_TCP, ai_addr = []\<rparr>
           in case net_getaddrinfo R (map_option (c_string (parsed_buf p)) (parsed_host p))
                     (c_string (parsed_buf p) (parsed_port p)) hint w of
                ((err, res), w1) \<Rightarrow>
                  (if err = EAI_SYSTEM then (Inr (SystemCondition (net_errno R w1), res), w1)
                   else if err \<noteq> 0 then (Inr (GaiCondition err, res), w1)
                   else if res = [] then (Inr (NetCondition no_match_addrinfo, res), w1)
                   else (Inr (NoCondition, res), w1))))"

definition tcp_getsockerr :: "'w net_ops \<Rightarrow> int \<Rightarrow> 'w \<Rightarrow> int \<times> 'w" where
  "tcp_getsockerr R fd w =
     (case net_sockerr R fd w of ((ret, err), w1) \<Rightarrow> if ret = -1 then (net_errno R w1, w1) else (err, w1))"

text \<open>\<^verbatim>\<open>while (n--) close(fds[n])\<close>\<close>

fun tcp_closen :: "'w net_ops \<Rightarrow> nat \<Rightarrow> int list \<Rightarrow> 'w \<Rightarrow> 'w" where
  "tcp_closen R 0 fds w = w"
| "tcp_closen R (Suc n) fds w = tcp_closen R n fds (net_close R (fds ! n) w)"

section \<open>listen, connect and accept\<close>

text \<open>The three calls that make a socket a listener, the later ones only when the earlier succeed.\<close>

definition make_listener :: "'w net_ops \<Rightarrow> int \<Rightarrow> addrinfo \<Rightarrow> 'w \<Rightarrow> bool \<times> 'w" where
  "make_listener R fd ai w =
     (case net_reuseaddr R fd w of (r1, w1) \<Rightarrow>
        if r1 \<noteq> 0 then (False, w1) else
      case net_bind R fd (ai_addr ai) w1 of (r2, w2) \<Rightarrow>
        if r2 \<noteq> 0 then (False, w2) else
      case net_listen R fd w2 of (r3, w3) \<Rightarrow> (r3 = 0, w3))"

fun listen_loop :: "'w net_ops \<Rightarrow> addrinfo list \<Rightarrow> int list \<Rightarrow> int \<Rightarrow> 'w \<Rightarrow> (int list \<times> int) \<times> 'w" where
  "listen_loop R [] sockets lastErrno w = ((sockets, lastErrno), w)"
| "listen_loop R (ai # ais) sockets lastErrno w =
     (if \<not> length sockets < 2 then ((sockets, lastErrno), w)
      else case net_socket R (ai_family ai) (ai_socktype ai) SOCK_FLAGS (ai_protocol ai) w of (fd, w1) \<Rightarrow>
        if fd \<noteq> -1 then
          (case make_listener R fd ai w1 of (ok, w2) \<Rightarrow>
             if ok then listen_loop R ais (sockets @ [fd]) lastErrno w2
             else let w3 = net_close R fd w2 in listen_loop R ais sockets (net_errno R w3) w3)
        else listen_loop R ais sockets (net_errno R w1) w1)"

type_synonym fd_result = "net_fault + int option \<times> error_condition"

definition tcp_listen :: "'w net_ops \<Rightarrow> string \<Rightarrow> 'w \<Rightarrow> fd_result \<times> 'w" where
  "tcp_listen R addr w =
     (case tcp_getaddrinfo R addr [AI_PASSIVE] w of
        (Inl f, w1) \<Rightarrow> (Inl f, w1)
      | (Inr (err, res), w1) \<Rightarrow>
          if is_error err then (Inr (None, err), w1)
          else (case listen_loop R res [] 0 w1 of ((sockets, lastErrno), w2) \<Rightarrow>
            (let w3 = net_freeaddrinfo R res w2
             in if length sockets = 0 then
                  (if lastErrno = 0 then (Inl AssertionFailed, w3) else (Inr (None, SystemCondition lastErrno), w3))
                else if length sockets > 1 then
                  (Inr (None, NetCondition ambiguous_address), tcp_closen R (length sockets) sockets w3)
                else (Inr (Some (sockets ! 0), NoCondition), w3))))"

text \<open>The loop of \<^verbatim>\<open>connect\<close>; every \<^verbatim>\<open>continue\<close> after the socket is made closes it. The call with the
  empty list is the code after the loop.\<close>

fun connect_loop :: "'w net_ops \<Rightarrow> addrinfo list \<Rightarrow> int \<Rightarrow> 'w \<Rightarrow> fd_result \<times> 'w" where
  "connect_loop R [] lastErrno w =
     (if lastErrno = 0 then (Inl AssertionFailed, w) else (Inr (None, SystemCondition lastErrno), w))"
| "connect_loop R (ai # ais) lastErrno w =
     (case net_socket R (ai_family ai) (ai_socktype ai) SOCK_FLAGS (ai_protocol ai) w of (rawfd, w1) \<Rightarrow>
        if rawfd < 0 then connect_loop R ais (net_errno R w1) w1
        else case net_connect R rawfd (ai_addr ai) w1 of (e, w2) \<Rightarrow>
          if e \<noteq> 0 \<and> net_errno R w2 \<noteq> E_INPROGRESS
          then connect_loop R ais (net_errno R w2) (net_close R rawfd w2)
          else case net_wait R rawfd kWrite w2 of (interrupted, w3) \<Rightarrow>
            if interrupted then (Inl Interrupted, net_close R rawfd w3)
            else case tcp_getsockerr R rawfd w3 of (err, w4) \<Rightarrow>
              if err \<noteq> 0 then connect_loop R ais err (net_close R rawfd w4)
              else (Inr (Some rawfd, NoCondition), w4))"

definition tcp_connect :: "'w net_ops \<Rightarrow> string \<Rightarrow> 'w \<Rightarrow> fd_result \<times> 'w" where
  "tcp_connect R addr w =
     (case tcp_getaddrinfo R addr [] w of
        (Inl f, w1) \<Rightarrow> (Inl f, w1)
      | (Inr (err, res), w1) \<Rightarrow>
          if is_error err then (Inr (None, err), w1)
          else if res = [] then (Inl NullDereferenced, w1)
          else (case connect_loop R res 0 w1 of (r, w2) \<Rightarrow> (r, net_freeaddrinfo R res w2)))"

text \<open>The text of the peer's address, and the loop of \<^verbatim>\<open>accept\<close>; the string is written when the
  pointer \<^verbatim>\<open>from\<close> is not null.\<close>

definition addressString :: "'w net_ops \<Rightarrow> family \<Rightarrow> string \<Rightarrow> string" where
  "addressString R family addr =
     (case net_ntop R family addr of
        Some tmp \<Rightarrow> (if family = AF_INET then ''tcp4://'' else ''tcp6://'') @ tmp
      | None \<Rightarrow> [])"

partial_function (option) tcp_accept ::
  "'w net_ops \<Rightarrow> int \<Rightarrow> string option \<Rightarrow> 'w \<Rightarrow> ((fd_result \<times> string option) \<times> 'w) option" where
  "tcp_accept R listener peer w =
     (case net_accept R listener SOCK_FLAGS w of ((conn, family, addr), w1) \<Rightarrow>
        if conn < 0 then
          (let err = net_errno R w1
           in if err = E_AGAIN then
                (case net_wait R listener kRead w1 of (interrupted, w2) \<Rightarrow>
                   if interrupted then Some ((Inl Interrupted, peer), w2) else tcp_accept R listener peer w2)
              else if err = E_INTR then tcp_accept R listener peer w1
              else Some ((Inr (None, SystemCondition err), peer), w1))
        else Some ((Inr (Some conn, NoCondition), map_option (\<lambda>_. addressString R family addr) peer), w1))"

section \<open>What the calls rely on\<close>

text \<open>
  \<open>fds\<close> are the descriptors the caller has open and \<open>infos\<close> counts the address lists it holds:
  a new socket is a new descriptor, closing removes it, only \<^verbatim>\<open>getaddrinfo\<close> gives a list, and a
  call that fails leaves a reason in \<^verbatim>\<open>errno\<close> (which a close does not clear).
\<close>

definition net_quiet :: "('w \<Rightarrow> int set) \<Rightarrow> ('w \<Rightarrow> nat) \<Rightarrow> 'w \<Rightarrow> 'w \<Rightarrow> bool" where
  "net_quiet fds infos w w1 \<longleftrightarrow> fds w1 = fds w \<and> infos w1 = infos w"

definition net_contract :: "'w net_ops \<Rightarrow> ('w \<Rightarrow> int set) \<Rightarrow> ('w \<Rightarrow> nat) \<Rightarrow> bool" where
  "net_contract R fds infos \<longleftrightarrow>
     (\<forall>f s fl p w fd w1. net_socket R f s fl p w = (fd, w1) \<longrightarrow> infos w1 = infos w \<and>
        (if fd = -1 then fds w1 = fds w \<and> net_errno R w1 \<noteq> 0
         else 0 \<le> fd \<and> fd \<notin> fds w \<and> fds w1 = insert fd (fds w))) \<and>
     (\<forall>fd w. fds (net_close R fd w) = fds w - {fd} \<and> infos (net_close R fd w) = infos w \<and>
        (net_errno R w \<noteq> 0 \<longrightarrow> net_errno R (net_close R fd w) \<noteq> 0)) \<and>
     (\<forall>fd w r w1. net_reuseaddr R fd w = (r, w1) \<longrightarrow> net_quiet fds infos w w1 \<and> (r \<noteq> 0 \<longrightarrow> net_errno R w1 \<noteq> 0)) \<and>
     (\<forall>fd a w r w1. net_bind R fd a w = (r, w1) \<longrightarrow> net_quiet fds infos w w1 \<and> (r \<noteq> 0 \<longrightarrow> net_errno R w1 \<noteq> 0)) \<and>
     (\<forall>fd w r w1. net_listen R fd w = (r, w1) \<longrightarrow> net_quiet fds infos w w1 \<and> (r \<noteq> 0 \<longrightarrow> net_errno R w1 \<noteq> 0)) \<and>
     (\<forall>fd a w r w1. net_connect R fd a w = (r, w1) \<longrightarrow> net_quiet fds infos w w1 \<and> (r \<noteq> 0 \<longrightarrow> net_errno R w1 \<noteq> 0)) \<and>
     (\<forall>fd e w b w1. net_wait R fd e w = (b, w1) \<longrightarrow> net_quiet fds infos w w1) \<and>
     (\<forall>fd w x w1. net_sockerr R fd w = (x, w1) \<longrightarrow> net_quiet fds infos w w1) \<and>
     (\<forall>h p i w err res w1. net_getaddrinfo R h p i w = ((err, res), w1) \<longrightarrow> fds w1 = fds w \<and>
        infos w1 = (if err = 0 \<and> res \<noteq> [] then Suc (infos w) else infos w) \<and>
        (err = EAI_SYSTEM \<longrightarrow> net_errno R w1 \<noteq> 0)) \<and>
     (\<forall>res w. fds (net_freeaddrinfo R res w) = fds w \<and> infos (net_freeaddrinfo R res w) = infos w - 1)"

lemma net_contractD:
  assumes "net_contract R fds infos"
  shows "net_socket R f s fl p w = (fd, w1) \<Longrightarrow> infos w1 = infos w \<and>
      (if fd = -1 then fds w1 = fds w \<and> net_errno R w1 \<noteq> 0
       else 0 \<le> fd \<and> fd \<notin> fds w \<and> fds w1 = insert fd (fds w))"
    and "fds (net_close R fd w) = fds w - {fd}" "infos (net_close R fd w) = infos w"
    and "net_errno R w \<noteq> 0 \<Longrightarrow> net_errno R (net_close R fd w) \<noteq> 0"
    and "net_reuseaddr R fd w = (r, w1) \<Longrightarrow> net_quiet fds infos w w1 \<and> (r \<noteq> 0 \<longrightarrow> net_errno R w1 \<noteq> 0)"
    and "net_bind R fd a w = (r, w1) \<Longrightarrow> net_quiet fds infos w w1 \<and> (r \<noteq> 0 \<longrightarrow> net_errno R w1 \<noteq> 0)"
    and "net_listen R fd w = (r, w1) \<Longrightarrow> net_quiet fds infos w w1 \<and> (r \<noteq> 0 \<longrightarrow> net_errno R w1 \<noteq> 0)"
    and "net_connect R fd a w = (r, w1) \<Longrightarrow> net_quiet fds infos w w1 \<and> (r \<noteq> 0 \<longrightarrow> net_errno R w1 \<noteq> 0)"
    and "net_wait R fd e w = (b, w1) \<Longrightarrow> net_quiet fds infos w w1"
    and "net_sockerr R fd w = (x, w1) \<Longrightarrow> net_quiet fds infos w w1"
    and "net_getaddrinfo R h q i w = ((err, res), w1) \<Longrightarrow> fds w1 = fds w \<and>
      infos w1 = (if err = 0 \<and> res \<noteq> [] then Suc (infos w) else infos w) \<and> (err = EAI_SYSTEM \<longrightarrow> net_errno R w1 \<noteq> 0)"
    and "fds (net_freeaddrinfo R res w) = fds w" "infos (net_freeaddrinfo R res w) = infos w - 1"
proof -
  note C = assms [unfolded net_contract_def]
  note close = C [THEN conjunct2, THEN conjunct1, rule_format, of fd w]
  note free = C [THEN conjunct2, THEN conjunct2, THEN conjunct2, THEN conjunct2, THEN conjunct2, THEN conjunct2, THEN conjunct2, THEN conjunct2, THEN conjunct2, rule_format, of res w]
  show "infos w1 = infos w \<and>
      (if fd = -1 then fds w1 = fds w \<and> net_errno R w1 \<noteq> 0
       else 0 \<le> fd \<and> fd \<notin> fds w \<and> fds w1 = insert fd (fds w))"
    if "net_socket R f s fl p w = (fd, w1)" using that by (rule C [THEN conjunct1, rule_format])
  show "fds (net_close R fd w) = fds w - {fd}" "infos (net_close R fd w) = infos w" using close by simp_all
  show "net_errno R (net_close R fd w) \<noteq> 0" if "net_errno R w \<noteq> 0" using close that by simp
  show "net_quiet fds infos w w1 \<and> (r \<noteq> 0 \<longrightarrow> net_errno R w1 \<noteq> 0)"
    if "net_reuseaddr R fd w = (r, w1)" using that by (rule C [THEN conjunct2, THEN conjunct2, THEN conjunct1, rule_format])
  show "net_quiet fds infos w w1 \<and> (r \<noteq> 0 \<longrightarrow> net_errno R w1 \<noteq> 0)"
    if "net_bind R fd a w = (r, w1)" using that by (rule C [THEN conjunct2, THEN conjunct2, THEN conjunct2, THEN conjunct1, rule_format])
  show "net_quiet fds infos w w1 \<and> (r \<noteq> 0 \<longrightarrow> net_errno R w1 \<noteq> 0)"
    if "net_listen R fd w = (r, w1)" using that by (rule C [THEN conjunct2, THEN conjunct2, THEN conjunct2, THEN conjunct2, THEN conjunct1, rule_format])
  show "net_quiet fds infos w w1 \<and> (r \<noteq> 0 \<longrightarrow> net_errno R w1 \<noteq> 0)"
    if "net_connect R fd a w = (r, w1)" using that by (rule C [THEN conjunct2, THEN conjunct2, THEN conjunct2, THEN conjunct2, THEN conjunct2, THEN conjunct1, rule_format])
  show "net_quiet fds infos w w1"
    if "net_wait R fd e w = (b, w1)" using that by (rule C [THEN conjunct2, THEN conjunct2, THEN conjunct2, THEN conjunct2, THEN conjunct2, THEN conjunct2, THEN conjunct1, rule_format])
  show "net_quiet fds infos w w1"
    if "net_sockerr R fd w = (x, w1)" using that by (rule C [THEN conjunct2, THEN conjunct2, THEN conjunct2, THEN conjunct2, THEN conjunct2, THEN conjunct2, THEN conjunct2, THEN conjunct1, rule_format])
  show "fds w1 = fds w \<and> infos w1 = (if err = 0 \<and> res \<noteq> [] then Suc (infos w) else infos w) \<and>
      (err = EAI_SYSTEM \<longrightarrow> net_errno R w1 \<noteq> 0)"
    if "net_getaddrinfo R h q i w = ((err, res), w1)" using that by (rule C [THEN conjunct2, THEN conjunct2, THEN conjunct2, THEN conjunct2, THEN conjunct2, THEN conjunct2, THEN conjunct2, THEN conjunct2, THEN conjunct1, rule_format])
  show "fds (net_freeaddrinfo R res w) = fds w" "infos (net_freeaddrinfo R res w) = infos w - 1" using free by simp_all
qed

section \<open>The parser\<close>

lemma memrchr_last: "c \<notin> set ys \<Longrightarrow> memrchr c (xs @ c # ys) = Some (length xs)"
proof (induction xs)
  case Nil
  have "c \<notin> set zs \<Longrightarrow> memrchr c zs = None" for zs by (induction zs) auto
  with Nil show ?case by simp
qed simp

lemma memrchr_less: "memrchr c xs = Some i \<Longrightarrow> i < length xs"
  by (induction xs arbitrary: i) (auto split: option.splits if_splits)

lemma memrchr_nth: "memrchr c xs = Some i \<Longrightarrow> xs ! i = c"
  by (induction xs arbitrary: i) (auto split: option.splits if_splits)

lemma tcp_parse_no_fault: "tcp_parse buf len \<noteq> Inl f"
proof (cases "tcp_trim buf")
  case (Pair n family)
  show ?thesis
  proof (cases "memrchr (CHR '':'') (take (len - n) (drop n buf))")
    case (Some i)
    have n: "n \<le> length buf" using memrchr_less [OF Some] by auto
    have "buf ! (n + i) = CHR '':''"
      using memrchr_nth [OF Some] memrchr_less [OF Some] by (simp add: nth_drop [OF n])
    then have "n + 1 \<le> n + i - 1" if "buf ! n = CHR ''[''" "buf ! (n + i - 1) = CHR '']''"
      using that by (cases i; cases "i - 1") auto
    with Pair Some show ?thesis by (auto simp: tcp_parse_def Let_def)
  qed (simp add: tcp_parse_def Pair)
qed

text \<open>How an address is written: an optional scheme, the host, in brackets or not, and the port.\<close>

datatype scheme = NoScheme | Tcp | Tcp4 | Tcp6

fun scheme_text :: "scheme \<Rightarrow> string" where
  "scheme_text NoScheme = []"
| "scheme_text Tcp = ''tcp://''"
| "scheme_text Tcp4 = ''tcp4://''"
| "scheme_text Tcp6 = ''tcp6://''"

fun scheme_family :: "scheme \<Rightarrow> family" where
  "scheme_family NoScheme = AF_UNSPEC"
| "scheme_family Tcp = AF_UNSPEC"
| "scheme_family Tcp4 = AF_INET"
| "scheme_family Tcp6 = AF_INET6"

definition tcp_format :: "scheme \<Rightarrow> bool \<Rightarrow> string \<Rightarrow> string \<Rightarrow> string" where
  "tcp_format s bracketed host port =
     scheme_text s @ (if bracketed then ''['' @ host @ '']'' else host) @ '':'' @ port"

lemma take_slash: "CHR ''/'' \<notin> set xs \<Longrightarrow> CHR ''/'' \<in> set p \<Longrightarrow> take n xs \<noteq> p"
  using in_set_takeD by fast

lemma tcp_trim_format:
  assumes "CHR ''/'' \<notin> set rest"
  shows "tcp_trim (scheme_text s @ rest) = (length (scheme_text s), scheme_family s)"
  using assms by (cases s) (auto simp: tcp_trim_def take_slash)

lemma c_string_append: "NUL \<notin> set xs \<Longrightarrow> c_string (ys @ xs @ NUL # zs) (length ys) = xs"
  by (simp add: c_string_def takeWhile_append)

text \<open>The parser on a text whose pieces are known: \<open>pre\<close> is the scheme and, when there is one, the bracket.\<close>

lemma tcp_parse_pieces:
  assumes trim: "tcp_trim (sch @ body @ '':'' @ port @ [NUL]) = (length sch, fam)"
    and port: "CHR '':'' \<notin> set port" and body: "body = (if b then ''['' @ host @ '']'' else host)"
    and plain: "\<not> b \<Longrightarrow> take 1 host \<noteq> ''[''"
  shows "tcp_parse (sch @ body @ '':'' @ port @ [NUL]) (length (sch @ body @ '':'' @ port)) =
    Inr (Some (if host = [] \<or> host = ''*''
       then \<lparr>parsed_family = fam, parsed_host = None, parsed_port = length (sch @ body) + 1,
             parsed_buf = sch @ body @ '':'' @ port @ [NUL]\<rparr>
       else \<lparr>parsed_family = fam, parsed_host = Some (length sch + of_bool b), parsed_port = length (sch @ body) + 1,
             parsed_buf = sch @ (if b then ''['' else []) @ host @ NUL # (if b then '':'' else []) @ port @ [NUL]\<rparr>))"
proof -
  have sep: "memrchr (CHR '':'') (take (length (sch @ body @ '':'' @ port) - length sch)
      (drop (length sch) (sch @ body @ '':'' @ port @ [NUL]))) = Some (length body)"
    using memrchr_last [OF port, of body] by simp
  have star: "host = ''*''" if "Suc 0 = length host" "host ! 0 = CHR ''*''"
    using that by (cases host) auto
  show ?thesis
  proof (cases b)
    case True
    then show ?thesis
      using trim sep body by (auto simp: tcp_parse_def Let_def nth_append list_update_append nth_Cons' dest: star)
  next
    case False
    then show ?thesis
      using trim sep body plain
      by (cases host) (auto simp: tcp_parse_def Let_def nth_append list_update_append nth_Cons')
  qed
qed

text \<open>C35
  Parsing what was written gives it back: the family of the scheme, the host (none at all for an
  empty host or a star, which stand for every address) and the port, both read as C strings from
  the buffer the parser has cut up in place. The last colon separates the port, so the host may
  itself contain colons, in brackets or without.\<close>

theorem tcp_parse_format:
  assumes "NUL \<notin> set host" "CHR ''/'' \<notin> set host" "NUL \<notin> set port" "CHR ''/'' \<notin> set port"
    and "CHR '':'' \<notin> set port" "bracketed \<or> take 1 host \<noteq> ''[''"
  shows "case tcp_parse (tcp_format s bracketed host port @ [NUL]) (length (tcp_format s bracketed host port)) of
      Inr (Some p) \<Rightarrow>
        parsed_family p = scheme_family s \<and>
        map_option (c_string (parsed_buf p)) (parsed_host p) = (if host \<in> {[], ''*''} then None else Some host) \<and>
        c_string (parsed_buf p) (parsed_port p) = port
    | _ \<Rightarrow> False"
proof -
  let ?b = "if bracketed then ''['' else []" and ?c = "if bracketed then '':'' else []"
  define body where "body = (if bracketed then ''['' @ host @ '']'' else host)"
  have "tcp_trim (scheme_text s @ body @ '':'' @ port @ [NUL]) = (length (scheme_text s), scheme_family s)"
    using assms by (intro tcp_trim_format) (simp add: body_def)
  note parsed = tcp_parse_pieces [OF this assms(5) body_def]
  have "c_string (((scheme_text s @ body) @ '':'') @ port @ NUL # []) (length ((scheme_text s @ body) @ '':'')) = port"
    by (rule c_string_append [OF assms(3)])
  moreover have "c_string (((scheme_text s @ ?b @ host @ NUL # ?c)) @ port @ NUL # [])
      (length (scheme_text s @ ?b @ host @ NUL # ?c)) = port"
    by (rule c_string_append [OF assms(3)])
  moreover have "c_string ((scheme_text s @ ?b) @ host @ NUL # ?c @ port @ [NUL]) (length (scheme_text s @ ?b)) = host"
    by (rule c_string_append [OF assms(1)])
  ultimately show ?thesis
    using parsed assms(6) by (auto simp: tcp_format_def body_def split: if_splits)
qed

theorem tcp_parse_format_witness:
  "case tcp_parse (tcp_format Tcp6 True ''::1'' ''6666'' @ [NUL]) (length (tcp_format Tcp6 True ''::1'' ''6666'')) of
      Inr (Some p) \<Rightarrow>
        parsed_family p = AF_INET6 \<and> map_option (c_string (parsed_buf p)) (parsed_host p) = Some ''::1'' \<and>
        c_string (parsed_buf p) (parsed_port p) = ''6666''
    | _ \<Rightarrow> False"
  using tcp_parse_format [of "''::1''" "''6666''" True Tcp6] by (simp split: sum.splits option.splits)

section \<open>No descriptor is lost\<close>

text \<open>What a call may do to the open descriptors: nothing when it fails or is interrupted, and add the
  one it returns, which was not open before, when it succeeds.\<close>

definition descriptors_kept :: "int set \<Rightarrow> fd_result \<Rightarrow> int set \<Rightarrow> bool" where
  "descriptors_kept F r F' =
     (case r of Inl f \<Rightarrow> f = Interrupted \<and> F' = F
      | Inr (None, e) \<Rightarrow> is_error e \<and> F' = F
      | Inr (Some fd, e) \<Rightarrow> e = NoCondition \<and> 0 \<le> fd \<and> fd \<notin> F \<and> F' = insert fd F)"

lemma descriptors_kept_simps [simp]:
  "descriptors_kept F (Inl f) F' \<longleftrightarrow> f = Interrupted \<and> F' = F"
  "descriptors_kept F (Inr (None, e)) F' \<longleftrightarrow> is_error e \<and> F' = F"
  "descriptors_kept F (Inr (Some fd, e)) F' \<longleftrightarrow> e = NoCondition \<and> 0 \<le> fd \<and> fd \<notin> F \<and> F' = insert fd F"
  by (simp_all add: descriptors_kept_def)

lemma net_quiet_trans: "net_quiet fds infos w w1 \<Longrightarrow> net_quiet fds infos w1 w2 \<Longrightarrow> net_quiet fds infos w w2"
  by (simp add: net_quiet_def)

lemma make_listener_quiet:
  assumes C: "net_contract R fds infos" and m: "make_listener R fd ai w = (ok, w1)"
  shows "net_quiet fds infos w w1 \<and> (\<not> ok \<longrightarrow> net_errno R w1 \<noteq> 0)"
proof -
  obtain r1 w2 where 1: "net_reuseaddr R fd w = (r1, w2)" by (metis surj_pair)
  obtain r2 w3 where 2: "net_bind R fd (ai_addr ai) w2 = (r2, w3)" by (metis surj_pair)
  obtain r3 w4 where 3: "net_listen R fd w3 = (r3, w4)" by (metis surj_pair)
  show ?thesis
    using m net_contractD(5) [OF C 1] net_contractD(6) [OF C 2] net_contractD(7) [OF C 3]
    by (auto simp: make_listener_def 1 2 3 net_quiet_def split: if_splits)
qed

lemma listen_loop_fds:
  assumes C: "net_contract R fds infos"
  shows "listen_loop R ais socks err w = ((socks', err'), w') \<Longrightarrow> finite (set socks) \<Longrightarrow>
    distinct socks \<Longrightarrow> set socks \<inter> F = {} \<Longrightarrow> fds w = F \<union> set socks \<Longrightarrow>
    (socks = [] \<longrightarrow> ais = [] \<longrightarrow> err \<noteq> 0) \<Longrightarrow> (\<forall>s\<in>set socks. 0 \<le> s) \<Longrightarrow>
    distinct socks' \<and> set socks' \<inter> F = {} \<and> fds w' = F \<union> set socks' \<and> infos w' = infos w \<and>
    (\<forall>s\<in>set socks'. 0 \<le> s) \<and> (socks' = [] \<longrightarrow> err' \<noteq> 0)"
proof (induction ais arbitrary: socks err w)
  case (Cons ai ais)
  show ?case
  proof (cases "length socks < 2")
    case True
    obtain fd w1 where s: "net_socket R (ai_family ai) (ai_socktype ai) SOCK_FLAGS (ai_protocol ai) w = (fd, w1)"
      by (metis surj_pair)
    note S = net_contractD(1) [OF C s]
    show ?thesis
    proof (cases "fd = -1")
      case True
      from Cons.prems \<open>length socks < 2\<close> s True have "listen_loop R ais socks (net_errno R w1) w1 = ((socks', err'), w')" by simp
      from Cons.IH [OF this] Cons.prems S True show ?thesis by simp
    next
      case False
      obtain ok w2 where m: "make_listener R fd ai w1 = (ok, w2)" by (metis surj_pair)
      note M = make_listener_quiet [OF C m]
      show ?thesis
      proof (cases ok)
        case True
        from Cons.prems \<open>length socks < 2\<close> s False m True
        have "listen_loop R ais (socks @ [fd]) err w2 = ((socks', err'), w')" by simp
        from Cons.IH [OF this] Cons.prems S M False show ?thesis by (auto simp: net_quiet_def)
      next
        case ok: False
        let ?w3 = "net_close R fd w2"
        from Cons.prems \<open>length socks < 2\<close> s False m ok
        have "listen_loop R ais socks (net_errno R ?w3) ?w3 = ((socks', err'), w')" by (simp add: Let_def)
        from Cons.IH [OF this] Cons.prems S M False ok net_contractD(4) [OF C, of w2 fd]
        show ?thesis by (auto simp: net_quiet_def net_contractD(2,3) [OF C])
      qed
    qed
  next
    case False
    with Cons.prems show ?thesis by auto
  qed
qed simp

lemma tcp_closen_fds:
  assumes C: "net_contract R fds infos"
  shows "n \<le> length socks \<Longrightarrow> fds (tcp_closen R n socks w) = fds w - set (take n socks) \<and>
    infos (tcp_closen R n socks w) = infos w"
  by (induction n arbitrary: w) (auto simp: net_contractD(2,3) [OF C] take_Suc_conv_app_nth)

lemma connect_loop_fds:
  assumes C: "net_contract R fds infos"
  shows "connect_loop R ais err w = (r, w') \<Longrightarrow> (ais = [] \<longrightarrow> err \<noteq> 0) \<Longrightarrow> infos w' = infos w \<and>
    descriptors_kept (fds w) r (fds w')"
proof (induction ais arbitrary: err w)
  case (Cons ai ais)
  obtain fd w1 where s: "net_socket R (ai_family ai) (ai_socktype ai) SOCK_FLAGS (ai_protocol ai) w = (fd, w1)"
    by (metis surj_pair)
  obtain e w2 where c: "net_connect R fd (ai_addr ai) w1 = (e, w2)" by (metis surj_pair)
  obtain b w3 where v: "net_wait R fd kWrite w2 = (b, w3)" by (metis surj_pair)
  obtain ret se w4 where g: "net_sockerr R fd w3 = ((ret, se), w4)" by (metis surj_pair)
  note S = net_contractD(1) [OF C s] note Q = net_contractD(8) [OF C c] net_contractD(9) [OF C v] net_contractD(10) [OF C g]
  note close = net_contractD(2,3) [OF C]
  consider (no_socket) "fd < 0" | (refused) "0 \<le> fd" "e \<noteq> 0" "net_errno R w2 \<noteq> E_INPROGRESS"
    | (waits) "0 \<le> fd" "e = 0 \<or> net_errno R w2 = E_INPROGRESS" by force
  then show ?case
  proof cases
    case no_socket
    with Cons.prems s have "connect_loop R ais (net_errno R w1) w1 = (r, w')" by simp
    from Cons.IH [OF this] S no_socket show ?thesis by (auto split: if_splits)
  next
    case refused
    with Cons.prems s c have "connect_loop R ais (net_errno R w2) (net_close R fd w2) = (r, w')" by simp
    from Cons.IH [OF this] S Q refused show ?thesis by (auto simp: close net_quiet_def)
  next
    case waits
    let ?e = "if ret = -1 then net_errno R w4 else se"
    from Cons.prems waits s c v g have l: "(if b then (Inl Interrupted, net_close R fd w3)
        else if ?e \<noteq> 0 then connect_loop R ais ?e (net_close R fd w4) else (Inr (Some fd, NoCondition), w4)) = (r, w')"
      by (auto simp: tcp_getsockerr_def split: if_splits)
    from l Cons.IH [of ?e "net_close R fd w4"] S Q waits show ?thesis
      by (auto simp: close net_quiet_def split: if_splits)
  qed
qed (auto split: if_splits)

lemma tcp_getaddrinfo_fds:
  assumes C: "net_contract R fds infos" and g: "tcp_getaddrinfo R addr flag w = (x, w1)"
  obtains err res where "x = Inr (err, res)" "fds w1 = fds w" "is_error err \<longrightarrow> infos w1 = infos w"
    "\<not> is_error err \<longrightarrow> res \<noteq> [] \<and> infos w1 = Suc (infos w)"
proof (cases "tcp_parse (addr @ [NUL]) (length addr)")
  case (Inr p)
  show ?thesis
  proof (cases p)
    case None
    with g Inr that show ?thesis by (auto simp: tcp_getaddrinfo_def)
  next
    case (Some q)
    let ?call = "net_getaddrinfo R (map_option (c_string (parsed_buf q)) (parsed_host q)) (c_string (parsed_buf q) (parsed_port q))
      \<lparr>ai_flags = flag @ [AI_NUMERICHOST, AI_NUMERICSERV], ai_family = parsed_family q,
       ai_socktype = SOCK_STREAM, ai_protocol = IPPROTO_TCP, ai_addr = []\<rparr> w"
    obtain err res w2 where c: "?call = ((err, res), w2)" by (metis surj_pair)
    show ?thesis
      using g Inr Some c net_contractD(11) [OF C c] that
      by (auto simp: tcp_getaddrinfo_def Let_def EAI_SYSTEM_def split: if_splits)
  qed
qed (use tcp_parse_no_fault in blast)

text \<open>
  A world for the witnesses: a wildcard address of any family resolves to one address of each
  family, port 1 cannot be bound, and a connection is refused unless the port is 80.
\<close>

definition resolve :: "string \<Rightarrow> addrinfo \<Rightarrow> addrinfo list" where
  "resolve port hint =
     map (\<lambda>f. hint\<lparr>ai_family := f, ai_addr := port\<rparr>)
       (if ai_family hint = AF_UNSPEC then [AF_INET, AF_INET6] else [ai_family hint])"

definition net_world :: "(nat list \<times> nat \<times> int) net_ops" where
  "net_world =
     \<lparr>net_errno = (\<lambda>(l, n, e). e),
      net_getaddrinfo = (\<lambda>host port hint (l, n, e).
        if port = [] then ((-2, []), (l, n, e)) else ((0, resolve port hint), (l, Suc n, e))),
      net_freeaddrinfo = (\<lambda>res (l, n, e). (l, n - 1, e)),
      net_socket = (\<lambda>f s fl p (l, n, e). (int (Suc (sum_list l)), (Suc (sum_list l) # l, n, e))),
      net_reuseaddr = (\<lambda>fd w. (0, w)),
      net_bind = (\<lambda>fd a (l, n, e). if a = ''1'' then (-1, (l, n, 13)) else (0, (l, n, e))),
      net_listen = (\<lambda>fd w. (0, w)),
      net_connect = (\<lambda>fd a (l, n, e). if a = ''80'' then (0, (l, n, e)) else (-1, (l, n, 111))),
      net_accept = (\<lambda>fd fl (l, n, e). ((-1, AF_INET, []), (l, n, 22))),
      net_ntop = (\<lambda>f a. Some a),
      net_sockerr = (\<lambda>fd w. ((0, 0), w)),
      net_wait = (\<lambda>fd ev w. (False, w)),
      net_close = (\<lambda>fd (l, n, e). (filter (\<lambda>x. int x \<noteq> fd) l, n, e))\<rparr>"

abbreviation world_fds :: "nat list \<times> nat \<times> int \<Rightarrow> int set" where
  "world_fds w \<equiv> int ` set (fst w)"

lemma fresh_sum: "Suc (sum_list l) \<notin> set (l :: nat list)"
  using member_le_sum_list [of "Suc (sum_list l)" l] by auto

lemma net_world_contract: "net_contract net_world world_fds (fst \<circ> snd)"
proof -
  have "False" if "1 + int (sum_list l) = int x" "x \<in> set l" for l x
  proof -
    from that have "x = Suc (sum_list l)" by linarith
    with that fresh_sum show False by simp
  qed
  then show ?thesis
    unfolding net_contract_def
    by (intro conjI) (auto simp: net_world_def net_quiet_def resolve_def EAI_SYSTEM_def split: if_splits)
qed

lemma listen_keeps:
  assumes C: "net_contract R fds infos" and l: "tcp_listen R addr w = (r, w')"
  shows "descriptors_kept (fds w) r (fds w') \<and> r \<noteq> Inl Interrupted \<and> infos w' = infos w"
proof -
  obtain x w1 where g: "tcp_getaddrinfo R addr [AI_PASSIVE] w = (x, w1)" by (metis surj_pair)
  obtain err res where x: "x = Inr (err, res)" and fds: "fds w1 = fds w"
    and failed: "is_error err \<longrightarrow> infos w1 = infos w" and found: "\<not> is_error err \<longrightarrow> res \<noteq> [] \<and> infos w1 = Suc (infos w)"
    by (rule tcp_getaddrinfo_fds [OF C g])
  obtain socks last w2 where loop: "listen_loop R res [] 0 w1 = ((socks, last), w2)" by (metis surj_pair)
  show ?thesis
  proof (cases "is_error err")
    case False
    have L: "distinct socks \<and> set socks \<inter> fds w = {} \<and> fds w2 = fds w \<union> set socks \<and> infos w2 = infos w1 \<and>
        (\<forall>s\<in>set socks. 0 \<le> s) \<and> (socks = [] \<longrightarrow> last \<noteq> 0)"
      using listen_loop_fds [OF C loop, of "fds w"] fds found [THEN mp, OF False] by simp
    let ?w3 = "net_freeaddrinfo R res w2"
    note free = net_contractD(12,13) [OF C, of res w2]
    consider (none) "socks = []" | (one) fd where "socks = [fd]" | (many) "length socks > 1"
      by (cases socks; cases "tl socks") auto
    then show ?thesis
    proof cases
      case many
      then have "r = Inr (None, NetCondition ambiguous_address)" "w' = tcp_closen R (length socks) socks ?w3"
        using l g x False loop by (auto simp: tcp_listen_def Let_def split: if_splits)
      then show ?thesis using tcp_closen_fds [OF C, of "length socks" socks ?w3] L free found [THEN mp, OF False] by auto
    qed (use l g x False loop L free found [THEN mp, OF False] in \<open>auto simp: tcp_listen_def Let_def\<close>)
  qed (use l g x fds failed in \<open>auto simp: tcp_listen_def\<close>)
qed

text \<open>C36
  \<^verbatim>\<open>listen\<close> loses no descriptor and no address list and none of its assertions fails: on every path,
  a bad address, no usable address, or two of them, everything opened on the way is closed again
  and an error is reported; on success the one new descriptor is the one it returns.\<close>

theorem tcp_listen_no_leak:
  assumes "net_contract R fds infos"
  shows "case tcp_listen R addr w of (r, w') \<Rightarrow>
    descriptors_kept (fds w) r (fds w') \<and> r \<noteq> Inl Interrupted \<and> infos w' = infos w"
  using listen_keeps [OF assms] by (auto split: prod.splits)

theorem tcp_listen_no_leak_witness:
  "case tcp_listen net_world ''*:80'' ([3, 4], 0, 0) of (r, w') \<Rightarrow>
    descriptors_kept {3, 4} r (world_fds w') \<and> r \<noteq> Inl Interrupted \<and> fst (snd w') = 0"
  using tcp_listen_no_leak [OF net_world_contract, of "([3, 4], 0, 0)" "''*:80''"] by simp

lemma connect_keeps:
  assumes C: "net_contract R fds infos" and l: "tcp_connect R addr w = (r, w')"
  shows "descriptors_kept (fds w) r (fds w') \<and> infos w' = infos w"
proof -
  obtain x w1 where g: "tcp_getaddrinfo R addr [] w = (x, w1)" by (metis surj_pair)
  obtain err res where x: "x = Inr (err, res)" and fds: "fds w1 = fds w"
    and failed: "is_error err \<longrightarrow> infos w1 = infos w" and found: "\<not> is_error err \<longrightarrow> res \<noteq> [] \<and> infos w1 = Suc (infos w)"
    by (rule tcp_getaddrinfo_fds [OF C g])
  obtain r2 w2 where loop: "connect_loop R res 0 w1 = (r2, w2)" by (metis surj_pair)
  show ?thesis
  proof (cases "is_error err")
    case False
    with found connect_loop_fds [OF C loop] l g x fds loop net_contractD(12,13) [OF C, of res w2]
    show ?thesis by (auto simp: tcp_connect_def)
  qed (use l g x fds failed in \<open>auto simp: tcp_connect_def\<close>)
qed

text \<open>C37
  \<^verbatim>\<open>connect\<close> loses no descriptor and no address list, uses no null pointer and none of its
  assertions fails: every socket it gave up on, or was interrupted on, is closed, and on success
  the one new descriptor is the one it returns.\<close>

theorem tcp_connect_no_leak:
  assumes "net_contract R fds infos"
  shows "case tcp_connect R addr w of (r, w') \<Rightarrow> descriptors_kept (fds w) r (fds w') \<and> infos w' = infos w"
  using connect_keeps [OF assms] by (auto split: prod.splits)

theorem tcp_connect_no_leak_witness:
  "case tcp_connect net_world ''tcp4://10.0.0.1:80'' ([3], 0, 0) of (r, w') \<Rightarrow>
    descriptors_kept {3} r (world_fds w') \<and> fst (snd w') = 0"
  using tcp_connect_no_leak [OF net_world_contract, of "([3], 0, 0)" "''tcp4://10.0.0.1:80''"] by simp

section \<open>accept\<close>

text \<open>
  A failed \<^verbatim>\<open>accept4\<close> opens nothing and leaves a reason, a successful one opens the descriptor it
  returns. \<open>patience\<close> bounds how often the listener is ready, or the call interrupted, with no
  connection to take.
\<close>

definition accept_contract :: "'w net_ops \<Rightarrow> ('w \<Rightarrow> int set) \<Rightarrow> ('w \<Rightarrow> nat) \<Rightarrow> bool" where
  "accept_contract R fds patience \<longleftrightarrow>
     (\<forall>l w conn peer w1. net_accept R l SOCK_FLAGS w = ((conn, peer), w1) \<longrightarrow>
        (if conn < 0 then fds w1 = fds w \<and> net_errno R w1 \<noteq> 0 \<and> patience w1 < patience w
         else conn \<notin> fds w \<and> fds w1 = insert conn (fds w))) \<and>
     (\<forall>l w b w1. net_wait R l kRead w = (b, w1) \<longrightarrow> fds w1 = fds w \<and> patience w1 \<le> patience w)"

lemma tcp_accept_returns:
  assumes C: "accept_contract R fds patience"
  shows "\<exists>r text w'. tcp_accept R l peer w = Some ((r, text), w') \<and> descriptors_kept (fds w) r (fds w')"
proof (induction "patience w" arbitrary: w rule: less_induct)
  case less
  obtain conn family addr w1 where a: "net_accept R l SOCK_FLAGS w = ((conn, family, addr), w1)" by (metis surj_pair)
  obtain b w2 where v: "net_wait R l kRead w1 = (b, w2)" by (metis surj_pair)
  have A: "if conn < 0 then fds w1 = fds w \<and> net_errno R w1 \<noteq> 0 \<and> patience w1 < patience w
      else conn \<notin> fds w \<and> fds w1 = insert conn (fds w)"
    using C a unfolding accept_contract_def by blast
  have V: "fds w2 = fds w1" "patience w2 \<le> patience w1"
    using C v unfolding accept_contract_def by blast+
  consider (conn) "0 \<le> conn" | (wait) "conn < 0" "net_errno R w1 = E_AGAIN" "\<not> b"
    | (intr) "conn < 0" "net_errno R w1 = E_INTR" | (stop) "conn < 0" "net_errno R w1 = E_AGAIN \<longrightarrow> b" "net_errno R w1 \<noteq> E_INTR"
    by force
  then show ?case
  proof cases
    case wait
    then show ?thesis using less [of w2] A V a v by (subst tcp_accept.simps) (simp add: Let_def)
  next
    case intr
    then show ?thesis using less [of w1] A a by (subst tcp_accept.simps) (simp add: Let_def E_INTR_def E_AGAIN_def)
  qed (use A V a v in \<open>subst tcp_accept.simps; auto simp: Let_def\<close>)+
qed

end
