(* ===== verification/Echo_Server.thy ===== *)
theory Echo_Server
  imports Echo Tcp Shared_Callable
begin

text \<open>
  The first process of \<^verbatim>\<open>examples/echo/server.cpp\<close>: it listens, accepts, and hands each connection to a new
  process (\<open>Echo\<close>) in a lambda that owns the descriptor, which can only be moved (\<open>Shared_Callable\<close>): it is
  closed when the lambda is destroyed.
\<close>

section \<open>The entry\<close>

text \<open>How the entry ends: the exception of \<^verbatim>\<open>accept\<close> or of a failed \<^verbatim>\<open>listen\<close>, or a return after an error.\<close>

datatype server_end = ListenFailed error_condition | AcceptFailed error_condition | ServerFault net_fault

text \<open>
  The loop, of which \<open>n\<close> rounds are looked at: the descriptors given to spawned processes, in order, and how
  it has ended, if it has. Between two rounds \<^verbatim>\<open>conn\<close> is empty, for it has been moved from. The printing and
  the peer's address are left out.
\<close>

fun server_loop :: "'w net_ops \<Rightarrow> nat \<Rightarrow> int \<Rightarrow> 'w \<Rightarrow> ((server_end option \<times> int list) \<times> 'w) option" where
  "server_loop R 0 listener w = Some ((None, []), w)"
| "server_loop R (Suc n) listener w =
     (case tcp_accept R listener (Some []) w of
        None \<Rightarrow> None
      | Some ((Inl f, _), w1) \<Rightarrow> Some ((Some (ServerFault f), []), w1)
      | Some ((Inr (conn, error), _), w1) \<Rightarrow>
          if is_error error then Some ((Some (AcceptFailed error), []), w1)
          else (case conn of
                  None \<Rightarrow> Some ((Some (ServerFault AssertionFailed), []), w1)
                | Some client \<Rightarrow> map_option (\<lambda>((end, conns), w2). ((end, client # conns), w2)) (server_loop R n listener w1)))"

text \<open>The listener is closed when the entry is left.\<close>

definition server_entry :: "'w net_ops \<Rightarrow> nat \<Rightarrow> 'w \<Rightarrow> ((server_end option \<times> int list) \<times> 'w) option" where
  "server_entry R n w =
     (case tcp_listen R ''tcp4://*:3000'' w of
        (Inl f, w1) \<Rightarrow> Some ((Some (ServerFault f), []), w1)
      | (Inr (listener, error), w1) \<Rightarrow>
          (case listener of
             None \<Rightarrow> Some ((Some (ListenFailed error), []), w1)
           | Some l \<Rightarrow> map_option (\<lambda>((end, conns), w2). ((end, conns), if end = None then w2 else net_close R l w2))
               (server_loop R n l w1)))"

section \<open>Every descriptor has one owner\<close>

lemma server_loop_keeps:
  assumes C: "accept_contract R fds patience"
  shows "\<exists>end conns w'. server_loop R n l w = Some ((end, conns), w') \<and> distinct conns \<and> set conns \<inter> fds w = {} \<and>
    fds w' = fds w \<union> set conns \<and> end \<noteq> Some (ServerFault AssertionFailed) \<and> length conns \<le> n"
proof (induction n arbitrary: w)
  case (Suc n)
  from tcp_accept_returns [OF C, of l "Some []" w] obtain r peer w1 where
    a: "tcp_accept R l (Some []) w = Some ((r, peer), w1)" "descriptors_kept (fds w) r (fds w1)" by blast
  show ?case
  proof (cases r)
    case (Inl f)
    with a show ?thesis by simp
  next
    case (Inr ce)
    obtain conn error where ce: "ce = (conn, error)" by fastforce
    show ?thesis
    proof (cases conn)
      case None
      with a Inr ce show ?thesis by simp
    next
      case (Some client)
      with a Inr ce have k: "error = NoCondition" "client \<notin> fds w" "fds w1 = insert client (fds w)" by simp_all
      from Suc.IH [of w1] obtain "end" conns w' where
        i: "server_loop R n l w1 = Some ((end, conns), w')" "distinct conns" "set conns \<inter> fds w1 = {}"
          "fds w' = fds w1 \<union> set conns" "end \<noteq> Some (ServerFault AssertionFailed)" "length conns \<le> n" by blast
      with a(1) Inr ce Some k show ?thesis
        by (intro exI [of _ "end"] exI [of _ "client # conns"] exI [of _ w']) auto
    qed
  qed
qed simp

lemma closes_all: "net_contract R fds infos \<Longrightarrow> fds (fold (net_close R) conns w) = fds w - set conns"
  by (induction conns arbitrary: w) (auto simp: net_contractD(2))

text \<open>The echo server loses no descriptor. However many connections come and whatever fails, the entry goes on or ends without a
  failed assertion; each connection it accepts goes to exactly one process, as a descriptor that
  was not open before. Once the entry has ended and these processes have closed theirs, exactly the
  descriptors are open that were open before it began.\<close>

theorem echo_server_no_leak:
  assumes "net_contract R fds infos" "accept_contract R fds patience"
  shows "\<exists>end conns w'. server_entry R n w = Some ((end, conns), w') \<and> end \<noteq> Some (ServerFault AssertionFailed) \<and>
    distinct conns \<and> set conns \<inter> fds w = {} \<and> length conns \<le> n \<and>
    (end \<noteq> None \<longrightarrow> fds w' = fds w \<union> set conns \<and> fds (fold (net_close R) conns w') = fds w)"
proof -
  obtain r w1 where l: "tcp_listen R ''tcp4://*:3000'' w = (r, w1)" by fastforce
  from listen_keeps [OF assms(1) l] have k: "descriptors_kept (fds w) r (fds w1)" "r \<noteq> Inl Interrupted" by simp_all
  show ?thesis
  proof (cases r)
    case (Inl f)
    with k show ?thesis by simp
  next
    case (Inr le)
    obtain listener error where le: "le = (listener, error)" by fastforce
    show ?thesis
    proof (cases listener)
      case None
      with l k Inr le show ?thesis by (simp add: server_entry_def)
    next
      case (Some fd)
      with k Inr le have fd: "fd \<notin> fds w" "fds w1 = insert fd (fds w)" by simp_all
      from server_loop_keeps [OF assms(2), of n fd w1] obtain "end" conns w' where
        s: "server_loop R n fd w1 = Some ((end, conns), w')" "distinct conns" "set conns \<inter> fds w1 = {}"
          "fds w' = fds w1 \<union> set conns" "end \<noteq> Some (ServerFault AssertionFailed)" "length conns \<le> n" by blast
      with l Inr le Some fd s show ?thesis
        by (auto simp: server_entry_def net_contractD(2) [OF assms(1)] closes_all [OF assms(1)])
    qed
  qed
qed

text \<open>For the witness: connections come in turns with failures of \<^verbatim>\<open>accept4\<close>.\<close>

definition busy_world :: "(nat list \<times> nat \<times> int) net_ops" where
  "busy_world = net_world\<lparr>net_accept := (\<lambda>fd fl (l, n, e).
     if 1 < e then ((-1, AF_INET, []), (l, n, e - 1))
     else ((int (Suc (sum_list l)), AF_INET, ''9''), (Suc (sum_list l) # l, n, 22)))\<rparr>"

lemma busy_contracts:
  "net_contract busy_world world_fds (fst \<circ> snd)" "accept_contract busy_world world_fds (\<lambda>(l, n, e). nat e)"
proof -
  have "net_contract busy_world = (net_contract net_world :: (nat list \<times> nat \<times> int \<Rightarrow> int set) \<Rightarrow> _)"
    by (simp add: net_contract_def busy_world_def fun_eq_iff)
  then show "net_contract busy_world world_fds (fst \<circ> snd)" using net_world_contract by simp
  have "int (Suc (sum_list l)) \<notin> int ` set l" for l :: "nat list" using fresh_sum [of l] by (metis imageE of_nat_eq_iff)
  then show "accept_contract busy_world world_fds (\<lambda>(l, n, e). nat e)"
    by (auto simp: accept_contract_def busy_world_def net_world_def split: if_splits)
qed

theorem echo_server_no_leak_witness:
  "\<exists>end conns w'. server_entry busy_world 5 ([3, 4], 0, 0) = Some ((end, conns), w') \<and> end \<noteq> Some (ServerFault AssertionFailed) \<and>
    distinct conns \<and> set conns \<inter> {3, 4} = {} \<and> length conns \<le> 5 \<and>
    (end \<noteq> None \<longrightarrow> world_fds w' = {3, 4} \<union> set conns \<and> world_fds (fold (net_close busy_world) conns w') = {3, 4})"
  using echo_server_no_leak [OF busy_contracts, of 5 "([3, 4], 0, 0)"] by simp

end
