(* ===== verification/Client_Program.thy ===== *)
theory Client_Program
  imports Echo_Client Echo_Server Boot
begin

text \<open>
  The program of \<^verbatim>\<open>examples/echo/client.cpp\<close> as a whole: a client from its connection to the message it leaves
  behind, whichever way it ends, and the first process, which spawns the clients and ends the program with the last of them.
\<close>

section \<open>A client\<close>

text \<open>
  \<^verbatim>\<open>getSeq\<close> returns a number or throws what \<^verbatim>\<open>request\<close> throws: the numbers up to the first exception, and the exception.
\<close>

fun got_numbers :: "((exn + uint64) \<times> byte list) list \<Rightarrow> (uint64 \<times> byte list) list \<times> exn option" where
  "got_numbers [] = ([], None)"
| "got_numbers ((Inl e, data) # rounds) = ([], Some e)"
| "got_numbers ((Inr seqi, data) # rounds) =
     (case got_numbers rounds of (numbers, thrown) \<Rightarrow> ((seqi, data) # numbers, thrown))"

text \<open>
  How a client ends: by the exception of an interrupted \<^verbatim>\<open>connect\<close>, by \<^verbatim>\<open>process::exit\<close> after a failed one, by an
  error of the loop, or by an exception of \<^verbatim>\<open>getSeq\<close>.
\<close>

datatype client_end = ConnectThrew net_fault | ConnectFailed error_condition exn | LoopFailed io_err | RequestThrew exn

text \<open>The destructor of \<^verbatim>\<open>wild::Fd\<close>: nothing is closed where there is no descriptor.\<close>

definition close_fd :: "'w net_ops \<Rightarrow> int option \<Rightarrow> 'w \<Rightarrow> 'w" where
  "close_fd N server w = (case server of None \<Rightarrow> w | Some fd \<Rightarrow> net_close N fd w)"

text \<open>
  The result holds the end, if the rounds that are looked at reach it, and the identifiers the guard has sent to the first process in
  \<^verbatim>\<open>ClientExitMessage\<close>s. The descriptor is closed when the function is left, before the guard runs. \<open>R\<close> and \<open>c\<close> are
  the operations and the state of the connection; shuffling is part of the rounds.
\<close>

definition client_run :: "'w net_ops \<Rightarrow> 'c io_ops \<Rightarrow> nat \<Rightarrow> uint64 \<Rightarrow> ((exn + uint64) \<times> byte list) list \<Rightarrow> memory \<Rightarrow> 'w \<Rightarrow> 'c \<Rightarrow>
    ((client_end option \<times> uint64 list) \<times> 'w) option" where
  "client_run N R buf ident rounds mem w c =
     (case tcp_connect N ''tcp4://*:3000'' w of
        (Inl f, w1) \<Rightarrow> Some ((Some (ConnectThrew f), [ident]), w1)
      | (Inr (server, error), w1) \<Rightarrow>
          if is_error error then Some ((Some (ConnectFailed error ProcessExit), [ident]), close_fd N server w1)
          else (case got_numbers rounds of (numbers, thrown) \<Rightarrow>
                  (case client_loop R buf numbers mem c of
                     None \<Rightarrow> None
                   | Some (printed, err, c1) \<Rightarrow>
                       if err \<noteq> NoError then Some ((Some (LoopFailed err), [ident]), close_fd N server w1)
                       else (case thrown of
                               Some e \<Rightarrow> Some ((Some (RequestThrew e), [ident]), close_fd N server w1)
                             | None \<Rightarrow> Some ((None, []), w1)))))"

section \<open>The first process\<close>

text \<open>The identifiers of the clients \<^verbatim>\<open>entry\<close> spawns.\<close>

definition client_count :: nat where "client_count = 10000"

definition client_ids :: "nat \<Rightarrow> uint64 list" where
  "client_ids n = map of_nat [1..<Suc n]"

text \<open>
  The spawning itself, on the runtime: the numbering service, then the clients, with the identifiers from \<open>i\<close> on. The
  objects, coroutines and identifier pools of the new processes come from the allocator, one triple for each. The result holds the process of the
  service and, for each client, its process and the identifier it is given.
\<close>

fun spawn_clients :: "('l, 'v message) append_ops \<Rightarrow> nat \<Rightarrow> (addr \<times> co \<times> 'i) list \<Rightarrow> ('v, 'l, 'i, 'h) runtime \<Rightarrow>
    ((process_t \<times> uint64) list \<times> ('v, 'l, 'i, 'h) runtime) option" where
  "spawn_clients A i [] s = Some ([], s)"
| "spawn_clients A i ((p, co, ids) # rest) s =
     (case rt_spawn A p co ids s of
        None \<Rightarrow> None
      | Some (pid, s1) \<Rightarrow>
          (case spawn_clients A (Suc i) rest s1 of
             None \<Rightarrow> None
           | Some (clients, s2) \<Rightarrow> Some ((pid, of_nat i) # clients, s2)))"

definition entry_spawn :: "('l, 'v message) append_ops \<Rightarrow> addr \<times> co \<times> 'i \<Rightarrow> (addr \<times> co \<times> 'i) list \<Rightarrow> ('v, 'l, 'i, 'h) runtime \<Rightarrow>
    ((process_t \<times> (process_t \<times> uint64) list) \<times> ('v, 'l, 'i, 'h) runtime) option" where
  "entry_spawn A service clients s =
     (case service of (p, co, ids) \<Rightarrow>
       (case rt_spawn A p co ids s of
          None \<Rightarrow> None
        | Some (seq, s1) \<Rightarrow> map_option (\<lambda>(spawned, s2). ((seq, spawned), s2)) (spawn_clients A 1 clients s1)))"

text \<open>
  Its callback, on one \<^verbatim>\<open>ClientExitMessage\<close> after another: the variable \<^verbatim>\<open>n\<close> goes down, and at zero \<^verbatim>\<open>os::exit(0)\<close> stops the
  scheduler and leaves \<^verbatim>\<open>serve\<close> by its exception.
\<close>

fun entry_serve :: "'s signal_ops \<Rightarrow> nat \<Rightarrow> thread \<Rightarrow> int \<Rightarrow> uint64 list \<Rightarrow> ('l, 's) sched \<Rightarrow> exn option \<times> int \<times> ('l, 's) sched" where
  "entry_serve G workers cur n [] sc = (None, n, sc)"
| "entry_serve G workers cur n (ident # ids) sc =
     (case exit_callback n of (n1, done_all) \<Rightarrow>
        if done_all then (case os_exit G workers False cur 0 sc of (thrown, sc1) \<Rightarrow> (thrown, n1, sc1))
        else entry_serve G workers cur n1 ids sc)"

section \<open>The clients are spawned\<close>

lemma rt_spawn_result: "\<exists>t. rt_spawn A p co ids s = Some (process_t (rg_seq (rt_reg s) + 1), t) \<and>
    rg_seq (rt_reg t) = rg_seq (rt_reg s) + 1 \<and> rt_resumed t = rt_resumed s @ [p]"
  by (simp add: rt_spawn_def create_def reg_def Let_def rt_sched_resume_def ref_def)

lemma spawn_clients_result:
  "\<exists>clients t. spawn_clients A i ps s = Some (clients, t) \<and> rt_resumed t = rt_resumed s @ map fst ps \<and>
    clients = map (\<lambda>k. (process_t (rg_seq (rt_reg s) + 1 + of_nat k), of_nat (i + k))) [0..<length ps]"
proof (induction ps arbitrary: i s)
  case (Cons x ps)
  obtain p co ids where x: "x = (p, co, ids)" by (cases x)
  from rt_spawn_result [of A p co ids s] obtain t where t: "rt_spawn A p co ids s = Some (process_t (rg_seq (rt_reg s) + 1), t)"
    "rg_seq (rt_reg t) = rg_seq (rt_reg s) + 1" "rt_resumed t = rt_resumed s @ [p]" by blast
  from Cons.IH [of "Suc i" t] obtain clients u where u: "spawn_clients A (Suc i) ps t = Some (clients, u)"
    "rt_resumed u = rt_resumed t @ map fst ps"
    "clients = map (\<lambda>k. (process_t (rg_seq (rt_reg t) + 1 + of_nat k), of_nat (Suc i + k))) [0..<length ps]" by blast
  have "[0..<length (x # ps)] = 0 # map Suc [0..<length ps]" by (subst upt_conv_Cons) (simp_all add: map_Suc_upt del: upt_Suc)
  with x t u show ?case by (simp add: add_ac del: upt_Suc)
qed simp

text \<open>
  The service and the clients are queued in the order in which they are spawned; no two of them have the same process identifier, and the clients are given the
  identifiers the first process counts.
\<close>

theorem entry_spawn_exact:
  assumes "length ps = client_count"
  shows "\<exists>seq clients t. entry_spawn A (p, co, ids) ps s = Some ((seq, clients), t) \<and> map snd clients = client_ids client_count \<and>
    distinct (seq # map fst clients) \<and> rt_resumed t = rt_resumed s @ p # map fst ps"
proof -
  let ?i = "rg_seq (rt_reg s)"
  from rt_spawn_result [of A p co ids s] obtain s1 where s1: "rt_spawn A p co ids s = Some (process_t (?i + 1), s1)"
    "rg_seq (rt_reg s1) = ?i + 1" "rt_resumed s1 = rt_resumed s @ [p]" by blast
  from spawn_clients_result [of A 1 ps s1] obtain clients t where t: "spawn_clients A 1 ps s1 = Some (clients, t)"
    "rt_resumed t = rt_resumed s1 @ map fst ps"
    "clients = map (\<lambda>k. (process_t (?i + 1 + 1 + of_nat k), of_nat (1 + k))) [0..<client_count]"
    unfolding s1(2) assms by blast
  have ids: "map snd clients = client_ids client_count"
    unfolding t(3) client_ids_def One_nat_def map_Suc_upt [symmetric] by (simp add: o_def del: upt_Suc map_Suc_upt)
  have "process_t (?i + 1) # map fst clients = map (\<lambda>k. process_t (?i + 1 + of_nat k)) [0..<Suc client_count]"
    unfolding t(3) upt_conv_Cons [OF zero_less_Suc] map_Suc_upt [symmetric] by (simp add: add_ac)
  moreover have "distinct (map (\<lambda>k. process_t (?i + 1 + of_nat k)) [0..<Suc client_count])"
  proof -
    have "inj_on (\<lambda>k. process_t (?i + 1 + of_nat k)) {0..<Suc client_count}"
    proof (rule inj_onI)
      fix k j assume k: "k \<in> {0..<Suc client_count}" "j \<in> {0..<Suc client_count}"
        and "process_t (?i + 1 + of_nat k) = process_t (?i + 1 + of_nat j)"
      then have "(of_nat k :: uint32) = of_nat j" by simp
      then have "unat (of_nat k :: uint32) = unat (of_nat j :: uint32)" by simp
      with k show "k = j" by (simp add: unat_of_nat client_count_def)
    qed
    then show ?thesis unfolding distinct_map by (simp del: upt_Suc)
  qed
  ultimately have "distinct (process_t (?i + 1) # map fst clients)" by metis
  with ids s1 t(1,2) show ?thesis by (simp add: entry_spawn_def)
qed

theorem entry_spawn_exact_witness:
  "\<exists>seq clients t. entry_spawn queue_ops (3, 4, 0) (map (\<lambda>k. (k, 0, 0)) [5..<5 + client_count]) (runtime_start :: (nat, nat message list, nat, nat) runtime) =
    Some ((seq, clients), t) \<and> distinct (seq # map fst clients)"
  using entry_spawn_exact [of "map (\<lambda>k. (k, 0, 0)) [5..<5 + client_count]" queue_ops 3 4 0 runtime_start] by auto

section \<open>Every client leaves one message\<close>

lemma client_loop_returns:
  assumes "stream_contract R incoming rpatience" "sink_contract R sent wpatience"
  shows "\<exists>printed err c1. client_loop R buf rounds mem c = Some (printed, err, c1)"
proof (induction rounds arbitrary: mem c)
  case (Cons r rounds)
  obtain seqi data where r: "r = (seqi, data)" by fastforce
  from write_loop_exact [OF assms(2), of data 0 c] obtain n err c1 where
    w: "io_write R data c = Some ((n, err), c1)" by (auto simp: io_write_def)
  from read_full_loop_exact [OF assms(1), of buf "length data" 0 mem c1] obtain m err1 mem1 c2 where
    b: "read_full R buf (length data) mem c1 = Some ((m, err1), mem1, c2)" by (auto simp: read_full_def)
  from Cons.IH [of mem1 c2] r w b show ?case by auto
qed simp

text \<open>
  Whatever happens to a client, when it has ended it has sent one message with its identifier to the first process and closed the
  descriptor it opened; until then it has sent none and has that one descriptor open. It ends when \<^verbatim>\<open>connect\<close> fails,
  a read or a write does, or a request throws.
\<close>

theorem client_leaves_message:
  assumes "net_contract N fds infos" "stream_contract R incoming rpatience" "sink_contract R sent wpatience"
  shows "\<exists>how ids w'. client_run N R buf ident rounds mem w c = Some ((how, ids), w') \<and>
    (case how of
       None \<Rightarrow> ids = [] \<and> (\<exists>fd. fd \<notin> fds w \<and> fds w' = insert fd (fds w)) \<and> snd (got_numbers rounds) = None
     | Some e \<Rightarrow> ids = [ident] \<and> fds w' = fds w \<and> (\<forall>f. e = ConnectThrew f \<longrightarrow> f = Interrupted))"
proof -
  obtain r w1 where l: "tcp_connect N ''tcp4://*:3000'' w = (r, w1)" by fastforce
  from connect_keeps [OF assms(1) l] have k: "descriptors_kept (fds w) r (fds w1)" by simp
  show ?thesis
  proof (cases r)
    case (Inl f)
    with l k show ?thesis by (auto simp: client_run_def close_fd_def)
  next
    case (Inr se)
    obtain server error where se: "se = (server, error)" by fastforce
    show ?thesis
    proof (cases server)
      case None
      with l k Inr se show ?thesis by (auto simp: client_run_def close_fd_def)
    next
      case (Some fd)
      with k Inr se have fd: "error = NoCondition" "fd \<notin> fds w" "fds w1 = insert fd (fds w)" by simp_all
      obtain numbers thrown where g: "got_numbers rounds = (numbers, thrown)" by fastforce
      from client_loop_returns [OF assms(2,3), of buf numbers mem c] obtain printed err c1 where
        "client_loop R buf numbers mem c = Some (printed, err, c1)" by blast
      moreover have "fds (net_close N fd w1) = fds w" using fd(2,3) net_contractD(2) [OF assms(1)] by auto
      ultimately show ?thesis
        using l Inr se Some fd g by (cases "err = NoError"; cases thrown) (auto simp: client_run_def close_fd_def)
    qed
  qed
qed

text \<open>For the witness: a connection to an echo, on which the third write fails.\<close>

theorem client_leaves_message_witness:
  "\<exists>how ids w'. client_run net_world loopback 100 7 [(Inr 1, [48, 49]), (Inr 2, [49, 48])] (\<lambda>_. 0) ([3], 0, 0) ([], 3) =
      Some ((how, ids), w') \<and> (how \<noteq> None \<longrightarrow> ids = [7] \<and> world_fds w' = {3})"
proof -
  from client_leaves_message [OF net_world_contract loopback_contracts, of 100 7 "[(Inr 1, [48, 49]), (Inr 2, [49, 48])]" "\<lambda>_. 0" "([3], 0, 0)" "([], 3)"]
  obtain how ids w' where "client_run net_world loopback 100 7 [(Inr 1, [48, 49]), (Inr 2, [49, 48])] (\<lambda>_. 0) ([3], 0, 0) ([], 3) =
      Some ((how, ids), w')" "case how of None \<Rightarrow> True | Some e \<Rightarrow> ids = [7] \<and> world_fds w' = {3}"
    by (auto split: option.splits)
  then show ?thesis by (auto split: option.splits)
qed

section \<open>The program ends with the last client\<close>

lemma client_ids_distinct: "n < 2 ^ 64 \<Longrightarrow> distinct (client_ids n) \<and> length (client_ids n) = n"
proof -
  assume n: "n < 2 ^ 64"
  have "inj_on (of_nat :: nat \<Rightarrow> uint64) {1..<Suc n}"
  proof (rule inj_onI)
    fix i j assume "i \<in> {1..<Suc n}" "j \<in> {1..<Suc n}" and e: "(of_nat i :: uint64) = of_nat j"
    then have "i < 2 ^ 64" "j < 2 ^ 64" using n by auto
    moreover from e have "unat (of_nat i :: uint64) = unat (of_nat j :: uint64)" by simp
    ultimately show "i = j" by (simp add: unat_of_nat)
  qed
  then show ?thesis unfolding client_ids_def distinct_map by (simp del: upt.simps)
qed

lemma entry_serve_counts:
  "int (length ids) \<le> n \<Longrightarrow> 0 < n \<Longrightarrow> entry_serve G workers cur n ids sc =
    (if int (length ids) = n then (Some (rt_exit cur), 0, sched_stop G workers 0 sc) else (None, n - int (length ids), sc))"
  by (induction ids arbitrary: n) (auto simp: exit_callback_def os_exit_def Let_def)

text \<open>
  The clients send one message each, in any order. As long as one of them has not, the first process goes on to serve; with the message of the last of
  the ten thousand it stops the program with the code 0 and throws the exception that ends a process.
\<close>

theorem program_ends_with_last_client:
  assumes "distinct ids" "set ids \<subseteq> set (client_ids client_count)"
  shows "entry_serve G workers cur (int client_count) ids sc =
    (if set ids = set (client_ids client_count) then (Some (rt_exit cur), 0, sched_stop G workers 0 sc)
     else (None, int (client_count - length ids), sc))"
proof -
  have d: "distinct (client_ids client_count)" "length (client_ids client_count) = client_count"
    using client_ids_distinct [of client_count] by (simp_all add: client_count_def)
  then have c: "card (set (client_ids client_count)) = client_count" "card (set ids) = length ids"
    using assms(1) by (simp_all add: distinct_card)
  then have "length ids \<le> client_count" using card_mono [OF _ assms(2)] by simp
  moreover have "set ids = set (client_ids client_count) \<longleftrightarrow> length ids = client_count"
    using c card_subset_eq [OF _ assms(2)] by auto
  moreover have "0 < int client_count" by (simp add: client_count_def)
  ultimately show ?thesis using entry_serve_counts [of ids "int client_count" G workers cur sc] by auto
qed

theorem program_ends_with_last_client_witness:
  "fst (entry_serve \<lparr>sg_send = Suc, sg_wait = (\<lambda>n. if n = 0 then None else Some (n - 1))\<rparr> 2 (Some (7, 3)) (int client_count)
    (client_ids client_count) (sched_new queue_ops 0)) = Some ProcessExit"
proof -
  have "distinct (client_ids client_count)" using client_ids_distinct [of client_count] by (simp add: client_count_def)
  note program_ends_with_last_client [OF this subset_refl, of "\<lparr>sg_send = Suc, sg_wait = (\<lambda>n. if n = 0 then None else Some (n - 1))\<rparr>" 2
    "Some (7, 3)" "sched_new queue_ops 0"]
  then show ?thesis by (simp add: rt_exit_def)
qed

end
