(* ===== verification/Spec2Isabelle.thy ===== *)
theory Spec2Isabelle
  imports Sleep Process_Props Process_Limits Switch Shared_Callable Registry_Spec Scheduler_Spec Mutex_Spec Session_Handle
    Message_Pool Coroutine_Context Event_Module Handlers Startup Timer_Nodes Coroutine_Api Kqueue_Wake Io Interleaving Client_Program Tcp
begin

text \<open>
  A model of stp, a runtime for processes made of coroutines that exchange messages, and the
  theorems that make it correct.

  The program. A process (\<^verbatim>\<open>class Process\<close> of \<^verbatim>\<open>src/process.cpp\<close>) owns coroutines and a
  mailbox. Other threads push messages; when the process was waiting, the push puts it on the queue
  of the scheduler, where a worker thread takes it and runs one turn: dispatch messages until a
  coroutine is ready, then run coroutines until none is. Requests carry a session number, and the
  response to one carries the negated number and wakes the coroutine blocked on it. The timer
  (\<^verbatim>\<open>src/time.cpp\<close>) and the poller (\<^verbatim>\<open>src/fd_epoll.cpp\<close>, \<^verbatim>\<open>src/fd_kqueue.cpp\<close>) answer such
  sessions too, which is how coroutines sleep and wait for descriptors; \<^verbatim>\<open>src/io.cpp\<close> and
  \<^verbatim>\<open>src/tcp.cpp\<close> are built on that.

  Which theory models what, and what its lemmas show.

  \<^item> \<open>Prelude\<close>: the integer types, collections of rules, reachable states with the locale
    \<open>invariant_contract\<close>, and facts on words and lists. \<open>Ids\<close>: \<^verbatim>\<open>src/types.hpp\<close> and the
    classification of messages by the sign of their session.
  \<^item> \<open>Append_List\<close>: the interface \<open>append_list\<close> of intrusive lists, which the mailbox and the
    scheduler rely on through \<^verbatim>\<open>wild::AppendList\<close>, with the list of \<^verbatim>\<open>src/time.cpp\<close> (nodes, next
    pointers, pointer to the last link) as an instance.
  \<^item> \<open>Timer_Wheel\<close>: \<^verbatim>\<open>struct Timer\<close> with 64-bit times, its assertions as errors. \<open>Timer_Spec\<close>: every
    pending timer lies in the slot its expiry names, a tick fires exactly those that are due.
    \<open>Timer_Service\<close>: the handlers of the timer process against a contract of a timer (a multiset of
    deadlines), and the thread that publishes the time. \<open>Timer_Nodes\<close>: the wheel with its nodes on the heap,
    linked and recycled, refines the one of values. \<open>Wakeup\<close>: what a sequence of responses leaves in
    the mailboxes. \<open>Sleep\<close>: \<^verbatim>\<open>sleep\<close> over the whole runtime, from the request of the caller to the
    response in its mailbox.
  \<^item> \<open>Mailbox\<close>: \<^verbatim>\<open>push\<close> and \<^verbatim>\<open>take\<close>, and their interleaving with the scheduler: no wake-up is lost, one
    worker at a time, messages in order.
  \<^item> \<open>Coroutine\<close>, \<open>Process\<close>, \<open>Dispatch\<close>: \<^verbatim>\<open>struct Message\<close>, \<^verbatim>\<open>class Coroutine\<close> with its result,
    and every operation of \<^verbatim>\<open>class Process\<close> (the deques and tables, the loop, dispatch, exit,
    destructor). \<open>Process_Spec\<close>: each coroutine that exists is in one deque or table, once.
    \<open>Process_Safety\<close>, \<open>Process_Exit\<close>: the loop and the exit keep that, so that no destroyed coroutine
    is touched, and the exit ends. \<open>Process_Props\<close>: the properties of the class.
    \<open>Process_Limits\<close>: where they end.
  \<^item> \<open>Switch\<close>: \<^verbatim>\<open>resume\<close>, \<^verbatim>\<open>yield\<close> and \<^verbatim>\<open>main\<close> of a coroutine over \<^verbatim>\<open>swapcontext\<close>, with the
    thread-local variables: each switch goes to a saved context, and a coroutine goes on only as the
    running one of its process, on whatever thread.
  \<^item> \<open>Registry\<close>, \<open>Registry_Spec\<close>: the table of processes and their reference counts, with every
    holder of a reference as a state: no use after free, no leak.
  \<^item> \<open>Scheduler\<close>, \<open>Scheduler_Spec\<close>: \<^verbatim>\<open>class Scheduler\<close>, its workers as a multiset of program
    points: order, no lost wake-up, end after \<^verbatim>\<open>stop\<close>.
  \<^item> \<open>Mutex\<close>, \<open>Mutex_Spec\<close>: the mutex of coroutines: exclusion, order, and its count. \<open>Session_Handle\<close>:
    the move-only handle of \<^verbatim>\<open>src/process.hpp\<close>: each session is released once. \<open>Shared_Callable\<close>: the
    wrapper of \<^verbatim>\<open>src/SharedCallable.hpp\<close>: one functor, however many copies, deleted once.
  \<^item> \<open>Free_List\<close>: the interface \<open>free_list\<close> of the recycling lists (\<^verbatim>\<open>wild::FreeList\<close>, and the lists of
    stacks), and two levels of them, one per thread and one shared, as a pool of objects with
    the interface \<open>object_pool\<close>. \<open>Message_Pool\<close>: the memory of messages, \<open>Coroutine_Context\<close>: the
    objects of \<^verbatim>\<open>class Context\<close> with their stacks, both instances of it. \<open>Context_Stack\<close>, \<open>Stack_Pool\<close>:
    sizes and free lists of the stacks: stacks in use never overlap.
  \<^item> \<open>Event_Module\<close>: \<^verbatim>\<open>src/event.cpp\<close>, with functions that may call the module again.
  \<^item> \<open>Runtime\<close>: the table of processes, their objects and the queue as one state, and on it the
    functions of \<^verbatim>\<open>namespace process\<close>: \<^verbatim>\<open>spawn\<close>, \<^verbatim>\<open>send\<close>, \<^verbatim>\<open>kill\<close>, \<^verbatim>\<open>exit\<close>,
    \<^verbatim>\<open>request\<close>, \<^verbatim>\<open>response\<close>, and a turn. \<open>Process_Frame\<close>: what a turn leaves alone.
    \<open>Runtime_Spec\<close>: the invariants of the parts hold together in every history, the calls return,
    messages arrive. \<open>Runtime_Calls\<close>: the same for the calls of a running coroutine in the middle of a
    turn. \<open>Turn_Steps\<close>: a turn in single steps, which compute what the turn of \<open>Dispatch\<close> does.
    \<open>Interleaving\<close>: all workers at once, each at a point of its turn, with the other threads acting between any
    two steps: no step faults, and a process is queued, in one turn, or idle with an empty mailbox. \<open>Handlers\<close>: the typed handlers of \<^verbatim>\<open>src/process.hpp\<close>, and that a request they handle
    is answered. \<open>Coroutine_Api\<close>: the functions of \<^verbatim>\<open>namespace coroutine\<close>; \<^verbatim>\<open>yield\<close> comes back.
    \<open>Boot\<close>: \<^verbatim>\<open>main\<close>, \<^verbatim>\<open>exit\<close> and the exit code. \<open>Startup\<close>: the modules and the helper threads, each
    joined once.
  \<^item> \<open>Fd_Poll\<close>, \<open>Fd_Spec\<close>: where \<^verbatim>\<open>fd::wait\<close> stores who waits, and whom the polling thread answers;
    \<open>Fd_Wake\<close>: the same over the whole runtime, from the session of the caller to the response;
    \<open>Kqueue\<close>, \<open>Kqueue_Wake\<close>: the two for \<^verbatim>\<open>kqueue\<close>. \<open>Io\<close>: the loops of \<^verbatim>\<open>src/io.cpp\<close> move each byte once. \<open>Echo\<close>: on
    them, the connections of \<^verbatim>\<open>examples/echo/server.cpp\<close> send back what they receive, and (\<open>Echo_Server\<close>) none of
    their descriptors is lost; \<open>Echo_Client\<close>: the clients
    of \<^verbatim>\<open>examples/echo/client.cpp\<close> read what they sent, and their requests are numbered; \<open>Client_Program\<close>: whichever
    way a client ends it leaves one message to the first process, which spawns ten thousand of them and stops the program with the last. \<open>Tcp\<close>: addresses are parsed right, and no
    descriptor is lost on any path of \<^verbatim>\<open>listen\<close>, \<^verbatim>\<open>connect\<close> and \<^verbatim>\<open>accept\<close>.

  How code becomes definitions. Objects on the heap are addressed by natural numbers and kept in
  partial maps; \<open>None\<close> is freed memory, and touching it is an error value of the model
  (\<open>UseAfterFree\<close>, or no result). A failed assertion is an error value as well. A critical section
  (\<^verbatim>\<open>WITH_LOCK\<close>), an atomic access or a system call is one step of a step relation, and steps of
  all threads interleave; memory is taken as sequentially consistent, weaker orders of the
  atomics are not modelled.

  Parameters, and what is assumed of them. What a coroutine does between two switches is the function
  \<open>seg\<close> from the process to the process after the switch. The predicate \<open>honest\<close> says it changes the
  process only through the operations a running coroutine can call and leaves the coroutine
  suspended, blocked, ready or finished; \<open>unwinds\<close> says that one that got an exception finishes. The
  library \<^verbatim>\<open>wild\<close>, which is not in the repository, enters as records of operations (\<open>append_ops\<close>,
  \<open>alloc_ops\<close>, \<open>signal_ops\<close>, \<open>free_ops\<close>, \<open>io_ops\<close>), the kernel as \<open>vm_ops\<close>, \<open>epoll_ops\<close>, \<open>kq_ops\<close> and
  \<open>net_ops\<close>; their contracts (\<open>append_list\<close>, \<open>free_list\<close>, \<open>counting_signaler\<close>, \<open>stream_contract\<close>,
  \<open>sink_contract\<close>, \<open>duplex_contract\<close>, \<open>mmap_contract\<close>, \<open>epoll_contract\<close>, \<open>kqueue_contract\<close>, \<open>net_contract\<close>) state
  documented behaviour, and each is shown to hold of a concrete instance. Waiting for input can last for ever: the loops of \<open>Io\<close> and
  \<open>Tcp\<close> return under a bound, \<open>patience\<close>, on how often a descriptor is ready for nothing.

  The grain of the interleavings. \<open>Mailbox\<close>, \<open>Registry\<close>, \<open>Scheduler\<close> and the pools interleave single
  critical sections. \<open>Runtime\<close> joins them with one call of an application, or one turn, as a step; in it
  the two queues of the scheduler are one list, which \<open>Scheduler_Spec.two_queues_are_one\<close> justifies,
  and what a coroutine does in its turn is given by \<open>seg\<close> for its own process and by
  \<open>Runtime_Calls\<close> for the others. \<open>Interleaving\<close> takes the turns apart: a step of a worker is one
  iteration of a loop of its turn, one call of the running coroutine, its switch back, or the decision at the end; what another thread does in one step
  is a whole call there too (an append with its notification, a send, a chain of destructors). The histories of whole turns are among its own
  (\<open>Interleaving.turns_are_interleavings\<close>). A new process is assumed to get an identifier that is free.

  Loops. The loop of a process, its exit, the chain of destructors that a call of \<open>Runtime\<close> sets off,
  the walks of \<open>Timer_Nodes\<close> and the loops of \<open>Io\<close>, \<open>Echo\<close> and \<open>Tcp.tcp_accept\<close> are partial functions with \<open>None\<close> for not returning,
  and the theorems about them prove that they return where the code does; all others are
  structural or have a measure. No fuel is used.

  Not modelled: the registers and signal masks that \<^verbatim>\<open>swapcontext\<close> saves (\<open>Switch\<close> keeps the point where a
  context goes on); what \<^verbatim>\<open>pthread_cancel\<close> leaves of a thread it stops in the middle of a call (a helper
  thread is running or joined); the order in which \<^verbatim>\<open>wild::module\<close> initialises, which is a parameter; and what
  the examples print.
\<close>

end
